(* ===== verification/Prelude.thy ===== *)
theory Prelude
  imports Main "HOL-Library.Word" "HOL-Library.Product_Lexorder"
begin

text \<open>
  What every component of the development shares: the machine integers and byte strings of the
  Rust code, \<^verbatim>\<open>std::io\<close> errors, big-endian encodings (\<^verbatim>\<open>to_be_bytes\<close>, \<^verbatim>\<open>from_be_bytes\<close>),
  decimal file names (\<^verbatim>\<open>to_string\<close>), and the two facts about \<^verbatim>\<open>std::collections\<close> iteration the
  code relies on (\<^verbatim>\<open>HashMap::iter\<close> and \<^verbatim>\<open>Iterator::max_by_key\<close>).
\<close>

named_theorems wire_defs \<open>definitions of the wire format constants\<close>
named_theorems wire_len \<open>lengths of encoded values\<close>

section \<open>Types\<close>

type_synonym u8 = "8 word"
type_synonym u64 = "64 word"
type_synonym u128 = "128 word"
type_synonym bytes = "u8 list"

text \<open>A \<^verbatim>\<open>PathBuf\<close> is the list of its segments; \<^verbatim>\<open>join\<close> appends one.\<close>

type_synonym path = "string list"

abbreviation join :: "path \<Rightarrow> string \<Rightarrow> path" where
  "join p s \<equiv> p @ [s]"

text \<open>\<^verbatim>\<open>std::io::Error\<close>: its kind is all the code can see of it (the message is only logged).\<close>

datatype io_error = UnexpectedEof | NotFound | OtherError

type_synonym 'a io = "io_error + 'a"

section \<open>Big-endian integers\<close>

primrec be_bytes :: "nat \<Rightarrow> nat \<Rightarrow> bytes" where
  "be_bytes 0 v = []"
| "be_bytes (Suc n) v = be_bytes n (v div 256) @ [of_nat v]"

definition be_value :: "bytes \<Rightarrow> nat" where
  "be_value bs = foldl (\<lambda>acc b. 256 * acc + unat b) 0 bs"

definition u64_to_be_bytes :: "u64 \<Rightarrow> bytes" where
  "u64_to_be_bytes x = be_bytes 8 (unat x)"

definition u64_from_be_bytes :: "bytes \<Rightarrow> u64" where
  "u64_from_be_bytes bs = of_nat (be_value bs)"

section \<open>Decimal names\<close>

definition digit_char :: "nat \<Rightarrow> char" where
  "digit_char d = char_of (48 + d)"

fun to_string :: "nat \<Rightarrow> string" where
  "to_string n = (if n < 10 then [digit_char n] else to_string (n div 10) @ [digit_char (n mod 10)])"

declare to_string.simps [simp del]

definition string_value :: "string \<Rightarrow> nat" where
  "string_value s = foldl (\<lambda>acc c. 10 * acc + (of_char c - 48)) 0 s"

section \<open>Hash maps and iterators\<close>

text \<open>
  A \<^verbatim>\<open>HashMap\<close> is a map. The order in which it is iterated is not specified by Rust, so whatever
  iterates takes it as an argument: a list of keys in hash order.
\<close>

definition hash_iter :: "'k list \<Rightarrow> ('k \<rightharpoonup> 'v) \<Rightarrow> ('k \<times> 'v) list" where
  "hash_iter order m = List.map_filter (\<lambda>k. map_option (Pair k) (m k)) order"

text \<open>\<^verbatim>\<open>Iterator::max_by_key\<close> returns the last of several maximal elements.\<close>

fun max_by_key :: "('a \<Rightarrow> 'k::linorder) \<Rightarrow> 'a list \<Rightarrow> 'a option" where
  "max_by_key f [] = None"
| "max_by_key f (x # xs) = Some (fold (\<lambda>y best. if f y < f best then best else y) xs x)"

section \<open>Lemmas: bytes\<close>

lemma length_be_bytes [simp, wire_len]: "length (be_bytes n v) = n"
  by (induction n arbitrary: v) simp_all

lemma be_value_Nil [simp]: "be_value [] = 0"
  by (simp add: be_value_def)

lemma be_value_snoc [simp]: "be_value (bs @ [b]) = 256 * be_value bs + unat b"
  by (simp add: be_value_def)

lemma unat_u8_less: "unat (b :: u8) < 256"
  using unsigned_less [of b] by simp

lemma be_value_bound: "be_value bs < 256 ^ length bs"
proof (induction bs rule: rev_induct)
  case Nil
  show ?case by simp
next
  case (snoc b bs)
  have "256 * be_value bs + unat b < 256 * Suc (be_value bs)"
    using unat_u8_less [of b] by simp
  also have "\<dots> \<le> 256 * 256 ^ length bs"
    using snoc.IH by simp
  finally show ?case by simp
qed

lemma be_value_be_bytes: "be_value (be_bytes n v) = v mod 256 ^ n"
proof (induction n arbitrary: v)
  case 0
  show ?case by simp
next
  case (Suc n)
  have "be_value (be_bytes (Suc n) v) = 256 * (v div 256 mod 256 ^ n) + v mod 256"
    by (simp add: Suc.IH unat_of_nat)
  also have "\<dots> = v mod 256 ^ Suc n"
    by (simp add: mod_mult2_eq)
  finally show ?case .
qed

lemma be_bytes_be_value: "be_bytes (length bs) (be_value bs) = bs"
proof (induction bs rule: rev_induct)
  case Nil
  show ?case by simp
next
  case (snoc b bs)
  have "(256 * be_value bs + unat b) div 256 = be_value bs"
    using unat_u8_less [of b] by simp
  moreover have "(of_nat (256 * be_value bs + unat b) :: u8) = b"
  proof -
    have "(of_nat (256 * be_value bs) :: u8) = 0"
      by (simp add: of_nat_mult [symmetric] word_of_nat_eq_0_iff del: of_nat_mult)
    then show ?thesis by simp
  qed
  ultimately show ?case using snoc.IH by simp
qed

lemma length_u64_to_be_bytes [simp, wire_len]: "length (u64_to_be_bytes x) = 8"
  by (simp add: u64_to_be_bytes_def)

lemma u64_to_be_bytes_not_Nil [simp]: "u64_to_be_bytes x \<noteq> []" "[] \<noteq> u64_to_be_bytes x"
  using length_u64_to_be_bytes [of x] by (auto simp del: length_u64_to_be_bytes)

lemma u64_from_to_be_bytes [simp]: "u64_from_be_bytes (u64_to_be_bytes x) = x"
proof -
  have "unat x < 256 ^ 8"
    using unsigned_less [of x] by simp
  then show ?thesis
    by (simp add: u64_from_be_bytes_def u64_to_be_bytes_def be_value_be_bytes)
qed

lemma u64_to_from_be_bytes: "length bs = 8 \<Longrightarrow> u64_to_be_bytes (u64_from_be_bytes bs) = bs"
  using be_value_bound [of bs] be_bytes_be_value [of bs]
  by (simp add: u64_from_be_bytes_def u64_to_be_bytes_def unat_of_nat)

lemma u64_to_be_bytes_inject [simp]: "u64_to_be_bytes x = u64_to_be_bytes y \<longleftrightarrow> x = y"
  using u64_from_to_be_bytes by metis

section \<open>Lemmas: names\<close>

lemma string_value_snoc: "string_value (s @ [c]) = 10 * string_value s + (of_char c - 48)"
  by (simp add: string_value_def)

lemma string_value_to_string [simp]: "string_value (to_string n) = n"
proof (induction n rule: to_string.induct)
  case (1 n)
  have digit: "of_char (digit_char d) - 48 = d" if "d < 10" for d :: nat
    using that by (simp add: digit_char_def of_char_of)
  show ?case
  proof (cases "n < 10")
    case True
    then have "to_string n = [] @ [digit_char n]"
      by (simp add: to_string.simps)
    then show ?thesis
      using digit [OF True] string_value_snoc [of "[]"] by (simp add: string_value_def)
  next
    case False
    then have "to_string n = to_string (n div 10) @ [digit_char (n mod 10)]"
      by (simp add: to_string.simps [of n])
    then show ?thesis
      using 1 False digit [of "n mod 10"] by (simp add: string_value_snoc)
  qed
qed

lemma to_string_inject [simp]: "to_string m = to_string n \<longleftrightarrow> m = n"
  using string_value_to_string by metis

section \<open>Lemmas: iteration\<close>

lemma set_hash_iter: "set (hash_iter order m) = {(k, v). k \<in> set order \<and> m k = Some v}"
  by (induction order) (auto simp: hash_iter_def split: option.splits)

lemma hash_iter_eq_Nil: "hash_iter order m = [] \<longleftrightarrow> (\<forall>k \<in> set order. m k = None)"
  by (auto simp: hash_iter_def map_filter_def filter_empty_conv)

lemma fold_max_in:
  fixes f :: "'a \<Rightarrow> 'k::linorder"
  shows "fold (\<lambda>y best. if f y < f best then best else y) xs x \<in> insert x (set xs)"
proof (induction xs arbitrary: x)
  case Nil
  show ?case by simp
next
  case (Cons z xs)
  from Cons.IH [of x] Cons.IH [of z] show ?case by auto
qed

lemma fold_max_ge:
  fixes f :: "'a \<Rightarrow> 'k::linorder"
  shows "y \<in> insert x (set xs) \<Longrightarrow>
    f y \<le> f (fold (\<lambda>y best. if f y < f best then best else y) xs x)"
proof (induction xs arbitrary: x y)
  case Nil
  then show ?case by simp
next
  case (Cons z xs)
  define b where "b = (if f z < f x then x else z)"
  have b: "f x \<le> f b" "f z \<le> f b"
    by (auto simp: b_def)
  have "f b \<le> f (fold (\<lambda>y best. if f y < f best then best else y) xs b)"
    by (rule Cons.IH) simp
  with b Cons.IH [of _ b] Cons.prems show ?case
    by (auto simp flip: b_def intro: order_trans)
qed

lemma max_by_key_None [simp]: "max_by_key f xs = None \<longleftrightarrow> xs = []"
  by (cases xs) simp_all

lemma max_by_key_in: "max_by_key f xs = Some x \<Longrightarrow> x \<in> set xs"
  using fold_max_in [of f] by (cases xs) auto

lemma max_by_key_ge: "max_by_key f xs = Some x \<Longrightarrow> y \<in> set xs \<Longrightarrow> f y \<le> f x"
  by (cases xs) (auto intro: fold_max_ge)

lemma max_by_key_hash_iter:
  assumes "dom m \<subseteq> set order" and "m k = Some v"
  obtains k' v' where "max_by_key f (hash_iter order m) = Some (k', v')" and "m k' = Some v'"
    and "\<forall>k'' v''. m k'' = Some v'' \<longrightarrow> f (k'', v'') \<le> f (k', v')"
proof -
  have all: "m k'' = Some v'' \<Longrightarrow> (k'', v'') \<in> set (hash_iter order m)" for k'' v''
    using assms(1) by (auto simp: set_hash_iter)
  have "hash_iter order m \<noteq> []"
    using all [OF assms(2)] by auto
  then obtain k' v' where m: "max_by_key f (hash_iter order m) = Some (k', v')"
    by (metis max_by_key_None not_None_eq surj_pair)
  moreover from max_by_key_in [OF m] have "m k' = Some v'"
    by (simp add: set_hash_iter)
  moreover have "\<forall>k'' v''. m k'' = Some v'' \<longrightarrow> f (k'', v'') \<le> f (k', v')"
    using max_by_key_ge [OF m all] by blast
  ultimately show ?thesis by (rule that)
qed

section \<open>Lemmas: records of a fixed width\<close>

lemma length_concat_fixed:
  "(\<And>x. length (f x) = n) \<Longrightarrow> length (concat (map f xs)) = length xs * n"
  by (induction xs) simp_all

lemma concat_split_nth:
  "j < length xs \<Longrightarrow>
     concat (map f xs) = concat (map f (take j xs)) @ f (xs ! j) @ concat (map f (drop (Suc j) xs))"
  by (subst id_take_nth_drop [of j xs]) simp_all

lemma concat_list_update:
  "j < length xs \<Longrightarrow>
     concat (map f (xs[j := e])) = concat (map f (take j xs)) @ f e @ concat (map f (drop (Suc j) xs))"
  by (simp add: upd_conv_take_nth_drop)

end
