(* ===== verification/Domain.thy ===== *)
theory Domain
  imports Prelude
begin

text \<open>
  The data model of the program, \<^verbatim>\<open>solution/src/domain.rs\<close>: configuration, client and system
  commands with their headers, and operation results. \<^verbatim>\<open>Uuid\<close> comes from the \<^verbatim>\<open>uuid\<close> crate, so its
  type is a parameter \<open>'u\<close> and its three functions the program calls are the fields of the record
  \<open>uuid_crate\<close>; \<open>uuid_laws\<close> is the documented behaviour the program relies on.
\<close>

section \<open>Constants and configuration\<close>

definition MAGIC_NUMBER :: bytes where
  "MAGIC_NUMBER = [0x61, 0x74, 0x64, 0x64]"

record PublicConfiguration =
  storage_dir :: path
  tcp_locations :: "(string \<times> 16 word) list"
  self_rank :: u8
  max_sector :: u64

record Configuration =
  hmac_system_key :: bytes
  hmac_client_key :: bytes
  public :: PublicConfiguration

definition SECTOR_VEC_SIZE :: nat where
  "SECTOR_VEC_SIZE = 4096"

type_synonym SectorVec = bytes

definition SectorVec_new :: SectorVec where
  "SectorVec_new = replicate SECTOR_VEC_SIZE 0"

type_synonym SectorIdx = u64

section \<open>Commands\<close>

record ClientCommandHeader =
  request_identifier :: u64
  c_sector_idx :: SectorIdx

datatype ClientRegisterCommandContent = Read | Write SectorVec

record ClientRegisterCommand =
  c_header :: ClientCommandHeader
  c_content :: ClientRegisterCommandContent

record 'u SystemCommandHeader =
  process_identifier :: u8
  msg_ident :: 'u
  read_ident :: u64
  s_sector_idx :: SectorIdx

datatype SystemRegisterCommandContent =
    ReadProc
  | Value u64 u8 SectorVec
  | WriteProc u64 u8 SectorVec
  | Ack

record 'u SystemRegisterCommand =
  s_header :: "'u SystemCommandHeader"
  s_content :: SystemRegisterCommandContent

datatype 'u RegisterCommand =
    Client ClientRegisterCommand
  | System "'u SystemRegisterCommand"

definition SystemCommandHeader_new ::
    "u8 \<Rightarrow> 'u \<Rightarrow> u64 \<Rightarrow> SectorIdx \<Rightarrow> 'u SystemCommandHeader" where
  "SystemCommandHeader_new pid m r s =
     \<lparr>process_identifier = pid, msg_ident = m, read_ident = r, s_sector_idx = s\<rparr>"

section \<open>Results\<close>

datatype StatusCode = Ok | AuthFailure | InvalidSectorIndex

text \<open>\<^verbatim>\<open>#[repr(u8)]\<close>: consecutive bytes, starting with 0 for \<open>Ok\<close>.\<close>

primrec status_code_u8 :: "StatusCode \<Rightarrow> u8" where
  "status_code_u8 Ok = 0"
| "status_code_u8 AuthFailure = 1"
| "status_code_u8 InvalidSectorIndex = 2"

datatype OperationReturn = ReadReturn "SectorVec option" | WriteReturn

record OperationComplete =
  status_code :: StatusCode
  op_request_identifier :: u64
  op_return :: OperationReturn

section \<open>The uuid crate\<close>

record 'u uuid_crate =
  uuid_from_bytes :: "bytes \<Rightarrow> 'u"
  uuid_as_bytes :: "'u \<Rightarrow> bytes"
  uuid_from_u128 :: "u128 \<Rightarrow> 'u"

definition uuid_laws :: "'u uuid_crate \<Rightarrow> bool" where
  "uuid_laws U \<longleftrightarrow>
     (\<forall>u. length (uuid_as_bytes U u) = 16 \<and> uuid_from_bytes U (uuid_as_bytes U u) = u) \<and>
     (\<forall>x y. uuid_from_u128 U x = uuid_from_u128 U y \<longrightarrow> x = y)"

text \<open>\<^verbatim>\<open>Uuid::from_u128(request_identifier as u128)\<close>, the message identifier of a client request.\<close>

definition request_uuid :: "'u uuid_crate \<Rightarrow> u64 \<Rightarrow> 'u" where
  "request_uuid U r = uuid_from_u128 U (ucast r)"

text \<open>A concrete crate for witnesses: a \<^verbatim>\<open>Uuid\<close> is a 128-bit number, its bytes big-endian.\<close>

definition u128_uuid :: "u128 uuid_crate" where
  "u128_uuid = \<lparr>uuid_from_bytes = (\<lambda>bs. of_nat (be_value bs)),
     uuid_as_bytes = (\<lambda>u. be_bytes 16 (unat u)), uuid_from_u128 = id\<rparr>"

section \<open>Well-formed commands\<close>

text \<open>Sector contents are 4096 bytes long; \<^verbatim>\<open>SectorVec\<close> itself does not enforce it.\<close>

definition sector_ok :: "SectorVec \<Rightarrow> bool" where
  "sector_ok d \<longleftrightarrow> length d = SECTOR_VEC_SIZE"

primrec client_content_ok :: "ClientRegisterCommandContent \<Rightarrow> bool" where
  "client_content_ok Read = True"
| "client_content_ok (Write d) = sector_ok d"

primrec system_content_ok :: "SystemRegisterCommandContent \<Rightarrow> bool" where
  "system_content_ok ReadProc = True"
| "system_content_ok (Value t w d) = sector_ok d"
| "system_content_ok (WriteProc t w d) = sector_ok d"
| "system_content_ok Ack = True"

primrec command_ok :: "'u RegisterCommand \<Rightarrow> bool" where
  "command_ok (Client c) = client_content_ok (c_content c)"
| "command_ok (System s) = system_content_ok (s_content s)"

section \<open>Lemmas\<close>

lemma length_MAGIC_NUMBER [simp, wire_len]: "length MAGIC_NUMBER = 4"
  by (simp add: MAGIC_NUMBER_def)

lemma length_SectorVec_new [simp, wire_len]: "length SectorVec_new = SECTOR_VEC_SIZE"
  by (simp add: SectorVec_new_def)

lemma SECTOR_VEC_SIZE_pos [simp]: "0 < SECTOR_VEC_SIZE"
  by (simp add: SECTOR_VEC_SIZE_def)

lemma sector_ok_new [simp]: "sector_ok SectorVec_new"
  by (simp add: sector_ok_def)

lemma status_code_u8_inject [simp]: "status_code_u8 a = status_code_u8 b \<longleftrightarrow> a = b"
  by (cases a; cases b) simp_all

lemma uuid_lawsD:
  assumes "uuid_laws U"
  shows "length (uuid_as_bytes U u) = 16"
    and "uuid_from_bytes U (uuid_as_bytes U u) = u"
    and "uuid_from_u128 U x = uuid_from_u128 U y \<longleftrightarrow> x = y"
  using assms by (auto simp: uuid_laws_def)

lemma unat_ucast_u64_u128: "unat (ucast (r :: u64) :: u128) = unat r"
proof -
  have "unat r < 2 ^ 64"
    using unsigned_less [of r, where 'a = nat] by simp
  then show ?thesis
    by (simp add: unsigned_ucast_eq take_bit_nat_eq_self)
qed

lemma ucast_u64_u128_inject: "(ucast r :: u128) = ucast (r' :: u64) \<longleftrightarrow> r = r'"
  using unat_ucast_u64_u128 by (metis unsigned_word_eqI)

lemma request_uuid_inject: "uuid_laws U \<Longrightarrow> request_uuid U r = request_uuid U r' \<longleftrightarrow> r = r'"
  by (simp add: request_uuid_def uuid_lawsD(3) ucast_u64_u128_inject)

lemma u128_uuid_laws [simp]: "uuid_laws u128_uuid"
proof -
  have "unat (u :: u128) < 256 ^ 16" for u
    using unsigned_less [of u] by simp
  then show ?thesis
    by (simp add: uuid_laws_def u128_uuid_def be_value_be_bytes)
qed

end
