(* ===== verification/Wire_Format.thy ===== *)
theory Wire_Format
  imports Domain
begin

text \<open>
  The wire format: \<^verbatim>\<open>solution/src/serialize_deserialize.rs\<close> and the module \<^verbatim>\<open>transfer_public\<close> of
  \<^verbatim>\<open>solution/src/lib.rs\<close>. The code reads from a \<^verbatim>\<open>dyn Read\<close> and writes to a \<^verbatim>\<open>dyn Write\<close>; the model's
  functions take the one method they call of each (\<^verbatim>\<open>read_exact\<close>, \<^verbatim>\<open>write_all\<close>) as an argument. The
  locales \<open>byte_reader\<close> and \<open>byte_writer\<close> are the contracts of the two traits, interpreted on the
  byte slice and the byte vector the program passes.
\<close>

section \<open>Message types\<close>

definition READ :: u8 where [wire_defs]: "READ = 0x01"
definition WRITE :: u8 where [wire_defs]: "WRITE = 0x02"
definition READ_PROC :: u8 where [wire_defs]: "READ_PROC = 0x03"
definition VALUE :: u8 where [wire_defs]: "VALUE = 0x04"
definition WRITE_PROC :: u8 where [wire_defs]: "WRITE_PROC = 0x05"
definition ACK :: u8 where [wire_defs]: "ACK = 0x06"

primrec client_msg_type :: "ClientRegisterCommandContent \<Rightarrow> u8" where
  "client_msg_type Read = READ"
| "client_msg_type (Write d) = WRITE"

primrec system_msg_type :: "SystemRegisterCommandContent \<Rightarrow> u8" where
  "system_msg_type ReadProc = READ_PROC"
| "system_msg_type (Value t w d) = VALUE"
| "system_msg_type (WriteProc t w d) = WRITE_PROC"
| "system_msg_type Ack = ACK"

section \<open>Readers and writers\<close>

type_synonym 'r read_exact = "'r \<Rightarrow> nat \<Rightarrow> (bytes \<times> 'r) io"
type_synonym 'w write_all = "'w \<Rightarrow> bytes \<Rightarrow> 'w io"

text \<open>\<^verbatim>\<open>impl Read for &[u8]\<close> and \<^verbatim>\<open>impl Write for Vec<u8>\<close>.\<close>

definition slice_read_exact :: "bytes read_exact" where
  "slice_read_exact bs n =
     (if n \<le> length bs then Inr (take n bs, drop n bs) else Inl UnexpectedEof)"

definition vec_write_all :: "bytes write_all" where
  "vec_write_all w bs = Inr (w @ bs)"

section \<open>Client commands\<close>

definition client_command_bytes :: "ClientRegisterCommand \<Rightarrow> bytes" where
  "client_command_bytes cmd =
     [0, 0, 0] @ [client_msg_type (c_content cmd)]
     @ u64_to_be_bytes (request_identifier (c_header cmd))
     @ u64_to_be_bytes (c_sector_idx (c_header cmd))
     @ (case c_content cmd of Write d \<Rightarrow> d | Read \<Rightarrow> [])"

definition serialize_client_command :: "'w write_all \<Rightarrow> ClientRegisterCommand \<Rightarrow> 'w \<Rightarrow> 'w io" where
  "serialize_client_command write_all cmd w = write_all w (client_command_bytes cmd)"

definition deserialize_client_command ::
    "'r read_exact \<Rightarrow> 'r \<Rightarrow> u8 \<Rightarrow> ('u RegisterCommand \<times> 'r) io" where
  "deserialize_client_command read_exact data msg_type =
     (case read_exact data 16 of
        Inl e \<Rightarrow> Inl e
      | Inr (buffer, data) \<Rightarrow>
          (let hd = \<lparr>request_identifier = u64_from_be_bytes (take 8 buffer),
                     c_sector_idx = u64_from_be_bytes (drop 8 buffer)\<rparr>
           in if msg_type = READ then Inr (Client \<lparr>c_header = hd, c_content = Read\<rparr>, data)
              else if msg_type = WRITE then
                (case read_exact data SECTOR_VEC_SIZE of
                   Inl e \<Rightarrow> Inl e
                 | Inr (content, data) \<Rightarrow>
                     Inr (Client \<lparr>c_header = hd, c_content = Write content\<rparr>, data))
              else Inl OtherError))"

section \<open>System commands\<close>

primrec system_content_bytes :: "SystemRegisterCommandContent \<Rightarrow> bytes" where
  "system_content_bytes ReadProc = []"
| "system_content_bytes (Value t w d) = u64_to_be_bytes t @ replicate 7 0 @ [w] @ d"
| "system_content_bytes (WriteProc t w d) = u64_to_be_bytes t @ replicate 7 0 @ [w] @ d"
| "system_content_bytes Ack = []"

definition system_command_bytes :: "'u uuid_crate \<Rightarrow> 'u SystemRegisterCommand \<Rightarrow> bytes" where
  "system_command_bytes U cmd =
     [0, 0, process_identifier (s_header cmd)] @ [system_msg_type (s_content cmd)]
     @ uuid_as_bytes U (msg_ident (s_header cmd))
     @ u64_to_be_bytes (read_ident (s_header cmd))
     @ u64_to_be_bytes (s_sector_idx (s_header cmd))
     @ system_content_bytes (s_content cmd)"

definition serialize_system_command ::
    "'u uuid_crate \<Rightarrow> 'w write_all \<Rightarrow> 'u SystemRegisterCommand \<Rightarrow> 'w \<Rightarrow> 'w io" where
  "serialize_system_command U write_all cmd w = write_all w (system_command_bytes U cmd)"

definition deserialize_system_command ::
    "'u uuid_crate \<Rightarrow> 'r read_exact \<Rightarrow> 'r \<Rightarrow> u8 \<Rightarrow> u8 \<Rightarrow> ('u RegisterCommand \<times> 'r) io" where
  "deserialize_system_command U read_exact data pid msg_type =
     (if msg_type \<noteq> READ_PROC \<and> msg_type \<noteq> VALUE \<and> msg_type \<noteq> WRITE_PROC \<and> msg_type \<noteq> ACK
      then Inl OtherError
      else case read_exact data 32 of
        Inl e \<Rightarrow> Inl e
      | Inr (buffer, data) \<Rightarrow>
          (let hd = \<lparr>process_identifier = pid,
                     msg_ident = uuid_from_bytes U (take 16 buffer),
                     read_ident = u64_from_be_bytes (take 8 (drop 16 buffer)),
                     s_sector_idx = u64_from_be_bytes (drop 24 buffer)\<rparr>
           in if msg_type = READ_PROC then
                Inr (System \<lparr>s_header = hd, s_content = ReadProc\<rparr>, data)
              else if msg_type = VALUE then
                (case read_exact data (16 + SECTOR_VEC_SIZE) of
                   Inl e \<Rightarrow> Inl e
                 | Inr (buffer, data) \<Rightarrow>
                     Inr (System \<lparr>s_header = hd, s_content =
                       Value (u64_from_be_bytes (take 8 buffer)) (buffer ! 15) (drop 16 buffer)\<rparr>, data))
              else if msg_type = WRITE_PROC then
                (case read_exact data (16 + SECTOR_VEC_SIZE) of
                   Inl e \<Rightarrow> Inl e
                 | Inr (buffer, data) \<Rightarrow>
                     Inr (System \<lparr>s_header = hd, s_content =
                       WriteProc (u64_from_be_bytes (take 8 buffer)) (buffer ! 15) (drop 16 buffer)\<rparr>, data))
              else if msg_type = ACK then
                Inr (System \<lparr>s_header = hd, s_content = Ack\<rparr>, data)
              else Inl OtherError))"

section \<open>Register commands and responses\<close>

definition serialize_register_command ::
    "'u uuid_crate \<Rightarrow> 'w write_all \<Rightarrow> 'u RegisterCommand \<Rightarrow> 'w \<Rightarrow> 'w io" where
  "serialize_register_command U write_all cmd w =
     (case write_all w MAGIC_NUMBER of
        Inl e \<Rightarrow> Inl e
      | Inr w \<Rightarrow>
          (case cmd of
             Client c \<Rightarrow> serialize_client_command write_all c w
           | System s \<Rightarrow> serialize_system_command U write_all s w))"

definition deserialize_register_command ::
    "'u uuid_crate \<Rightarrow> 'r read_exact \<Rightarrow> 'r \<Rightarrow> ('u RegisterCommand \<times> 'r) io" where
  "deserialize_register_command U read_exact data =
     (case read_exact data 8 of
        Inl e \<Rightarrow> Inl e
      | Inr (buffer, data) \<Rightarrow>
          (let pid = buffer ! 6; msg_type = buffer ! 7
           in if msg_type = READ \<or> msg_type = WRITE
              then deserialize_client_command read_exact data msg_type
              else deserialize_system_command U read_exact data pid msg_type))"

definition serialize_response :: "OperationComplete \<Rightarrow> u8 \<Rightarrow> bytes" where
  "serialize_response op_complete msg_type =
     MAGIC_NUMBER @ [0, 0, status_code_u8 (status_code op_complete), 0x40 + msg_type]
     @ u64_to_be_bytes (op_request_identifier op_complete)
     @ (case op_return op_complete of ReadReturn (Some d) \<Rightarrow> d | _ \<Rightarrow> [])"

section \<open>Lemmas: the wire format\<close>

lemma msg_type_distinct [simp]:
  "READ \<noteq> WRITE" "WRITE \<noteq> READ"
  "READ_PROC \<noteq> READ" "VALUE \<noteq> READ" "WRITE_PROC \<noteq> READ" "ACK \<noteq> READ"
  "READ_PROC \<noteq> WRITE" "VALUE \<noteq> WRITE" "WRITE_PROC \<noteq> WRITE" "ACK \<noteq> WRITE"
  "VALUE \<noteq> READ_PROC" "WRITE_PROC \<noteq> READ_PROC" "ACK \<noteq> READ_PROC"
  "WRITE_PROC \<noteq> VALUE" "ACK \<noteq> VALUE" "ACK \<noteq> WRITE_PROC"
  by (simp_all add: wire_defs)

text \<open>
  The length of a message by its type byte: the smallest input on which a command of that type can
  be decoded. Types outside 1 to 6 have none.
\<close>

definition frame_length :: "u8 \<Rightarrow> nat option" where
  "frame_length t =
     (if t = READ then Some 24 else if t = WRITE then Some (24 + SECTOR_VEC_SIZE)
      else if t = READ_PROC \<or> t = ACK then Some 40
      else if t = VALUE \<or> t = WRITE_PROC then Some (56 + SECTOR_VEC_SIZE) else None)"

primrec command_msg_type :: "'u RegisterCommand \<Rightarrow> u8" where
  "command_msg_type (Client c) = client_msg_type (c_content c)"
| "command_msg_type (System s) = system_msg_type (s_content s)"

definition command_bytes :: "'u uuid_crate \<Rightarrow> 'u RegisterCommand \<Rightarrow> bytes" where
  "command_bytes U cmd = MAGIC_NUMBER @ (case cmd of
     Client c \<Rightarrow> client_command_bytes c | System s \<Rightarrow> system_command_bytes U s)"

lemma client_msg_type_eq [simp]:
  "client_msg_type c = READ \<longleftrightarrow> c = Read" "client_msg_type c = WRITE \<longleftrightarrow> (\<exists>d. c = Write d)"
  by (cases c; simp)+

lemma client_msg_type_cases: "client_msg_type c = READ \<or> client_msg_type c = WRITE"
  by (cases c) simp_all

lemma system_msg_type_neq [simp]: "system_msg_type c \<noteq> READ" "system_msg_type c \<noteq> WRITE"
  by (cases c; simp)+

lemma length_client_command_bytes [wire_len]:
  "length (client_command_bytes c) =
     20 + (case c_content c of Read \<Rightarrow> 0 | Write d \<Rightarrow> length d)"
  by (simp add: client_command_bytes_def split: ClientRegisterCommandContent.split)

lemma length_system_command_bytes [wire_len]:
  "uuid_laws U \<Longrightarrow> length (system_command_bytes U s) =
     36 + (case s_content s of ReadProc \<Rightarrow> 0 | Value t w d \<Rightarrow> 16 + length d
                             | WriteProc t w d \<Rightarrow> 16 + length d | Ack \<Rightarrow> 0)"
  by (simp add: system_command_bytes_def uuid_lawsD split: SystemRegisterCommandContent.split)

lemma length_command_bytes:
  assumes "uuid_laws U" and "command_ok cmd"
  shows "frame_length (command_msg_type cmd) = Some (length (command_bytes U cmd))"
  using assms
  by (cases cmd)
    (auto simp: command_bytes_def wire_len frame_length_def sector_ok_def wire_defs
       split: ClientRegisterCommandContent.splits SystemRegisterCommandContent.splits)

section \<open>Contracts of the reader and the writer\<close>

locale byte_reader =
  fixes read_exact :: "'r read_exact"
    and contents :: "'r \<Rightarrow> bytes"
  assumes read_exact_ok: "n \<le> length (contents r) \<Longrightarrow>
      \<exists>r'. read_exact r n = Inr (take n (contents r), r') \<and> contents r' = drop n (contents r)"
    and read_exact_eof: "length (contents r) < n \<Longrightarrow> read_exact r n = Inl UnexpectedEof"
begin

definition agrees :: "('a \<times> 'r) io \<Rightarrow> ('a \<times> bytes) io \<Rightarrow> bool" where
  "agrees x y \<longleftrightarrow> (case y of
       Inl e \<Rightarrow> x = Inl e
     | Inr (a, rest) \<Rightarrow> \<exists>r'. x = Inr (a, r') \<and> contents r' = rest)"

lemma agrees_read_exact: "agrees (read_exact r n) (slice_read_exact (contents r) n)"
  using read_exact_ok [of n r] read_exact_eof [of r n]
  by (auto simp: agrees_def slice_read_exact_def)

lemma agrees_ret: "agrees (Inl e) (Inl e)" "contents r = bs \<Longrightarrow> agrees (Inr (a, r)) (Inr (a, bs))"
  by (simp_all add: agrees_def)

lemma agrees_bind:
  assumes "agrees x y" and "\<And>a r. agrees (f a r) (g a (contents r))"
  shows "agrees (case x of Inl e \<Rightarrow> Inl e | Inr (a, r) \<Rightarrow> f a r)
                (case y of Inl e \<Rightarrow> Inl e | Inr (a, bs) \<Rightarrow> g a bs)"
proof (cases y)
  case (Inl e)
  with assms(1) show ?thesis by (simp add: agrees_def)
next
  case (Inr p)
  then obtain a r where "y = Inr (a, contents r)" "x = Inr (a, r)"
    using assms(1) by (cases p) (auto simp: agrees_def)
  with assms(2) show ?thesis by simp
qed

lemma agrees_client:
  "agrees (deserialize_client_command read_exact r t)
          (deserialize_client_command slice_read_exact (contents r) t)"
  unfolding deserialize_client_command_def Let_def
  by (rule agrees_bind, rule agrees_read_exact)
    (auto intro!: agrees_ret agrees_bind agrees_read_exact)

lemma agrees_system:
  "agrees (deserialize_system_command U read_exact r p t)
          (deserialize_system_command U slice_read_exact (contents r) p t)"
proof (cases "t \<noteq> READ_PROC \<and> t \<noteq> VALUE \<and> t \<noteq> WRITE_PROC \<and> t \<noteq> ACK")
  case True
  then show ?thesis by (simp add: deserialize_system_command_def agrees_ret)
next
  case False
  show ?thesis
    unfolding deserialize_system_command_def Let_def if_not_P [OF False]
    by (rule agrees_bind, rule agrees_read_exact)
      (auto intro!: agrees_ret agrees_bind agrees_read_exact)
qed

lemma agrees_register:
  "agrees (deserialize_register_command U read_exact r)
          (deserialize_register_command U slice_read_exact (contents r))"
  unfolding deserialize_register_command_def Let_def
  by (rule agrees_bind, rule agrees_read_exact) (auto intro: agrees_client agrees_system)

end

interpretation slice: byte_reader slice_read_exact "\<lambda>bs. bs"
  by unfold_locales (simp_all add: slice_read_exact_def)

locale byte_writer =
  fixes write_all :: "'w write_all"
    and written :: "'w \<Rightarrow> bytes"
  assumes write_all_appends: "write_all w bs = Inr w' \<Longrightarrow> written w' = written w @ bs"
begin

lemma serialize_writes:
  "serialize_register_command U write_all cmd w = Inr w' \<Longrightarrow>
     written w' = written w @ command_bytes U cmd"
  by (auto simp: serialize_register_command_def serialize_client_command_def
      serialize_system_command_def command_bytes_def dest!: write_all_appends
      split: sum.splits RegisterCommand.splits)

end

interpretation vec: byte_writer vec_write_all "\<lambda>w. w"
  by unfold_locales (simp add: vec_write_all_def)

lemma vec_serialize [simp]:
  "serialize_register_command U vec_write_all cmd w = Inr (w @ command_bytes U cmd)"
  by (simp add: serialize_register_command_def serialize_client_command_def
      serialize_system_command_def command_bytes_def vec_write_all_def split: RegisterCommand.split)

section \<open>Lemmas: decoding\<close>

lemma slice_read_append [simp]:
  "length xs = n \<Longrightarrow> slice_read_exact (xs @ ys) n = Inr (xs, ys)"
  by (simp add: slice_read_exact_def)

lemma slice_read_8 [simp]:
  "slice_read_exact (a # b # c # d # e # f # g # h # ys) 8 = Inr ([a, b, c, d, e, f, g, h], ys)"
  by (simp add: slice_read_exact_def)

lemma deserialize_client_bytes:
  "client_content_ok (c_content c) \<Longrightarrow>
   deserialize_client_command slice_read_exact
     (u64_to_be_bytes (request_identifier (c_header c)) @ u64_to_be_bytes (c_sector_idx (c_header c))
      @ (case c_content c of Write d \<Rightarrow> d | Read \<Rightarrow> []) @ rest) (client_msg_type (c_content c))
   = Inr (Client c, rest)"
  by (cases "c_content c")
    (simp_all add: deserialize_client_command_def slice_read_exact_def sector_ok_def)

lemma deserialize_system_bytes:
  "uuid_laws U \<Longrightarrow> system_content_ok (s_content s) \<Longrightarrow>
   deserialize_system_command U slice_read_exact
     (uuid_as_bytes U (msg_ident (s_header s)) @ u64_to_be_bytes (read_ident (s_header s))
      @ u64_to_be_bytes (s_sector_idx (s_header s)) @ system_content_bytes (s_content s) @ rest)
     (process_identifier (s_header s)) (system_msg_type (s_content s))
   = Inr (System s, rest)"
  by (cases "s_content s")
    (simp_all add: deserialize_system_command_def slice_read_exact_def sector_ok_def uuid_lawsD
      nth_append)

lemma deserialize_command_bytes:
  assumes "uuid_laws U" and "command_ok cmd"
  shows "deserialize_register_command U slice_read_exact (command_bytes U cmd @ rest) = Inr (cmd, rest)"
  using assms
  by (cases cmd)
    (simp_all add: command_bytes_def deserialize_register_command_def client_command_bytes_def
      system_command_bytes_def MAGIC_NUMBER_def client_msg_type_cases deserialize_client_bytes
      deserialize_system_bytes Let_def del: client_msg_type_eq)

lemma deserialize_client_slice:
  assumes "t = READ \<or> t = WRITE"
  shows "deserialize_client_command slice_read_exact bs t =
    (let n = (if t = READ then 16 else 16 + SECTOR_VEC_SIZE) in
     if length bs < n then Inl UnexpectedEof
     else Inr (Client \<lparr>c_header = \<lparr>request_identifier = u64_from_be_bytes (take 8 bs),
                         c_sector_idx = u64_from_be_bytes (take 8 (drop 8 bs))\<rparr>,
        c_content = (if t = READ then Read else Write (take SECTOR_VEC_SIZE (drop 16 bs)))\<rparr>, drop n bs))"
  using assms
  by (auto simp: deserialize_client_command_def slice_read_exact_def Let_def drop_take min_def
      add.commute)

lemma deserialize_system_slice:
  assumes "t = READ_PROC \<or> t = VALUE \<or> t = WRITE_PROC \<or> t = ACK"
  shows "deserialize_system_command U slice_read_exact bs p t =
    (let n = (if t = READ_PROC \<or> t = ACK then 32 else 48 + SECTOR_VEC_SIZE);
         ts = u64_from_be_bytes (take 8 (drop 32 bs)); wr = bs ! 47;
         d = take SECTOR_VEC_SIZE (drop 48 bs) in
     if length bs < n then Inl UnexpectedEof
     else Inr (System \<lparr>s_header = \<lparr>process_identifier = p, msg_ident = uuid_from_bytes U (take 16 bs),
                         read_ident = u64_from_be_bytes (take 8 (drop 16 bs)),
                         s_sector_idx = u64_from_be_bytes (take 8 (drop 24 bs))\<rparr>,
        s_content = (if t = READ_PROC then ReadProc else if t = ACK then Ack
                     else if t = VALUE then Value ts wr d else WriteProc ts wr d)\<rparr>, drop n bs))"
  using assms
  by (auto simp: deserialize_system_command_def slice_read_exact_def Let_def drop_take min_def
      add.commute)

lemma deserialize_slice_cases:
  assumes "8 \<le> length bs" and "frame_length (bs ! 7) = Some n"
  shows "length bs < n \<Longrightarrow> deserialize_register_command U slice_read_exact bs = Inl UnexpectedEof"
    and "n \<le> length bs \<Longrightarrow> \<exists>cmd. deserialize_register_command U slice_read_exact bs = Inr (cmd, drop n bs) \<and>
      command_ok cmd \<and> command_msg_type cmd = bs ! 7"
  using assms
  by (auto simp: deserialize_register_command_def slice_read_exact_def [of bs 8] frame_length_def Let_def
      deserialize_client_slice deserialize_system_slice sector_ok_def add.commute split: if_splits)

lemma deserialize_slice_unknown:
  "8 \<le> length bs \<Longrightarrow> frame_length (bs ! 7) = None \<Longrightarrow>
     deserialize_register_command U slice_read_exact bs = Inl OtherError"
  by (auto simp: deserialize_register_command_def slice_read_exact_def [of bs 8] frame_length_def Let_def
      deserialize_system_command_def split: if_splits)

section \<open>Properties\<close>

text \<open>
  C7. Round trip: whatever a writer holds, serializing a well-formed command appends bytes from which
  deserializing recovers exactly that command and leaves exactly what followed.
\<close>

theorem serialize_deserialize_roundtrip:
  assumes "uuid_laws U" and "command_ok cmd"
  shows "\<exists>bs. serialize_register_command U vec_write_all cmd w = Inr (w @ bs) \<and>
    deserialize_register_command U slice_read_exact (bs @ rest) = Inr (cmd, rest)"
  using deserialize_command_bytes [OF assms] by auto

theorem serialize_deserialize_roundtrip_witness:
  "\<exists>bs. serialize_register_command u128_uuid vec_write_all
       (System \<lparr>s_header = SystemCommandHeader_new 3 5 9 2, s_content = Value 4 1 SectorVec_new\<rparr>) [] = Inr ([] @ bs) \<and>
     deserialize_register_command u128_uuid slice_read_exact (bs @ [0xff]) =
       Inr (System \<lparr>s_header = SystemCommandHeader_new 3 5 9 2, s_content = Value 4 1 SectorVec_new\<rparr>, [0xff])"
  by (rule serialize_deserialize_roundtrip) simp_all



text \<open>
  C19. Decoding is total and its outcome is determined by the type byte and the length alone: an
  unknown type is refused, a known type on too short an input runs into the end of the input, and
  otherwise exactly the frame of that type is consumed and the result is a well-formed command of
  that type. In particular every decoded sector is 4096 bytes long.
\<close>

theorem deserialize_outcome:
  "if length bs < 8 then deserialize_register_command U slice_read_exact bs = Inl UnexpectedEof
   else case frame_length (bs ! 7) of
     None \<Rightarrow> deserialize_register_command U slice_read_exact bs = Inl OtherError
   | Some n \<Rightarrow>
       if length bs < n then deserialize_register_command U slice_read_exact bs = Inl UnexpectedEof
       else \<exists>cmd. deserialize_register_command U slice_read_exact bs = Inr (cmd, drop n bs) \<and>
              command_ok cmd \<and> command_msg_type cmd = bs ! 7"
proof (cases "length bs < 8")
  case True
  then show ?thesis by (simp add: deserialize_register_command_def slice_read_exact_def)
next
  case False
  then show ?thesis
    using deserialize_slice_unknown [of bs U] deserialize_slice_cases [of bs _ U]
    by (auto split: option.split)
qed



end
