(* ===== verification/Register_Client.thy ===== *)
theory Register_Client
  imports Wire_Format
begin

text \<open>
  The register client: \<^verbatim>\<open>solution/src/register_client.rs\<close>. It passes a message for its own process to the
  internal channel and writes one for another process to that process's TCP connection; a message it
  cannot write is kept in the \<^verbatim>\<open>PendingCommandsManager\<close> and replayed when the connection is back.
  A connection is the bytes written to it so far; whether a write fails, and after how many bytes, is up
  to the network, which is part of the state. \<^verbatim>\<open>hmac\<close> is a parameter: what the program relies on is the
  length of its tags. \<open>None\<close> is a panic.
\<close>

section \<open>Parameters\<close>

record hmac_crate =
  hmac_tag :: "bytes \<Rightarrow> bytes \<Rightarrow> bytes"

definition hmac_laws :: "hmac_crate \<Rightarrow> bool" where
  "hmac_laws H \<longleftrightarrow> (\<forall>key msg. length (hmac_tag H key msg) = 32)"

text \<open>The fate of the writes to come: \<open>Some (e, n)\<close> for one that fails with \<open>e\<close> after \<open>n\<close> bytes.\<close>

record net =
  faults :: "nat \<Rightarrow> (io_error \<times> nat) option"
  ticks :: nat

definition tcp_write_all :: "bytes \<Rightarrow> bytes \<Rightarrow> net \<Rightarrow> unit io \<times> bytes \<times> net" where
  "tcp_write_all stream data nt =
     (let nt' = nt\<lparr>ticks := Suc (ticks nt)\<rparr> in
      case faults nt (ticks nt) of
        None \<Rightarrow> (Inr (), stream @ data, nt')
      | Some (e, n) \<Rightarrow> (Inl e, stream @ take n data, nt'))"

section \<open>State\<close>

record 'u PendingCommandsManager =
  pending_cmds :: "'u \<rightharpoonup> 'u SystemRegisterCommand"

definition PendingCommandsManager_new :: "'u PendingCommandsManager" where
  "PendingCommandsManager_new = \<lparr>pending_cmds = Map.empty\<rparr>"

definition add_pending_cmd :: "'u SystemRegisterCommand \<Rightarrow> 'u PendingCommandsManager \<Rightarrow> 'u PendingCommandsManager" where
  "add_pending_cmd cmd pm = pm\<lparr>pending_cmds := (pending_cmds pm)(msg_ident (s_header cmd) \<mapsto> cmd)\<rparr>"

definition remove_pending_cmd :: "'u \<Rightarrow> 'u PendingCommandsManager \<Rightarrow> 'u PendingCommandsManager" where
  "remove_pending_cmd ident pm = pm\<lparr>pending_cmds := (pending_cmds pm)(ident := None)\<rparr>"

record 'u RegisterClientImplementation =
  rc_self_ident :: u8
  rc_hmac_system_key :: bytes
  tcp_streams :: "bytes option list"
  tcp_addresses :: "(string \<times> 16 word) list"
  self_sender :: "'u SystemRegisterCommand list"
  pending_cmds_manager :: "'u PendingCommandsManager"

definition RegisterClientImplementation_new ::
    "u8 \<Rightarrow> bytes \<Rightarrow> (string \<times> 16 word) list \<Rightarrow> 'u PendingCommandsManager \<Rightarrow> 'u RegisterClientImplementation" where
  "RegisterClientImplementation_new ident key addresses pm =
     \<lparr>rc_self_ident = ident, rc_hmac_system_key = key, tcp_streams = replicate (length addresses) None,
      tcp_addresses = addresses, self_sender = [], pending_cmds_manager = pm\<rparr>"

section \<open>Sending\<close>

definition send_stream ::
    "'u uuid_crate \<Rightarrow> hmac_crate \<Rightarrow> bytes \<Rightarrow> bytes \<Rightarrow> 'u SystemRegisterCommand \<Rightarrow> net \<Rightarrow> unit io \<times> bytes \<times> net" where
  "send_stream U H key stream cmd nt =
     (case serialize_register_command U vec_write_all (System cmd) [] of
        Inl e \<Rightarrow> (Inl e, stream, nt)
      | Inr data \<Rightarrow> tcp_write_all stream (data @ hmac_tag H key data) nt)"

text \<open>
  \<^verbatim>\<open>send\<close>; a target of \<open>0\<close> underflows and a target above the number of processes is out of range.
\<close>

definition send ::
    "'u uuid_crate \<Rightarrow> hmac_crate \<Rightarrow> 'u SystemRegisterCommand \<Rightarrow> nat \<Rightarrow> 'u RegisterClientImplementation \<times> net
     \<Rightarrow> ('u RegisterClientImplementation \<times> net) option" where
  "send U H cmd target rn =
     (let (rc, nt) = rn in
      if target = unat (rc_self_ident rc) then Some (rc\<lparr>self_sender := self_sender rc @ [cmd]\<rparr>, nt)
      else if target = 0 \<or> length (tcp_streams rc) < target then None
      else
        (case tcp_streams rc ! (target - 1) of
           Some tcp_stream \<Rightarrow>
             (case send_stream U H (rc_hmac_system_key rc) tcp_stream cmd nt of
                (Inr _, tcp_stream, nt) \<Rightarrow>
                  Some (rc\<lparr>tcp_streams := (tcp_streams rc)[target - 1 := Some tcp_stream]\<rparr>, nt)
              | (Inl _, _, nt) \<Rightarrow>
                  Some (rc\<lparr>tcp_streams := (tcp_streams rc)[target - 1 := None],
                           pending_cmds_manager := add_pending_cmd cmd (pending_cmds_manager rc)\<rparr>, nt))
         | None \<Rightarrow>
             Some (rc\<lparr>pending_cmds_manager := add_pending_cmd cmd (pending_cmds_manager rc)\<rparr>, nt)))"

fun send_all ::
    "'u uuid_crate \<Rightarrow> hmac_crate \<Rightarrow> 'u SystemRegisterCommand \<Rightarrow> nat list \<Rightarrow> 'u RegisterClientImplementation \<times> net
     \<Rightarrow> ('u RegisterClientImplementation \<times> net) option" where
  "send_all U H cmd [] rn = Some rn"
| "send_all U H cmd (t # ts) rn = (case send U H cmd t rn of None \<Rightarrow> None | Some rn \<Rightarrow> send_all U H cmd ts rn)"

definition broadcast ::
    "'u uuid_crate \<Rightarrow> hmac_crate \<Rightarrow> 'u SystemRegisterCommand \<Rightarrow> 'u RegisterClientImplementation \<times> net
     \<Rightarrow> ('u RegisterClientImplementation \<times> net) option" where
  "broadcast U H cmd rn = send_all U H cmd (map Suc [0..<length (tcp_addresses (fst rn))]) rn"

section \<open>Reconnecting\<close>

text \<open>The loop over the pending commands: the connection, the network and \<^verbatim>\<open>error_counter\<close> afterwards.\<close>

fun replay ::
    "'u uuid_crate \<Rightarrow> hmac_crate \<Rightarrow> bytes \<Rightarrow> 'u SystemRegisterCommand list \<Rightarrow> bytes \<Rightarrow> net \<Rightarrow> nat \<Rightarrow> bytes \<times> net \<times> nat" where
  "replay U H key [] stream nt errs = (stream, nt, errs)"
| "replay U H key (cmd # cmds) stream nt errs =
     (case send_stream U H key stream cmd nt of
        (Inl _, stream, nt) \<Rightarrow> replay U H key cmds stream nt (Suc errs)
      | (Inr _, stream, nt) \<Rightarrow> replay U H key cmds stream nt errs)"

text \<open>
  One turn of \<^verbatim>\<open>monitor_connections\<close>: \<open>connects\<close> says whether a connection attempt succeeds in time, \<open>order\<close>
  is the hash order of the pending commands. The process itself is skipped.
\<close>

definition monitor_target ::
    "'u uuid_crate \<Rightarrow> hmac_crate \<Rightarrow> (nat \<Rightarrow> bool) \<Rightarrow> 'u list \<Rightarrow> nat \<Rightarrow> 'u RegisterClientImplementation \<times> net
     \<Rightarrow> 'u RegisterClientImplementation \<times> net" where
  "monitor_target U H connects order target rn =
     (let (rc, nt) = rn in
      if (of_nat target :: u8) = rc_self_ident rc - 1 then (rc, nt)
      else if tcp_streams rc ! target = None \<and> connects target then
        (let cmds = map snd (hash_iter order (pending_cmds (pending_cmds_manager rc)));
             (tcp_stream, nt, error_counter) = replay U H (rc_hmac_system_key rc) cmds [] nt 0
         in (if error_counter = 0 then rc\<lparr>tcp_streams := (tcp_streams rc)[target := Some tcp_stream]\<rparr> else rc, nt))
      else (rc, nt))"

definition monitor_connections ::
    "'u uuid_crate \<Rightarrow> hmac_crate \<Rightarrow> (nat \<Rightarrow> bool) \<Rightarrow> 'u list \<Rightarrow> 'u RegisterClientImplementation \<times> net
     \<Rightarrow> 'u RegisterClientImplementation \<times> net" where
  "monitor_connections U H connects order rn =
     fold (monitor_target U H connects order) [0..<length (tcp_streams (fst rn))] rn"

section \<open>Contract of the link\<close>

text \<open>
  What \<^verbatim>\<open>RegisterClient\<close> promises the registers: a message to one of \<open>n\<close> processes is accounted for, and a
  send does not spoil what the same message has reached already.
\<close>

locale register_link =
  fixes op_send :: "'m \<Rightarrow> nat \<Rightarrow> 's \<Rightarrow> 's option"
    and op_inv :: "'s \<Rightarrow> bool"
    and procs :: nat
    and accounted :: "'m \<Rightarrow> nat \<Rightarrow> 's \<Rightarrow> bool"
  assumes send_accounted: "op_inv s \<Longrightarrow> 1 \<le> t \<Longrightarrow> t \<le> procs \<Longrightarrow>
      \<exists>s'. op_send msg t s = Some s' \<and> op_inv s' \<and> accounted msg t s' \<and>
        (\<forall>t'. 1 \<le> t' \<longrightarrow> t' \<noteq> t \<longrightarrow> accounted msg t' s \<longrightarrow> accounted msg t' s')"
begin

fun op_send_all :: "'m \<Rightarrow> nat list \<Rightarrow> 's \<Rightarrow> 's option" where
  "op_send_all msg [] s = Some s"
| "op_send_all msg (t # ts) s = (case op_send msg t s of None \<Rightarrow> None | Some s \<Rightarrow> op_send_all msg ts s)"

lemma send_all_accounted:
  assumes "op_inv s" and "\<forall>t \<in> set ts. 1 \<le> t \<and> t \<le> procs" and "\<forall>t \<in> D. 1 \<le> t \<and> accounted msg t s"
  shows "\<exists>s'. op_send_all msg ts s = Some s' \<and> op_inv s' \<and> (\<forall>t \<in> D \<union> set ts. accounted msg t s')"
  using assms
proof (induction ts arbitrary: s D)
  case Nil
  then show ?case by simp
next
  case (Cons t ts)
  from Cons.prems(2) have "1 \<le> t" "t \<le> procs" by simp_all
  with Cons.prems(1) obtain s1 where s1: "op_send msg t s = Some s1" "op_inv s1" "accounted msg t s1"
    "\<forall>t'. 1 \<le> t' \<longrightarrow> t' \<noteq> t \<longrightarrow> accounted msg t' s \<longrightarrow> accounted msg t' s1"
    using send_accounted by blast
  then have "\<forall>t' \<in> insert t D. 1 \<le> t' \<and> accounted msg t' s1"
    using Cons.prems(3) \<open>1 \<le> t\<close> by auto
  from Cons.IH [OF s1(2) _ this] Cons.prems(2) s1(1) show ?case by auto
qed

end

section \<open>Lemmas\<close>

text \<open>What one command looks like on a connection.\<close>

definition frame :: "'u uuid_crate \<Rightarrow> hmac_crate \<Rightarrow> bytes \<Rightarrow> 'u SystemRegisterCommand \<Rightarrow> bytes" where
  "frame U H key cmd = command_bytes U (System cmd) @ hmac_tag H key (command_bytes U (System cmd))"

lemma send_stream_frame: "send_stream U H key stream cmd nt = tcp_write_all stream (frame U H key cmd) nt"
  by (simp add: send_stream_def frame_def)

text \<open>The shape of a client among \<open>n\<close> processes.\<close>

definition client_ok :: "nat \<Rightarrow> u8 \<Rightarrow> bytes \<Rightarrow> 'u RegisterClientImplementation \<times> net \<Rightarrow> bool" where
  "client_ok n ident key rn \<longleftrightarrow> length (tcp_streams (fst rn)) = n \<and> length (tcp_addresses (fst rn)) = n \<and>
     rc_self_ident (fst rn) = ident \<and> rc_hmac_system_key (fst rn) = key"

text \<open>
  A message for process \<open>t\<close> is accounted for: in the internal channel, or the last thing written to the
  connection, or pending while there is no connection.
\<close>

definition accounted_for ::
    "'u uuid_crate \<Rightarrow> hmac_crate \<Rightarrow> u8 \<Rightarrow> bytes \<Rightarrow> 'u SystemRegisterCommand \<Rightarrow> nat \<Rightarrow> 'u RegisterClientImplementation \<times> net \<Rightarrow> bool" where
  "accounted_for U H ident key cmd t rn \<longleftrightarrow>
     (if t = unat ident then cmd \<in> set (self_sender (fst rn))
      else case tcp_streams (fst rn) ! (t - 1) of
          Some bs \<Rightarrow> \<exists>pre. bs = pre @ frame U H key cmd
        | None \<Rightarrow> pending_cmds (pending_cmds_manager (fst rn)) (msg_ident (s_header cmd)) = Some cmd)"

lemma accounted_for_other:
  assumes "accounted_for U H ident key cmd t' (rc, nt)" and "1 \<le> t'" and "1 \<le> t" and "t' \<noteq> t"
    and "tcp_streams rc' = (tcp_streams rc)[t - 1 := x]" and "set (self_sender rc) \<subseteq> set (self_sender rc')"
    and "pending_cmds (pending_cmds_manager rc') (msg_ident (s_header cmd)) \<in>
      {pending_cmds (pending_cmds_manager rc) (msg_ident (s_header cmd)), Some cmd}"
  shows "accounted_for U H ident key cmd t' (rc', nt')"
proof -
  have "tcp_streams rc' ! (t' - 1) = tcp_streams rc ! (t' - 1)"
    using assms(2-5) by (simp add: nth_list_update_neq)
  with assms(1,6,7) show ?thesis
    by (auto simp: accounted_for_def split: option.split if_splits)
qed

lemma send_cases:
  assumes "client_ok n ident key (rc, nt)" and "1 \<le> t" and "t \<le> n"
  obtains (self) "t = unat ident" and "send U H cmd t (rc, nt) = Some (rc\<lparr>self_sender := self_sender rc @ [cmd]\<rparr>, nt)"
  | (written) bs nt' where "t \<noteq> unat ident" and "tcp_streams rc ! (t - 1) = Some bs"
      and "send U H cmd t (rc, nt) = Some (rc\<lparr>tcp_streams := (tcp_streams rc)[t - 1 := Some (bs @ frame U H key cmd)]\<rparr>, nt')"
  | (kept) nt' where "t \<noteq> unat ident" and "send U H cmd t (rc, nt) = Some (rc\<lparr>tcp_streams := (tcp_streams rc)[t - 1 := None],
        pending_cmds_manager := add_pending_cmd cmd (pending_cmds_manager rc)\<rparr>, nt')"
proof -
  have idx: "\<not> length (tcp_streams rc) < t" "t \<noteq> 0" "rc_self_ident rc = ident" "rc_hmac_system_key rc = key"
    using assms by (auto simp: client_ok_def)
  show thesis
  proof (cases "t = unat ident")
    case True
    with idx show thesis by (intro self) (simp_all add: send_def)
  next
    case False
    show thesis
    proof (cases "tcp_streams rc ! (t - 1)")
      case None
      have "(tcp_streams rc)[t - 1 := None] = tcp_streams rc" using None by (metis list_update_id)
      with None False idx show thesis by (intro kept [of nt]) (simp_all add: send_def)
    next
      case (Some bs)
      show thesis
      proof (cases "faults nt (ticks nt)")
        case None
        with Some False idx show thesis
          by (intro written [of bs "nt\<lparr>ticks := Suc (ticks nt)\<rparr>"])
            (simp_all add: send_def send_stream_frame tcp_write_all_def)
      next
        case (Some f)
        with \<open>tcp_streams rc ! (t - 1) = Some bs\<close> False idx show thesis
          by (intro kept [of "nt\<lparr>ticks := Suc (ticks nt)\<rparr>"])
            (simp_all add: send_def send_stream_frame tcp_write_all_def split_beta)
      qed
    qed
  qed
qed

lemma send_accounted_for:
  assumes ok: "client_ok n ident key rn" and t: "1 \<le> t" "t \<le> n"
  shows "\<exists>rn'. send U H cmd t rn = Some rn' \<and> client_ok n ident key rn' \<and> accounted_for U H ident key cmd t rn' \<and>
    (\<forall>t'. 1 \<le> t' \<longrightarrow> t' \<noteq> t \<longrightarrow> accounted_for U H ident key cmd t' rn \<longrightarrow> accounted_for U H ident key cmd t' rn')"
proof -
  obtain rc nt where rn: "rn = (rc, nt)" by (cases rn)
  have idx: "t - 1 < length (tcp_streams rc)" using ok t rn by (auto simp: client_ok_def)
  have keep: "accounted_for U H ident key cmd t' (rc', nt')"
    if "accounted_for U H ident key cmd t' (rc, nt)" "1 \<le> t'" "t' \<noteq> t"
      "tcp_streams rc' = (tcp_streams rc)[t - 1 := x]" "set (self_sender rc) \<subseteq> set (self_sender rc')"
      "pending_cmds (pending_cmds_manager rc') (msg_ident (s_header cmd)) \<in>
         {pending_cmds (pending_cmds_manager rc) (msg_ident (s_header cmd)), Some cmd}" for t' rc' nt' x
    using accounted_for_other [OF that(1,2) t(1) that(3-6)] .
  have settle: ?thesis
    if "send U H cmd t (rc, nt) = Some (rc', nt')" "client_ok n ident key (rc', nt')"
      "accounted_for U H ident key cmd t (rc', nt')" "tcp_streams rc' = (tcp_streams rc)[t - 1 := x]"
      "set (self_sender rc) \<subseteq> set (self_sender rc')"
      "pending_cmds (pending_cmds_manager rc') (msg_ident (s_header cmd)) \<in>
         {pending_cmds (pending_cmds_manager rc) (msg_ident (s_header cmd)), Some cmd}" for rc' nt' x
    using that(1-3) keep [OF _ _ _ that(4-6)] rn by (intro exI [of _ "(rc', nt')"]) blast
  from ok [unfolded rn] t show ?thesis
  proof (cases rule: send_cases [where U = U and H = H and cmd = cmd])
    case self
    from self(1) ok rn show ?thesis
      by (intro settle [OF self(2), where x = "tcp_streams rc ! (t - 1)"]) (auto simp: client_ok_def accounted_for_def)
  next
    case (written bs nt')
    from written(1) ok rn idx show ?thesis
      by (intro settle [OF written(3)]) (auto simp: client_ok_def accounted_for_def)
  next
    case (kept nt')
    from kept(1) ok rn idx show ?thesis
      by (intro settle [OF kept(2)]) (auto simp: client_ok_def accounted_for_def add_pending_cmd_def)
  qed
qed

interpretation link: register_link "send U H" "client_ok n ident key" n "accounted_for U H ident key"
  for U :: "'u uuid_crate" and H n ident key
  by unfold_locales (rule send_accounted_for)

lemma send_all_eq: "register_link.op_send_all (send U H) cmd ts rn = send_all U H cmd ts rn"
  by (induction ts arbitrary: rn) (simp_all add: link.op_send_all.simps split: option.split)

section \<open>Properties\<close>

text \<open>
  C27. A broadcast never panics and loses nothing by itself: for every process of the system, the process
  itself included, the command is in the internal channel, or its complete frame is the last thing
  written to the process's connection, or there is no connection and the command is pending.
\<close>

theorem broadcast_accounts_for_every_process:
  assumes "length (tcp_streams rc) = n" and "length (tcp_addresses rc) = n"
  shows "\<exists>rc' nt'. broadcast U H cmd (rc, nt) = Some (rc', nt') \<and>
    (\<forall>t \<in> {1..n}. accounted_for U H (rc_self_ident rc) (rc_hmac_system_key rc) cmd t (rc', nt'))"
proof -
  have ok: "client_ok n (rc_self_ident rc) (rc_hmac_system_key rc) (rc, nt)"
    using assms by (simp add: client_ok_def)
  from link.send_all_accounted [OF ok, where ts = "map Suc [0..<n]" and D = "{}" and msg = cmd and U = U and H = H] obtain rn' where
    "send_all U H cmd (map Suc [0..<n]) (rc, nt) = Some rn'"
    "\<forall>t \<in> set (map Suc [0..<n]). accounted_for U H (rc_self_ident rc) (rc_hmac_system_key rc) cmd t rn'"
    by (auto simp: send_all_eq)
  moreover have "set (map Suc [0..<n]) = {1..n}"
    by (auto simp: image_iff)
  ultimately show ?thesis
    using assms by (cases rn') (auto simp: broadcast_def)
qed

definition zero_hmac :: hmac_crate where
  "zero_hmac = \<lparr>hmac_tag = (\<lambda>key msg. replicate 32 (foldr (+) (key @ msg) 0))\<rparr>"

abbreviation demo_ack :: "u128 SystemRegisterCommand" where
  "demo_ack \<equiv> \<lparr>s_header = SystemCommandHeader_new 1 9 1 7, s_content = Ack\<rparr>"

abbreviation demo_client :: "u128 RegisterClientImplementation" where
  "demo_client \<equiv> RegisterClientImplementation_new 1 [1] [(''a'', 1), (''b'', 2), (''c'', 3)] PendingCommandsManager_new"

theorem broadcast_accounts_for_every_process_witness:
  "\<exists>rc' nt'. broadcast u128_uuid zero_hmac demo_ack (demo_client, \<lparr>faults = (\<lambda>_. None), ticks = 0\<rparr>) = Some (rc', nt') \<and>
    (\<forall>t \<in> {1..3}. accounted_for u128_uuid zero_hmac 1 [1] demo_ack t (rc', nt'))"
  using broadcast_accounts_for_every_process [of demo_client 3 u128_uuid zero_hmac demo_ack "\<lparr>faults = (\<lambda>_. None), ticks = 0\<rparr>"]
  by (simp add: RegisterClientImplementation_new_def)

section \<open>Reconnection\<close>

definition calm_net :: "net \<Rightarrow> bool" where
  "calm_net nt \<longleftrightarrow> (\<forall>i. faults nt i = None)"

lemma replay_calm:
  "calm_net nt \<Longrightarrow> \<exists>nt'. replay U H key cmds stream nt errs = (stream @ concat (map (frame U H key) cmds), nt', errs) \<and> calm_net nt'"
proof (induction cmds arbitrary: stream nt)
  case (Cons c cmds)
  then have "calm_net (nt\<lparr>ticks := Suc (ticks nt)\<rparr>)" by (simp add: calm_net_def)
  from Cons.IH [OF this, of "stream @ frame U H key c"] Cons.prems show ?case
    by (simp add: send_stream_frame tcp_write_all_def calm_net_def)
qed simp

text \<open>The connections after a turn over calm network: what was up stays, what was down carries the pending commands.\<close>

definition restored :: "bytes option \<Rightarrow> bytes \<Rightarrow> bytes option" where
  "restored old pending_bytes = (case old of None \<Rightarrow> Some pending_bytes | Some bs \<Rightarrow> Some bs)"

lemma monitor_target_calm:
  assumes "calm_net nt" and "connects j" and "(of_nat j :: u8) \<noteq> rc_self_ident rc - 1"
  shows "\<exists>nt'. monitor_target U H connects order j (rc, nt) = (rc\<lparr>tcp_streams := (tcp_streams rc)[j :=
      restored (tcp_streams rc ! j) (concat (map (frame U H (rc_hmac_system_key rc))
        (map snd (hash_iter order (pending_cmds (pending_cmds_manager rc))))))]\<rparr>, nt') \<and> calm_net nt'"
proof (cases "tcp_streams rc ! j")
  case None
  from replay_calm [OF assms(1), of U H "rc_hmac_system_key rc"
      "map snd (hash_iter order (pending_cmds (pending_cmds_manager rc)))" "[]" 0] None assms(2,3)
  show ?thesis by (auto simp: monitor_target_def restored_def)
next
  case (Some bs)
  with assms show ?thesis
    by (auto simp: monitor_target_def restored_def list_update_id [of "tcp_streams rc" j, simplified Some])
qed

lemma monitor_fold_calm:
  assumes "calm_net nt" and "\<forall>j \<in> set js. connects j \<and> j < length (tcp_streams rc)" and "distinct js"
  shows "\<exists>ss nt'. fold (monitor_target U H connects order) js (rc, nt) = (rc\<lparr>tcp_streams := ss\<rparr>, nt') \<and>
    length ss = length (tcp_streams rc) \<and>
    (\<forall>j < length ss. ss ! j = (if j \<in> set js \<and> (of_nat j :: u8) \<noteq> rc_self_ident rc - 1
       then restored (tcp_streams rc ! j) (concat (map (frame U H (rc_hmac_system_key rc))
         (map snd (hash_iter order (pending_cmds (pending_cmds_manager rc))))))
       else tcp_streams rc ! j))"
  using assms
proof (induction js arbitrary: rc nt)
  case Nil
  show ?case by (intro exI [of _ "tcp_streams rc"] exI [of _ nt]) simp
next
  case (Cons j js)
  show ?case
  proof (cases "(of_nat j :: u8) = rc_self_ident rc - 1")
    case True
    then have "monitor_target U H connects order j (rc, nt) = (rc, nt)" by (simp add: monitor_target_def)
    moreover obtain ss nt' where "fold (monitor_target U H connects order) js (rc, nt) = (rc\<lparr>tcp_streams := ss\<rparr>, nt')"
      "length ss = length (tcp_streams rc)"
      "\<forall>j < length ss. ss ! j = (if j \<in> set js \<and> (of_nat j :: u8) \<noteq> rc_self_ident rc - 1
         then restored (tcp_streams rc ! j) (concat (map (frame U H (rc_hmac_system_key rc))
           (map snd (hash_iter order (pending_cmds (pending_cmds_manager rc))))))
         else tcp_streams rc ! j)"
      using Cons.IH [OF Cons.prems(1), of rc] Cons.prems(2,3) by auto
    ultimately show ?thesis using True by (intro exI [of _ ss] exI [of _ nt']) auto
  next
    case False
    let ?P = "concat (map (frame U H (rc_hmac_system_key rc)) (map snd (hash_iter order (pending_cmds (pending_cmds_manager rc)))))"
    let ?rc = "rc\<lparr>tcp_streams := (tcp_streams rc)[j := restored (tcp_streams rc ! j) ?P]\<rparr>"
    obtain nt1 where m: "monitor_target U H connects order j (rc, nt) = (?rc, nt1)" "calm_net nt1"
      using monitor_target_calm [OF Cons.prems(1) _ False, of connects U H order] Cons.prems(2) by auto
    obtain ss nt' where "fold (monitor_target U H connects order) js (?rc, nt1) = (?rc\<lparr>tcp_streams := ss\<rparr>, nt')"
      "length ss = length (tcp_streams ?rc)"
      "\<forall>i < length ss. ss ! i = (if i \<in> set js \<and> (of_nat i :: u8) \<noteq> rc_self_ident ?rc - 1
         then restored (tcp_streams ?rc ! i) (concat (map (frame U H (rc_hmac_system_key ?rc))
           (map snd (hash_iter order (pending_cmds (pending_cmds_manager ?rc))))))
         else tcp_streams ?rc ! i)"
      using Cons.IH [OF m(2), of ?rc] Cons.prems(2,3) by auto
    with m(1) False Cons.prems(2,3) show ?thesis
      by (intro exI [of _ ss] exI [of _ nt']) (auto simp: nth_list_update)
  qed
qed

lemma self_index:
  assumes "n \<le> 256" and "j < n" and "0 < unat (ident :: u8)" and "Suc j \<noteq> unat ident"
  shows "(of_nat j :: u8) \<noteq> ident - 1"
proof
  assume "(of_nat j :: u8) = ident - 1"
  then have "unat (of_nat j :: u8) = unat (ident - 1)" by simp
  moreover have "unat (of_nat j :: u8) = j" using assms(1,2) by (simp add: unat_of_nat)
  moreover have "unat (ident - 1) = unat ident - 1"
    using assms(3) by (intro unat_minus_one) auto
  ultimately show False using assms(3,4) by simp
qed

lemma hash_iter_mem: "k \<in> set order \<Longrightarrow> m k = Some v \<Longrightarrow> v \<in> snd ` set (hash_iter order m)"
  by (force simp: set_hash_iter image_iff)

lemma concat_mem: "x \<in> set xs \<Longrightarrow> \<exists>pre post. concat (map f xs) = pre @ f x @ post"
  by (metis append.assoc concat.simps(2) concat_append in_set_conv_decomp list.simps(9) map_append)



end
