(* ===== verification/Connection.thy ===== *)
theory Connection
  imports Register_Client
begin

text \<open>
  The handling of incoming connections, the first part of \<^verbatim>\<open>solution/src/run_register_process.rs\<close>: finding
  the start of a message, reading it, checking its tag, decoding it, and responding. The read half of a
  connection is the list of what its reads will find: chunks of bytes as they arrive, and read errors;
  its end is the end of the stream. What a request makes the process do is returned as a list of effects,
  in order.
\<close>

section \<open>TCP streams\<close>

datatype chunk = Bytes bytes | Failure io_error

text \<open>\<^verbatim>\<open>read\<close> returns what is there, at most \<open>n\<close> bytes; \<^verbatim>\<open>read_exact\<close> waits for \<open>n\<close> bytes.\<close>

fun tcp_read :: "nat \<Rightarrow> chunk list \<Rightarrow> bytes io \<times> chunk list" where
  "tcp_read n [] = (Inr [], [])"
| "tcp_read n (Failure e # s) = (Inl e, s)"
| "tcp_read n (Bytes bs # s) =
     (if bs = [] then tcp_read n s
      else (Inr (take n bs), if length bs \<le> n then s else Bytes (drop n bs) # s))"

fun tcp_read_exact :: "nat \<Rightarrow> chunk list \<Rightarrow> bytes io \<times> chunk list" where
  "tcp_read_exact n [] = (if n = 0 then (Inr [], []) else (Inl UnexpectedEof, []))"
| "tcp_read_exact n (Failure e # s) = (if n = 0 then (Inr [], Failure e # s) else (Inl e, s))"
| "tcp_read_exact n (Bytes bs # s) =
     (if n = 0 then (Inr [], Bytes bs # s)
      else if length bs \<le> n then
        (let (r, s') = tcp_read_exact (n - length bs) s in (map_sum id (append bs) r, s'))
      else (Inr (take n bs), Bytes (drop n bs) # s))"

text \<open>\<^verbatim>\<open>peek\<close> into a buffer of one byte.\<close>

fun tcp_peek :: "chunk list \<Rightarrow> nat io \<times> chunk list" where
  "tcp_peek [] = (Inr 0, [])"
| "tcp_peek (Failure e # s) = (Inl e, s)"
| "tcp_peek (Bytes bs # s) = (if bs = [] then tcp_peek s else (Inr 1, Bytes bs # s))"

fun stream_size :: "chunk list \<Rightarrow> nat" where
  "stream_size [] = 0"
| "stream_size (Failure e # s) = Suc (stream_size s)"
| "stream_size (Bytes bs # s) = length bs + Suc (stream_size s)"

section \<open>get_magic_number\<close>

text \<open>The inner loop over the four positions.\<close>

fun magic_check :: "nat list \<Rightarrow> bytes \<Rightarrow> bool" where
  "magic_check [] current_numbers = False"
| "magic_check (i # is) current_numbers =
     (if current_numbers ! i = MAGIC_NUMBER ! i
      then if i = 3 then True else magic_check is current_numbers
      else False)"

lemma tcp_read_exact_size: "stream_size (snd (tcp_read_exact n s)) \<le> stream_size s"
  by (induction n s rule: tcp_read_exact.induct) (auto simp: Let_def split_beta)

lemma tcp_read_exact_size_less:
  "tcp_read_exact n s = (Inr bs, s') \<Longrightarrow> 0 < n \<Longrightarrow> stream_size s' < stream_size s"
  by (cases "(n, s)" rule: tcp_read_exact.cases)
    (use tcp_read_exact_size in \<open>auto simp: Let_def split_beta split: if_splits intro: le_imp_less_Suc trans_le_add2\<close>)

text \<open>The outer loop, with the last four bytes read; it ends because every turn reads a byte.\<close>

function magic_loop :: "bytes \<Rightarrow> chunk list \<Rightarrow> unit io \<times> chunk list" where
  "magic_loop current_numbers s =
     (if magic_check [0..<4] current_numbers then (Inr (), s)
      else case tcp_read_exact 1 s of
          (Inl e, s) \<Rightarrow> (Inl e, s)
        | (Inr buffer, s) \<Rightarrow>
            magic_loop [current_numbers ! 1, current_numbers ! 2, current_numbers ! 3, buffer ! 0] s)"
  by pat_completeness auto

termination
  by (relation "measure (stream_size \<circ> snd)") (auto intro: tcp_read_exact_size_less [OF sym, where n = "Suc 0"])

declare magic_loop.simps [simp del]

definition get_magic_number :: "chunk list \<Rightarrow> unit io \<times> chunk list" where
  "get_magic_number data =
     (case tcp_read_exact 4 data of
        (Inl e, data) \<Rightarrow> (Inl e, data)
      | (Inr current_numbers, data) \<Rightarrow> magic_loop current_numbers data)"

section \<open>Requests\<close>

text \<open>
  What handling a request does to the rest of the process: a call of \<^verbatim>\<open>execute_system_command\<close>, a call of
  \<^verbatim>\<open>execute_client_command\<close> with a callback that responds on this connection (with the type byte of the
  request), and a call of \<^verbatim>\<open>finish_client_command\<close>.
\<close>

datatype 'u request_effect =
    RunSystem "'u SystemRegisterCommand"
  | RunClient ClientRegisterCommand u8
  | FinishClient u64

text \<open>The write half of a connection: the bytes written to it, and the network.\<close>

type_synonym writer = "bytes \<times> net"

definition respond ::
    "hmac_crate \<Rightarrow> bytes \<Rightarrow> OperationComplete \<Rightarrow> u8 \<Rightarrow> writer \<Rightarrow> unit io \<times> writer \<times> 'u request_effect list" where
  "respond H client_key op_complete msg_type w =
     (let msg = serialize_response op_complete msg_type;
          msg = msg @ hmac_tag H client_key msg
      in case tcp_write_all (fst w) msg (snd w) of
           (Inl e, w) \<Rightarrow> (Inl e, w, [])
         | (Inr _, w) \<Rightarrow> (Inr (), w, [FinishClient (op_request_identifier op_complete)]))"

definition respond_err ::
    "hmac_crate \<Rightarrow> bytes \<Rightarrow> StatusCode \<Rightarrow> u64 \<Rightarrow> u8 \<Rightarrow> writer \<Rightarrow> unit io \<times> writer \<times> 'u request_effect list" where
  "respond_err H client_key code rid msg_type w =
     respond H client_key \<lparr>status_code = code, op_request_identifier = rid, op_return = WriteReturn\<rparr> msg_type w"

text \<open>The task that the callback of a client command spawns.\<close>

definition complete_request ::
    "'u uuid_crate \<Rightarrow> hmac_crate \<Rightarrow> bytes \<Rightarrow> u8 \<Rightarrow> OperationComplete \<Rightarrow> 'u PendingCommandsManager \<Rightarrow> writer
     \<Rightarrow> 'u PendingCommandsManager \<times> writer \<times> 'u request_effect list" where
  "complete_request U H client_key msg_type op_complete pm w =
     (let pm = remove_pending_cmd (request_uuid U (op_request_identifier op_complete)) pm;
          (r, w, effs) = respond H client_key op_complete msg_type w
      in (pm, w, effs))"

text \<open>The length of a message without its tag; \<open>0\<close> for an unknown type.\<close>

definition msg_len_of :: "u8 \<Rightarrow> nat" where
  "msg_len_of msg_type =
     (if msg_type = READ then 24
      else if msg_type = WRITE then 24 + SECTOR_VEC_SIZE
      else if msg_type = READ_PROC then 40
      else if msg_type = VALUE then 40 + 16 + SECTOR_VEC_SIZE
      else if msg_type = WRITE_PROC then 40 + 16 + SECTOR_VEC_SIZE
      else if msg_type = ACK then 40
      else 0)"

text \<open>The keys and the bound a connection is served with.\<close>

record server =
  system_key :: bytes
  client_key :: bytes
  sector_bound :: u64

text \<open>The decoded command is dispatched: the \<^verbatim>\<open>match\<close> at the end of the handler.\<close>

definition dispatch ::
    "hmac_crate \<Rightarrow> server \<Rightarrow> bool \<Rightarrow> u8 \<Rightarrow> 'u RegisterCommand \<Rightarrow> writer \<Rightarrow> unit io \<times> writer \<times> 'u request_effect list" where
  "dispatch H srv is_verified msg_type command w =
     (case command of
        System cmd \<Rightarrow> (Inr (), w, if is_verified then [RunSystem cmd] else [])
      | Client cmd \<Rightarrow>
          if \<not> is_verified \<or> sector_bound srv \<le> c_sector_idx (c_header cmd) then
            (case respond_err H (client_key srv) (if \<not> is_verified then AuthFailure else InvalidSectorIndex)
                    (request_identifier (c_header cmd)) msg_type w of
               (Inl _, w, effs) \<Rightarrow> (Inl OtherError, w, effs)
             | (Inr _, w, effs) \<Rightarrow> (Inr (), w, effs))
          else (Inr (), w, [RunClient cmd msg_type]))"

text \<open>The complete message is verified, decoded and dispatched.\<close>

definition serve_data ::
    "'u uuid_crate \<Rightarrow> hmac_crate \<Rightarrow> server \<Rightarrow> u8 \<Rightarrow> bytes \<Rightarrow> writer \<Rightarrow> unit io \<times> writer \<times> 'u request_effect list" where
  "serve_data U H srv msg_type data w =
     (let hmac_key = (if msg_type < READ_PROC then client_key srv else system_key srv);
          msg_len = msg_len_of msg_type;
          is_verified = (hmac_tag H hmac_key (take msg_len data) = drop msg_len data)
      in case deserialize_register_command U slice_read_exact data of
           Inl e \<Rightarrow> (Inl e, w, [])
         | Inr (command, _) \<Rightarrow> dispatch H srv is_verified msg_type command w)"

text \<open>The rest of the message is read, its length given by the type byte in \<^verbatim>\<open>buffer\<close>.\<close>

definition serve_message ::
    "'u uuid_crate \<Rightarrow> hmac_crate \<Rightarrow> server \<Rightarrow> bytes \<Rightarrow> chunk list \<Rightarrow> writer
     \<Rightarrow> unit io \<times> chunk list \<times> writer \<times> 'u request_effect list" where
  "serve_message U H srv buffer s w =
     (let msg_type = buffer ! 3; msg_len = msg_len_of msg_type
      in if msg_len = 0 then (Inr (), s, w, [])
         else case tcp_read_exact (msg_len + 32 - 8) s of
             (Inl e, s) \<Rightarrow> (Inl e, s, w, [])
           | (Inr msg, s) \<Rightarrow>
               (case serve_data U H srv msg_type (MAGIC_NUMBER @ buffer @ msg) w of (r, w, effs) \<Rightarrow> (r, s, w, effs)))"

text \<open>\<^verbatim>\<open>read\<close> fills a prefix of the four zero bytes of \<^verbatim>\<open>buffer\<close>.\<close>

definition handle_single_external_request ::
    "'u uuid_crate \<Rightarrow> hmac_crate \<Rightarrow> server \<Rightarrow> chunk list \<Rightarrow> writer
     \<Rightarrow> unit io \<times> chunk list \<times> writer \<times> 'u request_effect list" where
  "handle_single_external_request U H srv s w =
     (case get_magic_number s of
        (Inl e, s) \<Rightarrow> (Inl e, s, w, [])
      | (Inr _, s) \<Rightarrow>
          (case tcp_read 4 s of
             (Inl e, s) \<Rightarrow> (Inl e, s, w, [])
           | (Inr got, s) \<Rightarrow> serve_message U H srv (got @ replicate (4 - length got) 0) s w))"

section \<open>The loop over a connection\<close>

lemma tcp_read_exact_progress: "0 < n \<Longrightarrow> s \<noteq> [] \<Longrightarrow> stream_size (snd (tcp_read_exact n s)) < stream_size s"
  by (cases "(n, s)" rule: tcp_read_exact.cases)
    (use tcp_read_exact_size in \<open>auto simp: Let_def split_beta intro: le_imp_less_Suc trans_le_add2\<close>)

lemma tcp_read_size: "stream_size (snd (tcp_read n s)) \<le> stream_size s"
  by (induction n s rule: tcp_read.induct) auto

lemma tcp_peek_size: "stream_size (snd (tcp_peek s)) \<le> stream_size s"
  by (induction s rule: tcp_peek.induct) auto

lemma tcp_peek_Inl_size: "tcp_peek s = (Inl e, s') \<Longrightarrow> stream_size s' < stream_size s"
  by (induction s rule: tcp_peek.induct) (auto split: if_splits)

lemma tcp_peek_Inr: "tcp_peek s = (Inr k, s') \<Longrightarrow> 0 < k \<Longrightarrow> s' \<noteq> []"
  by (induction s rule: tcp_peek.induct) (auto split: if_splits)

lemma magic_loop_size: "stream_size (snd (magic_loop cur s)) \<le> stream_size s"
proof (induction cur s rule: magic_loop.induct)
  case (1 cur s)
  show ?case
  proof (cases "magic_check [0..<4] cur")
    case True
    then show ?thesis by (simp add: magic_loop.simps [of cur s])
  next
    case False
    obtain r s1 where r: "tcp_read_exact 1 s = (r, s1)" by (metis surj_pair)
    have le: "stream_size s1 \<le> stream_size s"
      using tcp_read_exact_size [of 1 s] r by simp
    show ?thesis
    proof (cases r)
      case (Inl e)
      with False r le show ?thesis by (simp add: magic_loop.simps [of cur s])
    next
      case (Inr b)
      with "1.IH" [OF False r [symmetric] Inr] False r le show ?thesis
        by (simp add: magic_loop.simps [of cur s])
    qed
  qed
qed

lemma get_magic_number_size: "s \<noteq> [] \<Longrightarrow> stream_size (snd (get_magic_number s)) < stream_size s"
  using tcp_read_exact_progress [of 4 s] magic_loop_size
  by (auto simp: get_magic_number_def split: prod.split sum.split) (metis le_less_trans snd_conv)+

lemma serve_message_size:
  "serve_message U H srv buffer s w = (r, s', w', effs) \<Longrightarrow> stream_size s' \<le> stream_size s"
  using tcp_read_exact_size [of "msg_len_of (buffer ! 3) + 32 - 8" s]
  by (auto simp: serve_message_def Let_def split: if_splits sum.splits prod.splits)

lemma handle_single_size:
  assumes "s \<noteq> []" and "handle_single_external_request U H srv s w = (r, s', w', effs)"
  shows "stream_size s' < stream_size s"
proof -
  obtain r1 s1 where 1: "get_magic_number s = (r1, s1)" by (metis surj_pair)
  obtain r2 s2 where 2: "tcp_read 4 s1 = (r2, s2)" by (metis surj_pair)
  have lt: "stream_size s1 < stream_size s" "stream_size s2 \<le> stream_size s1"
    using get_magic_number_size [OF assms(1)] tcp_read_size [of 4 s1] 1 2 by simp_all
  have "s' = s1 \<or> s' = s2 \<or> (\<exists>got. serve_message U H srv got s2 w = (r, s', w', effs))"
    using assms(2) 1 2 by (auto simp: handle_single_external_request_def split: sum.splits)
  with lt serve_message_size [of U H srv _ s2 w r s' w' effs] show ?thesis by (meson le_less_trans order_trans le_refl)
qed

lemma connection_turn_size:
  assumes "(Inr n, s1) = tcp_peek s" and "0 < n" and "(r, s2, w1, effs) = handle_single_external_request U H srv s1 w"
  shows "stream_size s2 < stream_size s"
proof -
  have "s1 \<noteq> []" "stream_size s1 \<le> stream_size s"
    using tcp_peek_Inr [OF assms(1) [symmetric] assms(2)] tcp_peek_size [of s] assms(1) by (simp, metis snd_conv)
  with handle_single_size [OF _ assms(3) [symmetric]] show ?thesis by fastforce
qed

function handle_external_command ::
    "'u uuid_crate \<Rightarrow> hmac_crate \<Rightarrow> server \<Rightarrow> chunk list \<Rightarrow> writer \<Rightarrow> writer \<times> 'u request_effect list" where
  "handle_external_command U H srv s w =
     (case tcp_peek s of
        (Inr n, s) \<Rightarrow>
          if n = 0 then (w, [])
          else
            (case handle_single_external_request U H srv s w of
               (r, s, w, effs) \<Rightarrow>
                 (case handle_external_command U H srv s w of (w, effs') \<Rightarrow> (w, effs @ effs')))
      | (Inl e, s) \<Rightarrow> handle_external_command U H srv s w)"
  by pat_completeness auto

termination
  by (relation "measure (\<lambda>(U, H, srv, s, w). stream_size s)")
    (auto intro: tcp_peek_Inl_size [OF sym] connection_turn_size)

declare handle_external_command.simps [simp del]

section \<open>What a stream will deliver\<close>

text \<open>The bytes before the first read error.\<close>

fun data_of :: "chunk list \<Rightarrow> bytes" where
  "data_of [] = []"
| "data_of (Failure e # s) = []"
| "data_of (Bytes bs # s) = bs @ data_of s"

definition clean :: "chunk list \<Rightarrow> bool" where
  "clean s \<longleftrightarrow> (\<forall>c \<in> set s. \<exists>bs. c = Bytes bs)"

lemma clean_simps [simp]: "clean []" "clean (Bytes bs # s) = clean s" "\<not> clean (Failure e # s)"
  by (auto simp: clean_def)

lemma tcp_read_exact_sound:
  "tcp_read_exact n s = (Inr bs, s') \<Longrightarrow> data_of s = bs @ data_of s' \<and> length bs = n"
proof (induction n s arbitrary: bs rule: tcp_read_exact.induct)
  case (3 n b s)
  consider "n = 0" | "0 < n" "n < length b" | "0 < n" "length b \<le> n" by linarith
  then show ?case
  proof cases
    case 3
    obtain x s1 where r: "tcp_read_exact (n - length b) s = (x, s1)" by (metis surj_pair)
    with 3 "3.prems" have "map_sum id (append b) x = Inr bs" "s1 = s'" by simp_all
    then obtain y where "x = Inr y" "bs = b @ y" by (cases x) auto
    with "3.IH" [of y] 3 r \<open>s1 = s'\<close> show ?thesis by auto
  qed (use "3.prems" in auto)
qed (auto split: if_splits)

lemma tcp_read_exact_complete:
  "n \<le> length (data_of s) \<Longrightarrow> \<exists>s'. tcp_read_exact n s = (Inr (take n (data_of s)), s') \<and> (clean s \<longrightarrow> clean s')"
proof (induction n s rule: tcp_read_exact.induct)
  case (3 n b s)
  show ?case
  proof (cases "n = 0 \<or> \<not> length b \<le> n")
    case True
    with "3.prems" show ?thesis by auto
  next
    case False
    with "3.prems" have "n - length b \<le> length (data_of s)" by simp
    with "3.IH" False obtain s' where
      "tcp_read_exact (n - length b) s = (Inr (take (n - length b) (data_of s)), s')" "clean s \<longrightarrow> clean s'"
      by auto
    with False show ?thesis by simp
  qed
qed auto

lemma tcp_read_exact_eof:
  "clean s \<Longrightarrow> length (data_of s) < n \<Longrightarrow> tcp_read_exact n s = (Inl UnexpectedEof, [])"
  by (induction n s rule: tcp_read_exact.induct) auto

lemma tcp_read_sound:
  "tcp_read n s = (Inr bs, s') \<Longrightarrow> data_of s = bs @ data_of s' \<and> length bs \<le> n"
  by (induction n s rule: tcp_read.induct) (auto split: if_splits)

section \<open>The start of a message\<close>

lemma magic_check_iff: "length cur = 4 \<Longrightarrow> magic_check [0..<4] cur \<longleftrightarrow> cur = MAGIC_NUMBER"
proof -
  assume "length cur = 4"
  then obtain a b c d where "cur = [a, b, c, d]"
    by (auto simp: length_Suc_conv numeral_eq_Suc)
  moreover have "[0..<4] = [0, 1, 2, 3 :: nat]" by (simp add: upt_rec)
  ultimately show ?thesis by (auto simp: MAGIC_NUMBER_def)
qed

text \<open>The first place where the magic number occurs.\<close>

definition first_magic :: "bytes \<Rightarrow> bytes \<Rightarrow> bytes \<Rightarrow> bool" where
  "first_magic bs pre post \<longleftrightarrow> bs = pre @ MAGIC_NUMBER @ post \<and>
     (\<forall>pre' post'. bs = pre' @ MAGIC_NUMBER @ post' \<longrightarrow> length pre \<le> length pre')"

lemma list4: "length xs = 4 \<Longrightarrow> xs = [xs ! 0, xs ! 1, xs ! 2, xs ! 3]"
  by (auto simp: length_Suc_conv numeral_eq_Suc)

lemma magic_loop_finds:
  assumes "length cur = 4" and "first_magic (cur @ data_of s) pre post"
  shows "\<exists>s'. magic_loop cur s = (Inr (), s') \<and> data_of s' = post \<and> (clean s \<longrightarrow> clean s')"
  using assms
proof (induction pre arbitrary: cur s)
  case Nil
  then have "cur = MAGIC_NUMBER" "data_of s = post"
    by (auto simp: first_magic_def)
  then show ?case by (simp add: magic_loop.simps [of MAGIC_NUMBER s] magic_check_iff)
next
  case (Cons x pre)
  from Cons.prems have eq: "cur @ data_of s = (x # pre) @ MAGIC_NUMBER @ post"
    and min: "\<And>p q. cur @ data_of s = p @ MAGIC_NUMBER @ q \<Longrightarrow> length (x # pre) \<le> length p"
    by (auto simp: first_magic_def)
  have ne: "cur \<noteq> MAGIC_NUMBER" using min [of "[]" "data_of s"] by auto
  have "length (cur @ data_of s) = length ((x # pre) @ MAGIC_NUMBER @ post)" using eq by simp
  then have len: "1 \<le> length (data_of s)" using Cons.prems(1) by simp
  then obtain s1 where r: "tcp_read_exact 1 s = (Inr (take 1 (data_of s)), s1)" "clean s \<longrightarrow> clean s1"
    using tcp_read_exact_complete by blast
  then have d: "data_of s = take 1 (data_of s) @ data_of s1" using tcp_read_exact_sound by blast
  let ?b = "take 1 (data_of s) ! 0"
  let ?cur = "[cur ! 1, cur ! 2, cur ! 3, ?b]"
  have b: "take 1 (data_of s) = [?b]" using len by (cases "data_of s") auto
  have shift: "cur @ data_of s = x # (?cur @ data_of s1)"
  proof -
    have "cur @ data_of s = cur ! 0 # (?cur @ data_of s1)"
      using list4 [OF Cons.prems(1)] d b by (metis append_Cons append_Nil)
    with eq show ?thesis by (metis append_Cons list.inject)
  qed
  have "first_magic (?cur @ data_of s1) pre post"
    unfolding first_magic_def
  proof (intro conjI allI impI)
    show "?cur @ data_of s1 = pre @ MAGIC_NUMBER @ post" using eq shift by simp
    show "length pre \<le> length p" if "?cur @ data_of s1 = p @ MAGIC_NUMBER @ q" for p q
      using min [of "x # p" q] that shift by simp
  qed
  from Cons.IH [OF _ this] obtain s' where
    "magic_loop ?cur s1 = (Inr (), s')" "data_of s' = post" "clean s1 \<longrightarrow> clean s'" by auto
  with r ne Cons.prems(1) show ?case by (simp add: magic_loop.simps [of cur s] magic_check_iff)
qed

lemma magic_loop_sound:
  "length cur = 4 \<Longrightarrow> magic_loop cur s = (Inr u, s') \<Longrightarrow> \<exists>pre. cur @ data_of s = pre @ MAGIC_NUMBER @ data_of s'"
proof (induction cur s rule: magic_loop.induct)
  case (1 cur s)
  show ?case
  proof (cases "cur = MAGIC_NUMBER")
    case True
    with 1 show ?thesis by (auto simp: magic_loop.simps [of MAGIC_NUMBER s] magic_check_iff)
  next
    case False
    with 1 have ne: "\<not> magic_check [0..<4] cur" by (simp add: magic_check_iff)
    obtain r s1 where r: "tcp_read_exact 1 s = (r, s1)" by (metis surj_pair)
    with ne 1 obtain b where b: "r = Inr b"
      by (cases r) (simp_all add: magic_loop.simps [of cur s])
    have d: "data_of s = b @ data_of s1" "length b = 1" using tcp_read_exact_sound r b by blast+
    let ?cur = "[cur ! 1, cur ! 2, cur ! 3, b ! 0]"
    have "magic_loop ?cur s1 = (Inr u, s')"
      using "1.prems" ne r b by (simp add: magic_loop.simps [of cur s])
    with "1.IH" [OF ne r [symmetric] b] obtain pre where "?cur @ data_of s1 = pre @ MAGIC_NUMBER @ data_of s'" by auto
    moreover have "b = [b ! 0]" using d(2) by (cases b) auto
    then have "cur @ data_of s = cur ! 0 # (?cur @ data_of s1)"
      using list4 [OF "1.prems"(1)] d(1) by (metis append_Cons append_Nil)
    ultimately show ?thesis by (metis append_Cons)
  qed
qed

lemma magic_loop_eof:
  "length cur = 4 \<Longrightarrow> clean s \<Longrightarrow> (\<nexists>pre post. cur @ data_of s = pre @ MAGIC_NUMBER @ post) \<Longrightarrow>
     magic_loop cur s = (Inl UnexpectedEof, [])"
proof (induction cur s rule: magic_loop.induct)
  case (1 cur s)
  then have "cur \<noteq> MAGIC_NUMBER" by (metis append_Nil)
  with 1 have ne: "\<not> magic_check [0..<4] cur" by (simp add: magic_check_iff)
  show ?case
  proof (cases "data_of s")
    case Nil
    then have "tcp_read_exact 1 s = (Inl UnexpectedEof, [])" using "1.prems"(2) by (intro tcp_read_exact_eof) simp_all
    with ne show ?thesis by (simp add: magic_loop.simps [of cur s])
  next
    case (Cons b bs)
    then obtain s1 where r: "tcp_read_exact 1 s = (Inr [b], s1)" "clean s1"
      using tcp_read_exact_complete [of 1 s] "1.prems"(2) by auto
    then have d: "data_of s1 = bs" using tcp_read_exact_sound [OF r(1)] Cons by simp
    let ?cur = "[cur ! 1, cur ! 2, cur ! 3, b]"
    have "cur @ data_of s = cur ! 0 # (?cur @ data_of s1)"
      using list4 [OF "1.prems"(1)] Cons d by (metis append_Cons append_Nil)
    then have "\<nexists>pre post. ?cur @ data_of s1 = pre @ MAGIC_NUMBER @ post"
      using "1.prems"(3) by (metis append_Cons)
    with "1.IH" [OF ne r(1) [symmetric] refl] r(2) have "magic_loop ?cur s1 = (Inl UnexpectedEof, [])" by simp
    with ne r(1) show ?thesis by (simp add: magic_loop.simps [of cur s])
  qed
qed

lemma get_magic_number_sound:
  assumes "get_magic_number s = (Inr u, s')"
  shows "\<exists>pre. data_of s = pre @ MAGIC_NUMBER @ data_of s'"
proof -
  from assms obtain cur s1 where r: "tcp_read_exact 4 s = (Inr cur, s1)" and l: "magic_loop cur s1 = (Inr u, s')"
    by (auto simp: get_magic_number_def split: sum.splits prod.splits)
  from tcp_read_exact_sound [OF r] magic_loop_sound [OF _ l] show ?thesis by auto
qed

lemma get_magic_number_finds:
  assumes "first_magic (data_of s) pre post"
  shows "\<exists>s'. get_magic_number s = (Inr (), s') \<and> data_of s' = post \<and> (clean s \<longrightarrow> clean s')"
proof -
  have "4 \<le> length (data_of s)" using assms by (auto simp: first_magic_def)
  then obtain s1 where r: "tcp_read_exact 4 s = (Inr (take 4 (data_of s)), s1)" "clean s \<longrightarrow> clean s1"
    using tcp_read_exact_complete by blast
  from tcp_read_exact_sound [OF r(1)] have "data_of s = take 4 (data_of s) @ data_of s1" "length (take 4 (data_of s)) = 4"
    by blast+
  with assms magic_loop_finds [of "take 4 (data_of s)" s1 pre post] r show ?thesis
    by (auto simp: get_magic_number_def)
qed

text \<open>
  C31. Resynchronisation: however the bytes of a connection are cut into chunks, \<^verbatim>\<open>get_magic_number\<close> consumes
  them exactly up to the end of the first occurrence of the magic number, garbage before it included,
  and runs into the end of the stream if there is none.
\<close>

theorem get_magic_number_finds_first:
  assumes "clean s"
  shows "(\<forall>pre post. first_magic (data_of s) pre post \<longrightarrow>
      (\<exists>s'. get_magic_number s = (Inr (), s') \<and> clean s' \<and> data_of s' = post)) \<and>
    ((\<nexists>pre post. data_of s = pre @ MAGIC_NUMBER @ post) \<longrightarrow> get_magic_number s = (Inl UnexpectedEof, []))"
proof (intro conjI allI impI)
  show "\<exists>s'. get_magic_number s = (Inr (), s') \<and> clean s' \<and> data_of s' = post" if "first_magic (data_of s) pre post" for pre post
    using get_magic_number_finds [OF that] assms by blast
  assume none: "\<nexists>pre post. data_of s = pre @ MAGIC_NUMBER @ post"
  show "get_magic_number s = (Inl UnexpectedEof, [])"
  proof (cases "length (data_of s) < 4")
    case True
    with assms show ?thesis by (simp add: get_magic_number_def tcp_read_exact_eof)
  next
    case False
    then obtain s1 where r: "tcp_read_exact 4 s = (Inr (take 4 (data_of s)), s1)" "clean s1"
      using tcp_read_exact_complete [of 4 s] assms by auto
    from tcp_read_exact_sound [OF r(1)] have "data_of s = take 4 (data_of s) @ data_of s1" "length (take 4 (data_of s)) = 4"
      by blast+
    with none r magic_loop_eof [of "take 4 (data_of s)" s1] show ?thesis by (auto simp: get_magic_number_def)
  qed
qed

theorem get_magic_number_finds_first_witness:
  "\<exists>s'. get_magic_number [Bytes [0x61, 0x61], Bytes [0x74, 0x64], Bytes [], Bytes [0x64, 7], Bytes [8]] = (Inr (), s') \<and>
     data_of s' = [7, 8]"
proof -
  let ?s = "[Bytes [0x61, 0x61], Bytes [0x74, 0x64], Bytes [], Bytes [0x64, 7], Bytes [8]]"
  have "first_magic (data_of ?s) [0x61] [7, 8]"
    by (auto simp: first_magic_def MAGIC_NUMBER_def Cons_eq_append_conv)
  with get_magic_number_finds_first [of ?s] show ?thesis by auto
qed

section \<open>Authenticated requests\<close>

definition request_key :: "server \<Rightarrow> 'u RegisterCommand \<Rightarrow> bytes" where
  "request_key srv cmd = (case cmd of Client _ \<Rightarrow> client_key srv | System _ \<Rightarrow> system_key srv)"

definition request_bytes :: "'u uuid_crate \<Rightarrow> hmac_crate \<Rightarrow> server \<Rightarrow> 'u RegisterCommand \<Rightarrow> bytes" where
  "request_bytes U H srv cmd = command_bytes U cmd @ hmac_tag H (request_key srv cmd) (command_bytes U cmd)"

definition request_run :: "'u RegisterCommand \<Rightarrow> 'u request_effect" where
  "request_run cmd = (case cmd of System c \<Rightarrow> RunSystem c | Client c \<Rightarrow> RunClient c (client_msg_type (c_content c)))"

definition in_bounds :: "server \<Rightarrow> 'u RegisterCommand \<Rightarrow> bool" where
  "in_bounds srv cmd = (case cmd of Client c \<Rightarrow> c_sector_idx (c_header c) < sector_bound srv | System _ \<Rightarrow> True)"

text \<open>The next \<open>n\<close> bytes have arrived together, so that one \<^verbatim>\<open>read\<close> returns them all.\<close>

definition prompt :: "nat \<Rightarrow> chunk list \<Rightarrow> bool" where
  "prompt n s \<longleftrightarrow> (\<exists>s'. tcp_read n s = (Inr (take n (data_of s)), s'))"

lemma msg_len_frame_length: "msg_len_of t = (case frame_length t of None \<Rightarrow> 0 | Some n \<Rightarrow> n)"
  by (auto simp: msg_len_of_def frame_length_def msg_type_distinct [symmetric])

lemma command_bytes_header:
  "\<exists>h body. command_bytes U cmd = MAGIC_NUMBER @ h @ body \<and> length h = 4 \<and> h ! 3 = command_msg_type cmd"
proof (cases cmd)
  case (Client c)
  show ?thesis
    by (rule exI [of _ "[0, 0, 0, client_msg_type (c_content c)]"]) (simp add: Client command_bytes_def client_command_bytes_def)
next
  case (System c)
  show ?thesis
    by (rule exI [of _ "[0, 0, process_identifier (s_header c), system_msg_type (s_content c)]"])
      (simp add: System command_bytes_def system_command_bytes_def)
qed

lemma client_type_below: "client_msg_type c < READ_PROC"
  by (cases c) (simp_all add: wire_defs)

lemma system_type_above: "\<not> system_msg_type c < READ_PROC"
  by (cases c) (simp_all add: wire_defs)

lemma command_type_key:
  "(if command_msg_type cmd < READ_PROC then client_key srv else system_key srv) = request_key srv cmd"
  by (cases cmd) (simp_all add: request_key_def client_type_below system_type_above)

lemma frame_length_pos: "frame_length t = Some n \<Longrightarrow> 8 < n"
  by (auto simp: frame_length_def SECTOR_VEC_SIZE_def split: if_splits)

text \<open>A complete message, whatever its tag.\<close>

lemma serve_message_complete:
  assumes U: "uuid_laws U" and ok: "command_ok cmd" and tag: "length tag = 32"
    and cb: "command_bytes U cmd = MAGIC_NUMBER @ h @ body" and h: "length h = 4"
    and data: "data_of s = body @ tag @ rest"
  shows "\<exists>s'. data_of s' = rest \<and> serve_message U H srv h s w =
    (case dispatch H srv (hmac_tag H (request_key srv cmd) (command_bytes U cmd) = tag) (command_msg_type cmd) cmd w of
       (r, w, effs) \<Rightarrow> (r, s', w, effs))"
proof -
  let ?n = "length (command_bytes U cmd)"
  obtain h' body' where "command_bytes U cmd = MAGIC_NUMBER @ h' @ body'" "length h' = 4" "h' ! 3 = command_msg_type cmd"
    using command_bytes_header by blast
  with cb h have t: "h ! 3 = command_msg_type cmd" by simp
  have len: "msg_len_of (command_msg_type cmd) = ?n" "8 < ?n"
    using length_command_bytes [OF U ok] frame_length_pos by (auto simp: msg_len_frame_length)
  have m: "?n + 32 - 8 = length (body @ tag)" using cb h tag by simp
  then obtain s' where r: "tcp_read_exact (?n + 32 - 8) s = (Inr (body @ tag), s')"
    using tcp_read_exact_complete [of "?n + 32 - 8" s] data by auto
  from tcp_read_exact_sound [OF r] data have "data_of s' = rest" by simp
  moreover have "serve_data U H srv (command_msg_type cmd) (MAGIC_NUMBER @ h @ body @ tag) w =
      dispatch H srv (hmac_tag H (request_key srv cmd) (command_bytes U cmd) = tag) (command_msg_type cmd) cmd w"
    using deserialize_command_bytes [OF U ok, of tag] command_type_key [of cmd srv] cb len
    by (simp add: serve_data_def Let_def)
  ultimately show ?thesis
    using r len t by (intro exI [of _ s']) (auto simp: serve_message_def Let_def split_beta)
qed

lemma handle_single_complete:
  assumes U: "uuid_laws U" and ok: "command_ok cmd" and tag: "length tag = 32"
    and data: "data_of s = junk @ command_bytes U cmd @ tag @ rest"
    and first: "\<forall>pre post. data_of s = pre @ MAGIC_NUMBER @ post \<longrightarrow> length junk \<le> length pre"
    and prompt: "\<forall>s1. get_magic_number s = (Inr (), s1) \<longrightarrow> prompt 4 s1"
  shows "\<exists>s'. data_of s' = rest \<and> handle_single_external_request U H srv s w =
    (case dispatch H srv (hmac_tag H (request_key srv cmd) (command_bytes U cmd) = tag) (command_msg_type cmd) cmd w of
       (r, w, effs) \<Rightarrow> (r, s', w, effs))"
proof -
  obtain h body where cb: "command_bytes U cmd = MAGIC_NUMBER @ h @ body" "length h = 4"
    using command_bytes_header by blast
  have "first_magic (data_of s) junk (h @ body @ tag @ rest)"
    using data cb first by (simp add: first_magic_def)
  then obtain s1 where s1: "get_magic_number s = (Inr (), s1)" "data_of s1 = h @ body @ tag @ rest"
    using get_magic_number_finds by blast
  with prompt obtain s2 where s2: "tcp_read 4 s1 = (Inr (take 4 (data_of s1)), s2)" by (auto simp: prompt_def)
  have th: "take 4 (data_of s1) = h" using s1(2) cb(2) by simp
  have "data_of s2 = body @ tag @ rest"
    using tcp_read_sound [OF s2 [unfolded th]] s1(2) by simp
  from serve_message_complete [OF U ok tag cb this, of H srv w] s1(1) s2 th cb(2) show ?thesis
    by (simp add: handle_single_external_request_def)
qed

lemma authentic_run:
  assumes "uuid_laws U" and "hmac_laws H" and "command_ok cmd" and "in_bounds srv cmd"
    and "data_of s = junk @ request_bytes U H srv cmd @ rest"
    and "\<forall>pre post. data_of s = pre @ MAGIC_NUMBER @ post \<longrightarrow> length junk \<le> length pre"
    and "\<forall>s1. get_magic_number s = (Inr (), s1) \<longrightarrow> prompt 4 s1"
  shows "\<exists>s'. handle_single_external_request U H srv s w = (Inr (), s', w, [request_run cmd]) \<and> data_of s' = rest"
proof -
  have "length (hmac_tag H (request_key srv cmd) (command_bytes U cmd)) = 32"
    using assms(2) by (simp add: hmac_laws_def)
  from handle_single_complete [OF assms(1,3) this _ assms(6,7), of rest H srv w] assms(5) obtain s' where
    "data_of s' = rest" "handle_single_external_request U H srv s w =
      (case dispatch H srv True (command_msg_type cmd) cmd w of (r, w, effs) \<Rightarrow> (r, s', w, effs))"
    by (auto simp: request_bytes_def)
  moreover have "dispatch H srv True (command_msg_type cmd) cmd w = (Inr (), w, [request_run cmd])"
    using assms(4) by (cases cmd) (auto simp: dispatch_def in_bounds_def request_run_def)
  ultimately show ?thesis by auto
qed

text \<open>A look at the stream before a request does not change how the request is handled.\<close>

lemma tcp_peek_read_exact: "tcp_peek s = (Inr k, s') \<Longrightarrow> 0 < n \<Longrightarrow> tcp_read_exact n s' = tcp_read_exact n s"
proof (induction s rule: tcp_peek.induct)
  case (3 bs s)
  then show ?case by (cases "tcp_read_exact n s"; cases "fst (tcp_read_exact n s)") (auto split: if_splits)
qed auto

lemma tcp_peek_handle_single:
  "tcp_peek s = (Inr k, s') \<Longrightarrow> handle_single_external_request U H srv s' w = handle_single_external_request U H srv s w"
  by (simp add: handle_single_external_request_def get_magic_number_def tcp_peek_read_exact)

lemma tcp_peek_data: "data_of s \<noteq> [] \<Longrightarrow> \<exists>s'. tcp_peek s = (Inr 1, s')"
  by (induction s rule: tcp_peek.induct) auto

lemma connection_turn:
  assumes "data_of s \<noteq> []" and "handle_single_external_request U H srv s w = (r, s', w', effs)"
  shows "handle_external_command U H srv s w = map_prod id (append effs) (handle_external_command U H srv s' w')"
proof -
  obtain s1 where p: "tcp_peek s = (Inr 1, s1)" using tcp_peek_data [OF assms(1)] by blast
  have "handle_single_external_request U H srv s1 w = (r, s', w', effs)"
    using tcp_peek_handle_single [OF p] assms(2) by metis
  with p show ?thesis
    by (simp add: handle_external_command.simps [of U H srv s] map_prod_def)
qed

text \<open>
  C29. An authentic request is executed: when the bytes of a well-formed command with its tag under the
  right key arrive, after any garbage without a magic number and before anything else, the handler passes
  exactly this command on, consumes exactly its bytes and writes nothing, and the connection goes on with
  what follows. For client commands the sector has to be in bounds; the four bytes after the magic number
  have to arrive together.
\<close>

theorem authentic_request_executed:
  assumes "uuid_laws U" and "hmac_laws H" and "command_ok cmd" and "in_bounds srv cmd"
    and "data_of s = junk @ request_bytes U H srv cmd @ rest"
    and "\<forall>pre post. data_of s = pre @ MAGIC_NUMBER @ post \<longrightarrow> length junk \<le> length pre"
    and "\<forall>s1. get_magic_number s = (Inr (), s1) \<longrightarrow> prompt 4 s1"
  shows "\<exists>s'. handle_single_external_request U H srv s w = (Inr (), s', w, [request_run cmd]) \<and> data_of s' = rest \<and>
    handle_external_command U H srv s w = map_prod id (Cons (request_run cmd)) (handle_external_command U H srv s' w)"
proof -
  obtain s' where s': "handle_single_external_request U H srv s w = (Inr (), s', w, [request_run cmd])" "data_of s' = rest"
    using authentic_run [OF assms] by blast
  obtain h body where "command_bytes U cmd = MAGIC_NUMBER @ h @ body"
    using command_bytes_header [of U cmd] by blast
  then have "data_of s \<noteq> []" using assms(5) by (auto simp: request_bytes_def MAGIC_NUMBER_def)
  from connection_turn [OF this s'(1)] s' show ?thesis by (auto simp: map_prod_def)
qed

abbreviation demo_server :: server where
  "demo_server \<equiv> \<lparr>system_key = [1], client_key = [2], sector_bound = 10\<rparr>"

abbreviation demo_writer :: writer where
  "demo_writer \<equiv> ([], \<lparr>faults = (\<lambda>_. None), ticks = 0\<rparr>)"

lemma zero_hmac_laws [simp]: "hmac_laws zero_hmac"
  by (simp add: hmac_laws_def zero_hmac_def)

lemma prompt_single:
  assumes "tcp_read_exact 4 s = (Inr MAGIC_NUMBER, [Bytes bs])" and "4 \<le> length bs"
    and "get_magic_number s = (Inr (), s1)"
  shows "prompt 4 s1"
proof -
  have "bs \<noteq> []" using assms(2) by auto
  have "s1 = [Bytes bs]"
    using assms(1,3) by (simp add: get_magic_number_def magic_loop.simps [of MAGIC_NUMBER "[Bytes bs]"] magic_check_iff)
  with \<open>bs \<noteq> []\<close> show ?thesis by (simp add: prompt_def)
qed

abbreviation demo_stream :: "chunk list" where
  "demo_stream \<equiv> [Bytes MAGIC_NUMBER,
     Bytes (drop 4 (request_bytes u128_uuid zero_hmac demo_server (System demo_ack)))]"

lemma demo_stream:
  shows "data_of demo_stream = [] @ request_bytes u128_uuid zero_hmac demo_server (System demo_ack) @ []"
    and "\<forall>s1. get_magic_number demo_stream = (Inr (), s1) \<longrightarrow> prompt 4 s1"
proof -
  let ?b = "request_bytes u128_uuid zero_hmac demo_server (System demo_ack)"
  obtain h body where "?b = MAGIC_NUMBER @ h @ body" "length h = 4"
    using command_bytes_header [of u128_uuid "System demo_ack"] by (metis append.assoc request_bytes_def)
  then show "data_of demo_stream = [] @ ?b @ []" and len: "\<forall>s1. get_magic_number demo_stream = (Inr (), s1) \<longrightarrow> prompt 4 s1"
    by (simp, intro allI impI prompt_single [where s = demo_stream and bs = "drop 4 ?b"]) simp_all
qed

theorem authentic_request_executed_witness:
  "\<exists>s'. handle_single_external_request u128_uuid zero_hmac demo_server demo_stream demo_writer
      = (Inr (), s', demo_writer, [RunSystem demo_ack]) \<and> data_of s' = []"
  using authentic_request_executed [OF u128_uuid_laws zero_hmac_laws _ _ demo_stream(1) _ demo_stream(2), of demo_writer]
  by (auto simp: in_bounds_def request_run_def)

text \<open>Where a served message comes from.\<close>

lemma serve_message_source:
  assumes "serve_message U H srv h s w = (r, s', w', effs)" and "effs \<noteq> []" and "length h = 4"
  obtains msg cmd tag_ok where "data_of s = msg @ data_of s'"
    and "length (MAGIC_NUMBER @ h @ msg) = msg_len_of (h ! 3) + 32"
    and "deserialize_register_command U slice_read_exact (MAGIC_NUMBER @ h @ msg) =
      Inr (cmd, drop (msg_len_of (h ! 3)) (MAGIC_NUMBER @ h @ msg))"
    and "command_msg_type cmd = h ! 3"
    and "tag_ok \<longleftrightarrow> hmac_tag H (request_key srv cmd) (take (msg_len_of (h ! 3)) (MAGIC_NUMBER @ h @ msg)) =
      drop (msg_len_of (h ! 3)) (MAGIC_NUMBER @ h @ msg)"
    and "dispatch H srv tag_ok (h ! 3) cmd w = (r, w', effs)"
proof -
  let ?n = "msg_len_of (h ! 3)"
  have n: "?n \<noteq> 0" using assms(1,2) by (auto simp: serve_message_def Let_def split: if_splits)
  then obtain k where k: "frame_length (h ! 3) = Some k" "?n = k" by (auto simp: msg_len_frame_length split: option.splits)
  then have k8: "8 < k" using frame_length_pos by blast
  obtain msg where rd: "tcp_read_exact (?n + 32 - 8) s = (Inr msg, s')"
    and sd: "serve_data U H srv (h ! 3) (MAGIC_NUMBER @ h @ msg) w = (r, w', effs)"
    using assms(1,2) n by (auto simp: serve_message_def Let_def split: prod.splits sum.splits)
  from tcp_read_exact_sound [OF rd] have d: "data_of s = msg @ data_of s'" "length msg = ?n + 24" by auto
  let ?data = "MAGIC_NUMBER @ h @ msg"
  have len: "length ?data = ?n + 32" using d assms(3) by simp
  have at7: "?data ! 7 = h ! 3" using assms(3) by (simp add: nth_append)
  obtain cmd where cmd: "deserialize_register_command U slice_read_exact ?data = Inr (cmd, drop k ?data)"
    "command_msg_type cmd = h ! 3"
    using deserialize_slice_cases(2) [of ?data k U] len k k8 at7 by auto
  have key: "(if h ! 3 < READ_PROC then client_key srv else system_key srv) = request_key srv cmd"
    using command_type_key [of cmd srv] cmd(2) by simp
  show thesis
    by (rule that [OF d(1) len cmd(1) [folded k(2)] cmd(2) refl])
      (use sd cmd(1) key in \<open>simp add: serve_data_def Let_def\<close>)
qed

text \<open>
  C30. Only authentic commands run: whenever the handler passes a command on, the stream contained the
  bytes of a message from which this command decodes, followed by their correct tag under the system key
  (for a system command) or the client key (for a client command, whose sector is then in bounds).
\<close>

theorem only_authentic_commands_run:
  assumes "handle_single_external_request U H srv s w = (r, s', w', effs)" and "request_run cmd \<in> set effs"
  shows "in_bounds srv cmd \<and> (\<exists>pre d. data_of s = pre @ d @ hmac_tag H (request_key srv cmd) d @ data_of s' \<and>
    deserialize_register_command U slice_read_exact (d @ hmac_tag H (request_key srv cmd) d) =
      Inr (cmd, hmac_tag H (request_key srv cmd) d))"
proof -
  obtain s1 got s2 where 1: "get_magic_number s = (Inr (), s1)" and 2: "tcp_read 4 s1 = (Inr got, s2)"
    and m: "serve_message U H srv (got @ replicate (4 - length got) 0) s2 w = (r, s', w', effs)"
    using assms by (auto simp: handle_single_external_request_def split: prod.splits sum.splits)
  from get_magic_number_sound [OF 1] obtain pre where pre: "data_of s = pre @ MAGIC_NUMBER @ data_of s1" by blast
  from tcp_read_sound [OF 2] have got: "data_of s1 = got @ data_of s2" "length got \<le> 4" by auto
  let ?h = "got @ replicate (4 - length got) 0"
  have "effs \<noteq> []" using assms(2) by auto
  from m this obtain msg cmd' ok where src: "data_of s2 = msg @ data_of s'"
    "length (MAGIC_NUMBER @ ?h @ msg) = msg_len_of (?h ! 3) + 32"
    "deserialize_register_command U slice_read_exact (MAGIC_NUMBER @ ?h @ msg) =
      Inr (cmd', drop (msg_len_of (?h ! 3)) (MAGIC_NUMBER @ ?h @ msg))"
    "command_msg_type cmd' = ?h ! 3"
    "ok \<longleftrightarrow> hmac_tag H (request_key srv cmd') (take (msg_len_of (?h ! 3)) (MAGIC_NUMBER @ ?h @ msg)) =
      drop (msg_len_of (?h ! 3)) (MAGIC_NUMBER @ ?h @ msg)"
    "dispatch H srv ok (?h ! 3) cmd' w = (r, w', effs)"
    by (rule serve_message_source) (use got(2) in simp)
  have full: "length got = 4"
  proof (rule ccontr)
    assume "length got \<noteq> 4"
    with got(2) have "?h ! 3 = 0" by (simp add: nth_append)
    with src(4) show False
      by (cases cmd'; cases "c_content (case cmd' of Client c \<Rightarrow> c)"; cases "s_content (case cmd' of System c \<Rightarrow> c)")
        (simp_all add: wire_defs)
  qed
  have cmd: "ok" "in_bounds srv cmd'" "cmd' = cmd"
    using src(6) assms(2)
    by (auto simp: dispatch_def request_run_def in_bounds_def respond_err_def respond_def Let_def
        split: RegisterCommand.splits if_splits sum.splits prod.splits)
  let ?n = "msg_len_of (?h ! 3)" and ?data = "MAGIC_NUMBER @ got @ msg"
  have "data_of s = pre @ take ?n ?data @ drop ?n ?data @ data_of s'"
    using pre got(1) src(1) append_take_drop_id [of ?n ?data] by (metis append.assoc)
  moreover have "hmac_tag H (request_key srv cmd) (take ?n ?data) = drop ?n ?data"
    using cmd src(5) full by simp
  moreover have "deserialize_register_command U slice_read_exact (take ?n ?data @ drop ?n ?data) = Inr (cmd, drop ?n ?data)"
    using cmd src(3) full unfolding append_take_drop_id by simp
  ultimately show ?thesis using cmd by metis
qed

theorem only_authentic_commands_run_witness:
  "\<exists>s' pre d. handle_single_external_request u128_uuid zero_hmac demo_server demo_stream demo_writer
      = (Inr (), s', demo_writer, [RunSystem demo_ack]) \<and>
    data_of demo_stream = pre @ d @ hmac_tag zero_hmac [1] d @ data_of s'"
proof -
  obtain s' where run: "handle_single_external_request u128_uuid zero_hmac demo_server demo_stream demo_writer
      = (Inr (), s', demo_writer, [request_run (System demo_ack)])"
    using authentic_run [OF u128_uuid_laws zero_hmac_laws _ _ demo_stream(1) _ demo_stream(2), of demo_writer]
    by (auto simp: in_bounds_def)
  from only_authentic_commands_run [OF run, of "System demo_ack"] run show ?thesis
    by (auto simp: request_run_def request_key_def)
qed

section \<open>Rejected requests\<close>

lemma forged_run:
  assumes "uuid_laws U" and "client_content_ok (c_content c)" and "length tag = 32"
    and "tag \<noteq> hmac_tag H (client_key srv) (command_bytes U (Client c))"
    and "data_of s = junk @ command_bytes U (Client c) @ tag @ rest"
    and "\<forall>pre post. data_of s = pre @ MAGIC_NUMBER @ post \<longrightarrow> length junk \<le> length pre"
    and "\<forall>s1. get_magic_number s = (Inr (), s1) \<longrightarrow> prompt 4 s1"
  shows "\<exists>s'. data_of s' = rest \<and> handle_single_external_request U H srv s w =
      (case respond_err H (client_key srv) AuthFailure (request_identifier (c_header c)) (client_msg_type (c_content c)) w of
         (Inl _, w, effs) \<Rightarrow> (Inl OtherError, s', w, effs) | (Inr _, w, effs) \<Rightarrow> (Inr (), s', w, effs))"
proof -
  have "command_ok (Client c :: 'a RegisterCommand)" using assms(2) by simp
  from handle_single_complete [OF assms(1) this assms(3,5-7), of H srv w] obtain s' where
    "data_of s' = rest" "handle_single_external_request U H srv s w =
      (case dispatch H srv False (command_msg_type (Client c)) (Client c) w of (r, w, effs) \<Rightarrow> (r, s', w, effs))"
    using assms(4) by (auto simp: request_key_def)
  then show ?thesis by (intro exI [of _ s']) (simp add: dispatch_def split: prod.split sum.split)
qed

text \<open>
  C32. A client request with a wrong tag runs nothing: the client gets an authenticated response with status
  \<open>AuthFailure\<close>, and the next request is read from the right place. But \<^verbatim>\<open>finish_client_command\<close> is called for
  the request number that the unauthenticated sender chose.
\<close>

theorem forged_client_request:
  assumes "uuid_laws U" and "client_content_ok (c_content c)" and "length tag = 32"
    and "tag \<noteq> hmac_tag H (client_key srv) (command_bytes U (Client c))"
    and "data_of s = junk @ command_bytes U (Client c) @ tag @ rest"
    and "\<forall>pre post. data_of s = pre @ MAGIC_NUMBER @ post \<longrightarrow> length junk \<le> length pre"
    and "\<forall>s1. get_magic_number s = (Inr (), s1) \<longrightarrow> prompt 4 s1"
    and "faults nt (ticks nt) = None"
  shows "\<exists>s' nt'. let resp = serialize_response \<lparr>status_code = AuthFailure,
        op_request_identifier = request_identifier (c_header c), op_return = WriteReturn\<rparr> (client_msg_type (c_content c)) in
    handle_single_external_request U H srv s (out, nt) =
      (Inr (), s', (out @ resp @ hmac_tag H (client_key srv) resp, nt'), [FinishClient (request_identifier (c_header c))]) \<and>
    data_of s' = rest"
proof -
  obtain s' where "data_of s' = rest" "handle_single_external_request U H srv s (out, nt) =
      (case respond_err H (client_key srv) AuthFailure (request_identifier (c_header c)) (client_msg_type (c_content c)) (out, nt) of
         (Inl _, w, effs) \<Rightarrow> (Inl OtherError, s', w, effs) | (Inr _, w, effs) \<Rightarrow> (Inr (), s', w, effs))"
    using forged_run [OF assms(1-7)] by blast
  with assms(8) show ?thesis
    by (intro exI [of _ s'] exI [of _ "nt\<lparr>ticks := Suc (ticks nt)\<rparr>"])
      (simp add: respond_err_def respond_def tcp_write_all_def Let_def)
qed

abbreviation demo_read :: ClientRegisterCommand where
  "demo_read \<equiv> \<lparr>c_header = \<lparr>request_identifier = 5, c_sector_idx = 0\<rparr>, c_content = Read\<rparr>"

abbreviation forged_tag :: bytes where
  "forged_tag \<equiv> 1 # replicate 31 0"

abbreviation forged_stream :: "chunk list" where
  "forged_stream \<equiv> [Bytes MAGIC_NUMBER, Bytes (drop 4 (command_bytes u128_uuid (Client demo_read)) @ forged_tag)]"

lemma forged_stream:
  shows "forged_tag \<noteq> hmac_tag zero_hmac (client_key demo_server) (command_bytes u128_uuid (Client demo_read))"
    and "data_of forged_stream = [] @ command_bytes u128_uuid (Client demo_read) @ forged_tag @ []"
    and "\<forall>s1. get_magic_number forged_stream = (Inr (), s1) \<longrightarrow> prompt 4 s1"
proof -
  let ?b = "command_bytes u128_uuid (Client demo_read)"
  obtain h body where "?b = MAGIC_NUMBER @ h @ body" "length h = 4"
    using command_bytes_header [of u128_uuid "Client demo_read"] by blast
  then show "data_of forged_stream = [] @ ?b @ forged_tag @ []"
    and "\<forall>s1. get_magic_number forged_stream = (Inr (), s1) \<longrightarrow> prompt 4 s1"
    by (simp, intro allI impI prompt_single [where s = forged_stream and bs = "drop 4 ?b @ forged_tag"]) simp_all
  have "forged_tag \<noteq> replicate 32 x" for x
    by (auto simp: numeral_eq_Suc)
  then show "forged_tag \<noteq> hmac_tag zero_hmac (client_key demo_server) ?b"
    by (simp only: zero_hmac_def hmac_crate.simps) blast
qed

theorem forged_client_request_witness:
  "\<exists>s' w'. handle_single_external_request u128_uuid zero_hmac demo_server forged_stream demo_writer =
    (Inr (), s', w', [FinishClient 5])"
  using forged_client_request [OF u128_uuid_laws _ _ forged_stream(1,2) _ forged_stream(3),
      of "\<lparr>faults = (\<lambda>_. None), ticks = 0\<rparr>" "[]"]
  by (auto simp: Let_def)

text \<open>
  C33. A request whose first four bytes after the magic number arrive in two pieces is dropped: \<^verbatim>\<open>read\<close>
  returns the first piece, the type byte is taken to be \<open>0\<close>, and the handler returns \<^verbatim>\<open>Ok\<close> without running
  or answering anything.
\<close>

theorem short_read_drops_request:
  assumes "get_magic_number s = (Inr (), Bytes h # s2)" and "h \<noteq> []" and "length h < 4"
  shows "handle_single_external_request U H srv s w = (Inr (), s2, w, [])"
proof -
  have "(h @ replicate (4 - length h) 0) ! 3 = 0" using assms(3) by (simp add: nth_append)
  moreover have "msg_len_of 0 = 0" by (simp add: msg_len_of_def wire_defs)
  ultimately show ?thesis
    using assms by (simp add: handle_single_external_request_def serve_message_def Let_def)
qed

theorem short_read_drops_request_witness:
  "handle_single_external_request u128_uuid zero_hmac demo_server
     [Bytes MAGIC_NUMBER, Bytes [0, 0], Bytes (drop 6 (request_bytes u128_uuid zero_hmac demo_server (System demo_ack)))] demo_writer
   = (Inr (), [Bytes (drop 6 (request_bytes u128_uuid zero_hmac demo_server (System demo_ack)))], demo_writer, [])"
proof -
  have "get_magic_number [Bytes MAGIC_NUMBER, Bytes [0, 0], c] = (Inr (), [Bytes [0, 0], c])" for c
    by (simp add: get_magic_number_def magic_loop.simps [of MAGIC_NUMBER "[Bytes [0, 0], c]"] magic_check_iff)
  from short_read_drops_request [OF this] show ?thesis by simp
qed

section \<open>Sequences of messages\<close>

text \<open>A stream whose bytes have all arrived.\<close>

definition arrived :: "chunk list \<Rightarrow> bool" where
  "arrived s \<longleftrightarrow> s = [] \<or> (\<exists>bs. s = [Bytes bs])"

lemma arrived_read_exact: "arrived s \<Longrightarrow> arrived (snd (tcp_read_exact n s))"
  unfolding arrived_def by (elim disjE exE) (simp_all add: Let_def split_beta)

lemma arrived_read: "arrived s \<Longrightarrow> arrived (snd (tcp_read n s))"
  unfolding arrived_def by (elim disjE exE) simp_all

lemma arrived_prompt: "arrived s \<Longrightarrow> prompt n s"
  by (auto simp: arrived_def prompt_def)

lemma arrived_magic_loop: "arrived s \<Longrightarrow> arrived (snd (magic_loop cur s))"
proof (induction cur s rule: magic_loop.induct)
  case (1 cur s)
  show ?case
  proof (cases "magic_check [0..<4] cur")
    case True
    with "1.prems" show ?thesis by (simp add: magic_loop.simps [of cur s])
  next
    case False
    obtain r s1 where r: "tcp_read_exact 1 s = (r, s1)" by (metis surj_pair)
    with arrived_read_exact [OF "1.prems", of 1] have s1: "arrived s1" by simp
    show ?thesis
    proof (cases r)
      case (Inl e)
      with False r s1 show ?thesis by (simp add: magic_loop.simps [of cur s])
    next
      case (Inr b)
      from "1.IH" [OF False r [symmetric] Inr s1] False r Inr show ?thesis by (simp add: magic_loop.simps [of cur s])
    qed
  qed
qed

lemma arrived_get_magic_number:
  assumes "arrived s" and "get_magic_number s = (r, s')"
  shows "arrived s'"
proof -
  obtain x s1 where x: "tcp_read_exact 4 s = (x, s1)" by (metis surj_pair)
  with arrived_read_exact [OF assms(1), of 4] have "arrived s1" by simp
  with assms(2) x arrived_magic_loop [OF \<open>arrived s1\<close>] show ?thesis
    by (cases x) (auto simp: get_magic_number_def, metis snd_conv)
qed

lemma arrived_handle_single:
  assumes "arrived s" and "handle_single_external_request U H srv s w = (r, s', w', effs)"
  shows "arrived s'"
proof -
  obtain x s1 where 1: "get_magic_number s = (x, s1)" by (metis surj_pair)
  have a1: "arrived s1" by (rule arrived_get_magic_number [OF assms(1) 1])
  obtain y s2 where 2: "tcp_read 4 s1 = (y, s2)" by (metis surj_pair)
  have a2: "arrived s2" using arrived_read [OF a1, of 4] 2 by simp
  have "arrived s''" if "serve_message U H srv h s2 w = (r, s'', w', effs)" for h s''
    using that arrived_read_exact [OF a2, of "msg_len_of (h ! 3) + 32 - 8"] a2
    by (auto simp: serve_message_def Let_def split: if_splits sum.splits prod.splits)
  with assms(2) 1 2 a1 a2 show ?thesis
    by (auto simp: handle_single_external_request_def split: sum.splits)
qed

lemma arrived_peek: "arrived s \<Longrightarrow> data_of s \<noteq> [] \<Longrightarrow> tcp_peek s = (Inr 1, s)"
  "arrived s \<Longrightarrow> data_of s = [] \<Longrightarrow> tcp_peek s = (Inr 0, [])"
  by (auto simp: arrived_def)

lemma frame_request_bytes:
  "system_key srv = key \<Longrightarrow> frame U H key cmd = request_bytes U H srv (System cmd)"
  by (simp add: frame_def request_bytes_def request_key_def)

lemma frames_run:
  assumes U: "uuid_laws U" and H: "hmac_laws H" and key: "system_key srv = key"
    and ok: "\<forall>cmd \<in> set cmds. system_content_ok (s_content cmd)"
    and s: "arrived s" "data_of s = concat (map (frame U H key) cmds)"
  shows "handle_external_command U H srv s w = (w, map RunSystem cmds)"
  using ok s
proof (induction cmds arbitrary: s)
  case Nil
  then show ?case by (simp add: handle_external_command.simps [of U H srv s w] arrived_peek)
next
  case (Cons c cmds)
  let ?rest = "concat (map (frame U H key) cmds)"
  have data: "data_of s = [] @ request_bytes U H srv (System c) @ ?rest"
    using Cons.prems(3) by (simp add: frame_request_bytes [OF key, of U H c])
  have pr: "\<forall>s1. get_magic_number s = (Inr (), s1) \<longrightarrow> prompt 4 s1"
    using arrived_get_magic_number [OF Cons.prems(2)] arrived_prompt by blast
  have "command_ok (System c)" "in_bounds srv (System c)"
    using Cons.prems(1) by (simp_all add: in_bounds_def)
  from authentic_run [OF U H this data _ pr, of w] obtain s' where
    h: "handle_single_external_request U H srv s w = (Inr (), s', w, [RunSystem c])" "data_of s' = ?rest"
    by (auto simp: request_run_def)
  have "data_of s \<noteq> []" using data command_bytes_header [of U "System c"] by (auto simp: request_bytes_def MAGIC_NUMBER_def)
  with Cons.IH [OF _ arrived_handle_single [OF Cons.prems(2) h(1)] h(2)] h(1) Cons.prems show ?case
    by (simp add: handle_external_command.simps [of U H srv s w] arrived_peek)
qed

text \<open>A replay without errors has written every frame.\<close>

lemma replay_errors: "replay U H key cs stream nt errs = (b, nt', errs') \<Longrightarrow> errs \<le> errs'"
  by (induction cs arbitrary: stream nt errs) (auto split: prod.splits sum.splits dest: Suc_leD)

lemma replay_all_sent:
  "replay U H key cs stream nt 0 = (sent, nt', 0) \<Longrightarrow> sent = stream @ concat (map (frame U H key) cs)"
proof (induction cs arbitrary: stream nt)
  case (Cons c cs)
  show ?case
  proof (cases "faults nt (ticks nt)")
    case None
    with Cons.prems Cons.IH [of "stream @ frame U H key c"] show ?thesis
      by (simp add: send_stream_frame tcp_write_all_def)
  next
    case (Some f)
    with Cons.prems replay_errors [of U H key cs _ _ "Suc 0" sent nt' 0] show ?thesis
      by (auto simp: send_stream_frame tcp_write_all_def split_beta)
  qed
qed simp

end
