(* ===== verification/Stable_Storage.thy ===== *)
theory Stable_Storage
  imports Prelude
begin

text \<open>
  Durable files: \<^verbatim>\<open>solution/src/stable_storage.rs\<close> over a model of the file system. A file system
  holds what processes see (\<open>vol\<close>) and what is on the medium (\<open>dur\<close>); a file also records whether
  its content was synced. \<open>crash\<close> relates a file system to what may be found after a power loss:
  every directory entry is the old or the new one, and the content of a file that was not synced is
  arbitrary. The outcome of each system call of one \<^verbatim>\<open>write\<close> comes from the environment: a
  \<open>write_env\<close>, taken from the oracle of the \<open>disk\<close>. Stopping after any prefix of the calls leaves
  the file system that a failure of the next call leaves, so the crash points of \<^verbatim>\<open>write\<close> are its
  outcomes over all environments.
\<close>

section \<open>File system\<close>

record fs_file =
  content :: bytes
  synced :: bool

record fsys =
  vol :: "path \<rightharpoonup> fs_file"
  dur :: "path \<rightharpoonup> fs_file"

text \<open>\<^verbatim>\<open>File::create\<close>, \<^verbatim>\<open>write_all\<close>, \<^verbatim>\<open>sync_data\<close>, \<^verbatim>\<open>rename\<close>, and \<^verbatim>\<open>sync_data\<close> on a directory.\<close>

definition fs_create :: "path \<Rightarrow> fsys \<Rightarrow> fsys" where
  "fs_create p s = s\<lparr>vol := (vol s)(p \<mapsto> \<lparr>content = [], synced = False\<rparr>)\<rparr>"

definition fs_append :: "path \<Rightarrow> bytes \<Rightarrow> fsys \<Rightarrow> fsys" where
  "fs_append p bs s = (case vol s p of
       None \<Rightarrow> s
     | Some f \<Rightarrow> s\<lparr>vol := (vol s)(p \<mapsto> \<lparr>content = content f @ bs, synced = False\<rparr>)\<rparr>)"

definition fs_sync :: "path \<Rightarrow> fsys \<Rightarrow> fsys" where
  "fs_sync p s = (case vol s p of
       None \<Rightarrow> s
     | Some f \<Rightarrow> s\<lparr>vol := (vol s)(p \<mapsto> f\<lparr>synced := True\<rparr>)\<rparr>)"

definition fs_rename :: "path \<Rightarrow> path \<Rightarrow> fsys \<Rightarrow> fsys" where
  "fs_rename p q s = (case vol s p of
       None \<Rightarrow> s
     | Some f \<Rightarrow> s\<lparr>vol := (vol s)(p := None, q \<mapsto> f)\<rparr>)"

definition fs_sync_dir :: "path \<Rightarrow> fsys \<Rightarrow> fsys" where
  "fs_sync_dir d s = s\<lparr>dur := (\<lambda>p. if p \<noteq> [] \<and> butlast p = d then vol s p else dur s p)\<rparr>"

text \<open>What a power loss leaves of one directory entry: \<open>v\<close> as processes saw it, \<open>d\<close> as on the medium.\<close>

definition crash_entry :: "fs_file option \<Rightarrow> fs_file option \<Rightarrow> fs_file option \<Rightarrow> bool" where
  "crash_entry v d e \<longleftrightarrow> (\<exists>f \<in> {v, d}. case f of
       None \<Rightarrow> e = None
     | Some g \<Rightarrow> (if synced g then e = Some g else \<exists>c. e = Some \<lparr>content = c, synced = True\<rparr>))"

definition crash :: "fsys \<Rightarrow> fsys \<Rightarrow> bool" where
  "crash s s' \<longleftrightarrow> dur s' = vol s' \<and> (\<forall>p. crash_entry (vol s p) (dur s p) (vol s' p))"

section \<open>The environment\<close>

text \<open>
  One call of \<^verbatim>\<open>write\<close>: the temporary path (\<^verbatim>\<open>temp_dir()\<close> joined with a fresh \<^verbatim>\<open>Uuid\<close>) and the error
  of each system call, if it fails; \<^verbatim>\<open>write_all\<close> may have written a prefix.
\<close>

record write_env =
  tmp_path :: path
  create_err :: "io_error option"
  write_all_err :: "(io_error \<times> nat) option"
  sync_err :: "io_error option"
  rename_err :: "io_error option"
  open_dir_err :: "io_error option"
  sync_dir_err :: "io_error option"

record disk =
  fs :: fsys
  envs :: "nat \<Rightarrow> write_env"
  clock :: nat

section \<open>stable_storage.rs\<close>

definition write_in :: "write_env \<Rightarrow> path \<Rightarrow> string \<Rightarrow> bytes \<Rightarrow> fsys \<Rightarrow> unit io \<times> fsys" where
  "write_in env dir key v s =
     (let tmp = tmp_path env in
      case create_err env of Some e \<Rightarrow> (Inl e, s) | None \<Rightarrow>
      let s = fs_create tmp s in
      case write_all_err env of Some (e, n) \<Rightarrow> (Inl e, fs_append tmp (take n v) s) | None \<Rightarrow>
      let s = fs_append tmp v s in
      case sync_err env of Some e \<Rightarrow> (Inl e, s) | None \<Rightarrow>
      let s = fs_sync tmp s in
      case rename_err env of Some e \<Rightarrow> (Inl e, s) | None \<Rightarrow>
      let s = fs_rename tmp (join dir key) s in
      case open_dir_err env of Some e \<Rightarrow> (Inl e, s) | None \<Rightarrow>
      case sync_dir_err env of Some e \<Rightarrow> (Inl e, s) | None \<Rightarrow>
      (Inr (), fs_sync_dir dir s))"

definition write_file :: "path \<Rightarrow> string \<Rightarrow> bytes \<Rightarrow> disk \<Rightarrow> unit io \<times> disk" where
  "write_file dir key v d =
     (let (r, s) = write_in (envs d (clock d)) dir key v (fs d)
      in (r, d\<lparr>fs := s, clock := Suc (clock d)\<rparr>))"

definition read_file :: "path \<Rightarrow> string \<Rightarrow> disk \<Rightarrow> bytes option" where
  "read_file dir key d = map_option content (vol (fs d) (join dir key))"

text \<open>
  \<^verbatim>\<open>StableStorageImplementation\<close> is its directory; the error of \<^verbatim>\<open>put\<close> is the message of the I/O error,
  which the only caller logs, so its kind stands for it.
\<close>

record StableStorageImplementation =
  ss_dir :: path

text \<open>\<open>mkdir\<close> says whether \<^verbatim>\<open>create_dir_all\<close> succeeds; the \<^verbatim>\<open>unwrap\<close> panics otherwise.\<close>

definition StableStorageImplementation_new :: "(path \<Rightarrow> bool) \<Rightarrow> path \<Rightarrow> StableStorageImplementation option" where
  "StableStorageImplementation_new mkdir dir = (if mkdir dir then Some \<lparr>ss_dir = dir\<rparr> else None)"

definition put :: "StableStorageImplementation \<Rightarrow> string \<Rightarrow> bytes \<Rightarrow> disk \<Rightarrow> unit io \<times> disk" where
  "put st key v d = write_file (ss_dir st) key v d"

definition get :: "StableStorageImplementation \<Rightarrow> string \<Rightarrow> disk \<Rightarrow> bytes option" where
  "get st key d = read_file (ss_dir st) key d"

section \<open>Well-behaved disks\<close>

text \<open>
  The temporary directory lies outside the storage directory \<open>root\<close>: no temporary path extends it.
  \<open>fault_free\<close>: no later system call fails.
\<close>

definition is_under :: "path \<Rightarrow> path \<Rightarrow> bool" where
  "is_under root p \<longleftrightarrow> take (length root) p = root"

definition disk_ok :: "path \<Rightarrow> disk \<Rightarrow> bool" where
  "disk_ok root d \<longleftrightarrow> (\<forall>n. \<not> is_under root (tmp_path (envs d n)))"

definition env_ok :: "write_env \<Rightarrow> bool" where
  "env_ok env \<longleftrightarrow> create_err env = None \<and> write_all_err env = None \<and> sync_err env = None \<and>
     rename_err env = None \<and> open_dir_err env = None \<and> sync_dir_err env = None"

definition fault_free :: "disk \<Rightarrow> bool" where
  "fault_free d \<longleftrightarrow> (\<forall>n \<ge> clock d. env_ok (envs d n))"

text \<open>An entry of which memory and medium agree and whose content is synced.\<close>

definition settled :: "fsys \<Rightarrow> path \<Rightarrow> bool" where
  "settled s p \<longleftrightarrow> vol s p = dur s p \<and> (\<forall>f. vol s p = Some f \<longrightarrow> synced f)"

text \<open>An environment and a disk for witnesses: nothing fails, temporary files go to \<^verbatim>\<open>/tmp/t\<close>.\<close>

definition calm_env :: write_env where
  "calm_env = \<lparr>tmp_path = [''tmp'', ''t''], create_err = None, write_all_err = None, sync_err = None,
     rename_err = None, open_dir_err = None, sync_dir_err = None\<rparr>"

definition calm_disk :: "(path \<rightharpoonup> fs_file) \<Rightarrow> disk" where
  "calm_disk m = \<lparr>fs = \<lparr>vol = m, dur = m\<rparr>, envs = (\<lambda>_. calm_env), clock = 0\<rparr>"

section \<open>Lemmas\<close>

lemma calm_disk_ok [simp]: "env_ok calm_env" "fault_free (calm_disk m)"
  by (simp_all add: env_ok_def calm_env_def fault_free_def calm_disk_def)

lemma calm_disk_under: "disk_ok (''data'' # p) (calm_disk m)"
  by (simp add: disk_ok_def is_under_def calm_disk_def calm_env_def)

lemma is_under_join [simp]: "is_under root p \<Longrightarrow> is_under root (join p k)"
  by (auto simp: is_under_def take_Cons' dest!: arg_cong [where f = length])

lemma is_under_refl [simp]: "is_under root root"
  by (simp add: is_under_def)

lemmas fs_defs = fs_create_def fs_append_def fs_sync_def fs_rename_def fs_sync_dir_def

lemma write_in_eq:
  "write_in env dir key v s =
     (let t = tmp_path env;
          unsynced = (\<lambda>c. s\<lparr>vol := (vol s)(t \<mapsto> \<lparr>content = c, synced = False\<rparr>)\<rparr>);
          new = (vol s)(t := None, join dir key \<mapsto> \<lparr>content = v, synced = True\<rparr>) in
      case create_err env of Some e \<Rightarrow> (Inl e, s) | None \<Rightarrow>
      case write_all_err env of Some (e, n) \<Rightarrow> (Inl e, unsynced (take n v)) | None \<Rightarrow>
      case sync_err env of Some e \<Rightarrow> (Inl e, unsynced v) | None \<Rightarrow>
      case rename_err env of
        Some e \<Rightarrow> (Inl e, s\<lparr>vol := (vol s)(t \<mapsto> \<lparr>content = v, synced = True\<rparr>)\<rparr>) | None \<Rightarrow>
      case open_dir_err env of Some e \<Rightarrow> (Inl e, s\<lparr>vol := new\<rparr>) | None \<Rightarrow>
      case sync_dir_err env of Some e \<Rightarrow> (Inl e, s\<lparr>vol := new\<rparr>) | None \<Rightarrow>
      (Inr (), \<lparr>vol = new, dur = (\<lambda>p. if p \<noteq> [] \<and> butlast p = dir then new p else dur s p)\<rparr>))"
  by (cases s) (simp add: write_in_def fs_defs Let_def cong: if_cong split: option.split)

text \<open>Every outcome of \<open>write_in\<close> is one of three: nothing visible, new but not durable, new and durable.\<close>

lemma write_in_cases:
  assumes "write_in env dir key v s = (r, s')"
  obtains (unseen) e where "r = Inl e" and "dur s' = dur s"
      and "\<forall>p. p \<noteq> tmp_path env \<longrightarrow> vol s' p = vol s p"
  | (visible) e where "r = Inl e" and "dur s' = dur s"
      and "vol s' = (vol s)(tmp_path env := None, join dir key \<mapsto> \<lparr>content = v, synced = True\<rparr>)"
  | (durable) "r = Inr ()"
      and "vol s' = (vol s)(tmp_path env := None, join dir key \<mapsto> \<lparr>content = v, synced = True\<rparr>)"
      and "dur s' = (\<lambda>p. if p \<noteq> [] \<and> butlast p = dir then vol s' p else dur s p)"
proof -
  from assms consider
    "\<exists>e. r = Inl e \<and> dur s' = dur s \<and> (\<forall>p. p \<noteq> tmp_path env \<longrightarrow> vol s' p = vol s p)"
  | "\<exists>e. r = Inl e \<and> dur s' = dur s \<and>
       vol s' = (vol s)(tmp_path env := None, join dir key \<mapsto> \<lparr>content = v, synced = True\<rparr>)"
  | "r = Inr () \<and>
       vol s' = (vol s)(tmp_path env := None, join dir key \<mapsto> \<lparr>content = v, synced = True\<rparr>) \<and>
       dur s' = (\<lambda>p. if p \<noteq> [] \<and> butlast p = dir then vol s' p else dur s p)"
    by (fastforce simp: write_in_eq Let_def split: option.splits prod.splits)
  then show ?thesis
    by cases (auto intro: that)
qed

subsection \<open>What a reader sees after a write\<close>

lemma write_file_frame:
  assumes "write_file dir key v d = (r, d')"
  shows "envs d' = envs d" and "clock d' = Suc (clock d)"
  using assms by (auto simp: write_file_def split: prod.splits)

lemma write_file_disk_ok: "write_file dir key v d = (r, d') \<Longrightarrow> disk_ok root d' \<longleftrightarrow> disk_ok root d"
  by (simp add: disk_ok_def write_file_frame)

lemma write_file_fault_free:
  assumes "write_file dir key v d = (r, d')" and "fault_free d"
  shows "r = Inr ()" and "fault_free d'"
proof -
  have "env_ok (envs d (clock d))"
    using assms(2) by (simp add: fault_free_def)
  then have "fst (write_in (envs d (clock d)) dir key v (fs d)) = Inr ()"
    by (simp add: write_in_eq env_ok_def Let_def)
  with assms(1) show "r = Inr ()"
    by (auto simp: write_file_def split: prod.splits)
  from assms show "fault_free d'"
    by (simp add: fault_free_def write_file_frame)
qed

lemma write_file_elim:
  assumes "write_file dir key v d = (r, d')"
  obtains s where "write_in (envs d (clock d)) dir key v (fs d) = (r, s)" and "fs d' = s"
  using assms by (auto simp: write_file_def split: prod.splits)

lemma read_file_write_same:
  assumes w: "write_file dir key v d = (r, d')" and "disk_ok root d" and "is_under root dir"
  shows "r = Inr () \<Longrightarrow> read_file dir key d' = Some v"
    and "read_file dir key d' = read_file dir key d \<or> read_file dir key d' = Some v"
proof -
  from w obtain s where s: "write_in (envs d (clock d)) dir key v (fs d) = (r, s)" "fs d' = s"
    by (rule write_file_elim)
  have t: "tmp_path (envs d (clock d)) \<noteq> join dir key"
    using assms(2,3) is_under_join [of root dir key] unfolding disk_ok_def by metis
  from s(1) have "(r = Inr () \<longrightarrow> read_file dir key d' = Some v) \<and>
      (read_file dir key d' = read_file dir key d \<or> read_file dir key d' = Some v)"
    by (cases rule: write_in_cases) (use t s(2) in \<open>auto simp: read_file_def\<close>)
  then show "r = Inr () \<Longrightarrow> read_file dir key d' = Some v"
    and "read_file dir key d' = read_file dir key d \<or> read_file dir key d' = Some v"
    by auto
qed

lemma read_file_write_other:
  assumes w: "write_file dir key v d = (r, d')" and "disk_ok root d" and "is_under root dir'"
    and "join dir' key' \<noteq> join dir key"
  shows "read_file dir' key' d' = read_file dir' key' d"
proof -
  from w obtain s where s: "write_in (envs d (clock d)) dir key v (fs d) = (r, s)" "fs d' = s"
    by (rule write_file_elim)
  have t: "tmp_path (envs d (clock d)) \<noteq> join dir' key'"
    using assms(2,3) is_under_join [of root dir' key'] unfolding disk_ok_def by metis
  from s(1) show ?thesis
    by (cases rule: write_in_cases) (use t assms(4) s(2) in \<open>auto simp: read_file_def\<close>)
qed

subsection \<open>Power loss\<close>

lemma crash_settled: "crash s s' \<Longrightarrow> settled s p \<Longrightarrow> vol s' p = vol s p"
  by (auto simp: crash_def crash_entry_def settled_def split: option.splits if_splits; force)

text \<open>
  C6. A \<^verbatim>\<open>write\<close> interrupted by a power loss at any point, or failing in any system call, leaves the
  old or the new content under its key, never a mixture or a prefix; if it returned \<^verbatim>\<open>Ok\<close> the new
  content survives the power loss; every other settled file is untouched.
\<close>

theorem write_crash_atomic:
  assumes "write_in env dir key v s = (r, s')" and "crash s' s''"
    and "settled s (join dir key)" and "tmp_path env \<noteq> join dir key"
  shows "map_option content (vol s'' (join dir key))
           \<in> {map_option content (vol s (join dir key)), Some v} \<and>
    (r = Inr () \<longrightarrow> map_option content (vol s'' (join dir key)) = Some v) \<and>
    (\<forall>p. settled s p \<longrightarrow> p \<noteq> join dir key \<longrightarrow> p \<noteq> tmp_path env \<longrightarrow> vol s'' p = vol s p)"
  using assms(1)
proof (cases rule: write_in_cases)
  case unseen
  then have "settled s' p" if "settled s p" "p \<noteq> tmp_path env" for p
    using that by (simp add: settled_def)
  then show ?thesis
    using unseen assms(3,4) crash_settled [OF assms(2)] by auto
next
  case visible
  have "settled s' p" if "settled s p" "p \<noteq> join dir key" "p \<noteq> tmp_path env" for p
    using that visible by (simp add: settled_def)
  moreover have "crash_entry (Some \<lparr>content = v, synced = True\<rparr>) (vol s (join dir key)) (vol s'' (join dir key))"
  proof -
    have "crash_entry (vol s' (join dir key)) (dur s' (join dir key)) (vol s'' (join dir key))"
      using assms(2) by (simp add: crash_def)
    moreover have "dur s' (join dir key) = vol s (join dir key)"
      using visible assms(3) by (simp add: settled_def)
    ultimately show ?thesis using visible by simp
  qed
  moreover have "\<forall>f. vol s (join dir key) = Some f \<longrightarrow> synced f"
    using assms(3) by (simp add: settled_def)
  ultimately show ?thesis
    using visible crash_settled [OF assms(2)]
    by (auto simp: crash_entry_def split: option.splits)
next
  case durable
  have "settled s' p" if "settled s p" "p \<noteq> tmp_path env" for p
    using that durable by (auto simp: settled_def)
  then show ?thesis
    using assms(3,4) durable crash_settled [OF assms(2)] by auto
qed

theorem write_crash_atomic_witness:
  "let s = \<lparr>vol = [[''data'', ''7''] \<mapsto> \<lparr>content = [1], synced = True\<rparr>],
            dur = [[''data'', ''7''] \<mapsto> \<lparr>content = [1], synced = True\<rparr>]\<rparr>;
       s' = snd (write_in (calm_env\<lparr>sync_dir_err := Some OtherError\<rparr>) [''data''] ''7'' [2, 3] s) in
   \<forall>s''. crash s' s'' \<longrightarrow> map_option content (vol s'' [''data'', ''7'']) \<in> {Some [1], Some [2, 3]}"
proof -
  define s where "s = \<lparr>vol = [[''data'', ''7''] \<mapsto> \<lparr>content = [1], synced = True\<rparr>],
            dur = [[''data'', ''7''] \<mapsto> \<lparr>content = [1 :: u8], synced = True\<rparr>]\<rparr>"
  define env where "env = calm_env\<lparr>sync_dir_err := Some OtherError\<rparr>"
  have "settled s (join [''data''] ''7'')" "tmp_path env \<noteq> join [''data''] ''7''"
    by (simp_all add: s_def settled_def env_def calm_env_def)
  then have "crash (snd (write_in env [''data''] ''7'' [2, 3] s)) s'' \<Longrightarrow>
      map_option content (vol s'' (join [''data''] ''7''))
        \<in> {map_option content (vol s (join [''data''] ''7'')), Some [2, 3]}" for s''
    using write_crash_atomic [of env "[''data'']" "''7''" "[2, 3]" s, OF surjective_pairing] by blast
  then show ?thesis by (simp add: Let_def s_def env_def)
qed

section \<open>Contract of the trait\<close>

locale stable_storage_contract =
  fixes put_op :: "string \<Rightarrow> bytes \<Rightarrow> 'w \<Rightarrow> unit io \<times> 'w"
    and get_op :: "string \<Rightarrow> 'w \<Rightarrow> bytes option"
    and inv :: "'w \<Rightarrow> bool"
  assumes put_inv: "inv w \<Longrightarrow> put_op k v w = (r, w') \<Longrightarrow> inv w'"
    and put_ok: "inv w \<Longrightarrow> put_op k v w = (Inr (), w') \<Longrightarrow> get_op k w' = Some v"
    and put_err: "inv w \<Longrightarrow> put_op k v w = (r, w') \<Longrightarrow> get_op k w' = get_op k w \<or> get_op k w' = Some v"
    and put_other: "inv w \<Longrightarrow> put_op k v w = (r, w') \<Longrightarrow> k' \<noteq> k \<Longrightarrow> get_op k' w' = get_op k' w"
begin

fun puts :: "(string \<times> bytes) list \<Rightarrow> 'w \<Rightarrow> 'w" where
  "puts [] w = w"
| "puts ((k, v) # kvs) w = puts kvs (snd (put_op k v w))"

lemma get_puts:
  "inv w \<Longrightarrow> get_op k (puts kvs w) \<in> insert (get_op k w) {Some v |v. (k, v) \<in> set kvs}"
proof (induction kvs arbitrary: w)
  case Nil
  then show ?case by simp
next
  case (Cons kv kvs)
  obtain k' v' where kv: "kv = (k', v')" by (cases kv)
  obtain r w' where p: "put_op k' v' w = (r, w')" by (cases "put_op k' v' w")
  have "get_op k (puts kvs w') \<in> insert (get_op k w') {Some v |v. (k, v) \<in> set kvs}"
    using put_inv [OF Cons.prems p] by (rule Cons.IH)
  moreover have "get_op k w' = get_op k w \<or> k = k' \<and> get_op k w' = Some v'"
    using put_err [OF Cons.prems p] put_other [OF Cons.prems p] by metis
  ultimately show ?case using kv p by auto
qed

end

interpretation ss: stable_storage_contract "put st" "get st" "disk_ok (ss_dir st)"
  for st :: StableStorageImplementation
proof (unfold_locales, goal_cases)
  case 1
  then show ?case by (simp add: put_def write_file_disk_ok)
next
  case 2
  then show ?case
    by (simp add: put_def get_def read_file_write_same(1) [where root = "ss_dir st"])
next
  case 3
  then show ?case
    by (simp add: put_def get_def read_file_write_same(2) [where root = "ss_dir st"])
next
  case 4
  then show ?case
    by (simp add: put_def get_def read_file_write_other [where root = "ss_dir st"])
qed

end
