(* ===== verification/Sectors_Manager.thy ===== *)
theory Sectors_Manager
  imports Domain Stable_Storage
begin

text \<open>
  Sector storage: \<^verbatim>\<open>solution/src/sectors_manager.rs\<close>. Sector \<open>i\<close> lives in the file named \<open>i\<close> of the storage
  directory; its timestamp and write rank are one 17-byte entry of a numbered file under
  \<^verbatim>\<open>metadata/\<close>, at a place recorded in \<open>metadata_info_map\<close>. \<open>None\<close> as the result of an operation is a
  panic (an index out of range); the loop of \<^verbatim>\<open>new\<close> is a partial function, so there \<open>None\<close> is
  divergence and \<open>Some None\<close> a panic. The representation invariant \<open>sm_rep\<close> ties the map, the total
  size and the metadata files to one list of entries; \<open>sectors_manager_contract\<close> is what the trait
  promises its clients.
\<close>

section \<open>Definitions\<close>

definition METADATA_SIZE :: nat where
  "METADATA_SIZE = 8 + 8 + 1"

definition METADATA :: string where
  "METADATA = ''metadata''"

definition METADATAS_PER_FILE :: nat where
  "METADATAS_PER_FILE = SECTOR_VEC_SIZE div METADATA_SIZE"

definition METADATAS_FILE_SIZE :: nat where
  "METADATAS_FILE_SIZE = METADATAS_PER_FILE * METADATA_SIZE"

definition get_metadata_info :: "bytes \<Rightarrow> nat \<Rightarrow> (SectorIdx \<times> u64 \<times> u8) option" where
  "get_metadata_info vec offset =
     (if offset + 8 \<le> length vec \<and> offset + 16 \<le> length vec \<and> offset + METADATA_SIZE - 1 < length vec
      then Some (u64_from_be_bytes (take 8 (drop offset vec)),
                 u64_from_be_bytes (take 8 (drop (offset + 8) vec)),
                 vec ! (offset + METADATA_SIZE - 1))
      else None)"

type_synonym info_map = "SectorIdx \<rightharpoonup> (string \<times> nat)"

record SectorsManagerImplementation =
  sm_path :: path
  metadata_path :: path
  metadata_info_map :: info_map
  metadata_total_size :: nat

text \<open>\<^verbatim>\<open>(0..n).step_by(k)\<close>\<close>

definition step_by :: "nat \<Rightarrow> nat \<Rightarrow> nat list" where
  "step_by n k = map (\<lambda>i. i * k) [0..<(n + k - 1) div k]"

fun load_entries :: "bytes \<Rightarrow> string \<Rightarrow> nat list \<Rightarrow> info_map \<Rightarrow> info_map option" where
  "load_entries vec fname [] m = Some m"
| "load_entries vec fname (offset # offsets) m =
     (case get_metadata_info vec offset of
        None \<Rightarrow> None
      | Some (idx, _, _) \<Rightarrow> load_entries vec fname offsets (m(idx \<mapsto> (fname, offset))))"

partial_function (option) load_metadata ::
    "path \<Rightarrow> disk \<Rightarrow> nat \<Rightarrow> nat \<Rightarrow> info_map \<Rightarrow> (info_map \<times> nat) option option" where
  "load_metadata mpath d file_number tsize m =
     (case read_file mpath (to_string file_number) d of
        None \<Rightarrow> Some (Some (m, tsize))
      | Some vec \<Rightarrow>
          (case load_entries vec (to_string file_number) (step_by (length vec) METADATA_SIZE) m of
             None \<Rightarrow> Some None
           | Some m' \<Rightarrow> load_metadata mpath d (Suc file_number) (tsize + length vec) m'))"

definition SectorsManagerImplementation_new ::
    "path \<Rightarrow> disk \<Rightarrow> SectorsManagerImplementation option option" where
  "SectorsManagerImplementation_new p d =
     map_option (map_option (\<lambda>(m, tsize). \<lparr>sm_path = p, metadata_path = join p METADATA,
       metadata_info_map = m, metadata_total_size = tsize\<rparr>))
     (load_metadata (join p METADATA) d 0 0 Map.empty)"

definition read_data :: "SectorsManagerImplementation \<Rightarrow> disk \<Rightarrow> SectorIdx \<Rightarrow> SectorVec" where
  "read_data sm d idx =
     (case metadata_info_map sm idx of
        None \<Rightarrow> SectorVec_new
      | Some _ \<Rightarrow>
          (case read_file (sm_path sm) (to_string (unat idx)) d of
             None \<Rightarrow> SectorVec_new
           | Some vec \<Rightarrow> vec))"

definition read_metadata :: "SectorsManagerImplementation \<Rightarrow> disk \<Rightarrow> SectorIdx \<Rightarrow> (u64 \<times> u8) option" where
  "read_metadata sm d idx =
     (case metadata_info_map sm idx of
        None \<Rightarrow> Some (0, 0)
      | Some (filename, offset) \<Rightarrow>
          (case read_file (metadata_path sm) filename d of
             None \<Rightarrow> Some (0, 0)
           | Some vec \<Rightarrow> map_option snd (get_metadata_info vec offset)))"

text \<open>\<^verbatim>\<open>for i in offset..offset + METADATA_SIZE { val[i] = metadata_vec[i - offset]; }\<close>\<close>

fun overwrite :: "nat \<Rightarrow> bytes \<Rightarrow> nat list \<Rightarrow> bytes \<Rightarrow> bytes option" where
  "overwrite offset mv [] val = Some val"
| "overwrite offset mv (i # is) val =
     (if i < length val \<and> i - offset < length mv
      then overwrite offset mv is (val[i := mv ! (i - offset)]) else None)"

definition metadata_place :: "SectorsManagerImplementation \<Rightarrow> SectorIdx \<Rightarrow> string \<times> nat" where
  "metadata_place sm idx =
     (case metadata_info_map sm idx of
        None \<Rightarrow> (to_string (metadata_total_size sm div METADATAS_FILE_SIZE),
                 metadata_total_size sm mod METADATAS_FILE_SIZE)
      | Some fo \<Rightarrow> fo)"

definition updated_metadata :: "bytes \<Rightarrow> nat \<Rightarrow> bytes \<Rightarrow> bytes option" where
  "updated_metadata val offset metadata_vec =
     (if offset = length val then Some (val @ metadata_vec)
      else overwrite offset metadata_vec [offset..<offset + METADATA_SIZE] val)"

text \<open>The block of \<^verbatim>\<open>write\<close> that runs under the two locks.\<close>

definition write_metadata ::
    "SectorIdx \<Rightarrow> bytes \<Rightarrow> SectorsManagerImplementation \<Rightarrow> disk
     \<Rightarrow> (SectorsManagerImplementation \<times> disk) option" where
  "write_metadata idx metadata_vec sm d =
     (let (filename, offset) = metadata_place sm idx;
          val = (case read_file (metadata_path sm) filename d of None \<Rightarrow> [] | Some vec \<Rightarrow> vec)
      in case updated_metadata val offset metadata_vec of
           None \<Rightarrow> None
         | Some val \<Rightarrow>
             (case write_file (metadata_path sm) filename val d of
                (Inl _, d) \<Rightarrow> Some (sm, d)
              | (Inr _, d) \<Rightarrow>
                  Some (if metadata_info_map sm idx \<noteq> None then sm
                        else sm\<lparr>metadata_info_map := (metadata_info_map sm)(idx \<mapsto> (filename, offset)),
                                metadata_total_size := metadata_total_size sm + METADATA_SIZE\<rparr>, d)))"

fun sm_write ::
    "SectorIdx \<Rightarrow> SectorVec \<times> u64 \<times> u8 \<Rightarrow> SectorsManagerImplementation \<times> disk
     \<Rightarrow> (SectorsManagerImplementation \<times> disk) option" where
  "sm_write idx (data, timestamp, write_rank) (sm, d) =
     (case write_file (sm_path sm) (to_string (unat idx)) data d of
        (Inl _, d) \<Rightarrow> Some (sm, d)
      | (Inr _, d) \<Rightarrow>
          write_metadata idx (u64_to_be_bytes idx @ u64_to_be_bytes timestamp @ [write_rank]) sm d)"

section \<open>Representation\<close>

type_synonym entry = "SectorIdx \<times> u64 \<times> u8"

definition enc :: "entry \<Rightarrow> bytes" where
  "enc e = u64_to_be_bytes (fst e) @ u64_to_be_bytes (fst (snd e)) @ [snd (snd e)]"

text \<open>The place of entry \<open>i\<close>, the map of the first \<open>n\<close> entries, and the content of file \<open>k\<close>.\<close>

definition loc :: "nat \<Rightarrow> string \<times> nat" where
  "loc i = (to_string (i div METADATAS_PER_FILE), (i mod METADATAS_PER_FILE) * METADATA_SIZE)"

definition info_of :: "entry list \<Rightarrow> nat \<Rightarrow> info_map" where
  "info_of es n = map_of (map (\<lambda>i. (fst (es ! i), loc i)) [0..<n])"

definition chunk :: "entry list \<Rightarrow> nat \<Rightarrow> entry list" where
  "chunk es k = take METADATAS_PER_FILE (drop (k * METADATAS_PER_FILE) es)"

definition sm_rep :: "path \<Rightarrow> entry list \<Rightarrow> SectorsManagerImplementation \<times> disk \<Rightarrow> bool" where
  "sm_rep root es smd \<longleftrightarrow> (case smd of (sm, d) \<Rightarrow>
     sm_path sm = root \<and> metadata_path sm = join root METADATA \<and> disk_ok root d \<and>
     distinct (map fst es) \<and> metadata_info_map sm = info_of es (length es) \<and>
     metadata_total_size sm = length es * METADATA_SIZE \<and>
     (\<forall>k. read_file (join root METADATA) (to_string k) d =
        (if k * METADATAS_PER_FILE < length es then Some (concat (map enc (chunk es k))) else None)))"

section \<open>Lemmas: entries\<close>

lemma METADATA_SIZE_eq: "METADATA_SIZE = 17"
  by (simp add: METADATA_SIZE_def)

lemma METADATAS_PER_FILE_pos [simp]: "0 < METADATAS_PER_FILE" "METADATAS_PER_FILE \<noteq> 0"
  by (simp_all add: METADATAS_PER_FILE_def METADATA_SIZE_def SECTOR_VEC_SIZE_def)

lemma METADATA_SIZE_pos [simp]: "0 < METADATA_SIZE" "METADATA_SIZE \<noteq> 0"
  by (simp_all add: METADATA_SIZE_def)

lemma length_enc [simp]: "length (enc e) = METADATA_SIZE"
  by (simp add: enc_def METADATA_SIZE_def)

lemma length_entries: "length (concat (map enc es)) = length es * METADATA_SIZE"
  by (rule length_concat_fixed) simp

lemma get_metadata_info_append:
  "get_metadata_info (pre @ enc e @ post) (length pre) = Some e"
  by (cases e) (simp add: get_metadata_info_def enc_def METADATA_SIZE_def nth_append)

lemma get_metadata_info_entry:
  assumes "j < length es"
  shows "get_metadata_info (concat (map enc es)) (j * METADATA_SIZE) = Some (es ! j)"
proof -
  have "length (concat (map enc (take j es))) = j * METADATA_SIZE"
    using assms by (simp add: length_entries)
  then show ?thesis
    using concat_split_nth [OF assms, of enc] get_metadata_info_append by metis
qed

lemma overwrite_from:
  assumes "length old = length mv" and "k \<le> length mv"
  shows "overwrite (length pre) mv [length pre + k..<length pre + length mv]
           (pre @ take k mv @ drop k old @ post) = Some (pre @ mv @ post)"
  using assms(2)
proof (induction "length mv - k" arbitrary: k)
  case 0
  then show ?case using assms(1) by simp
next
  case (Suc n)
  then have k: "k < length mv" by simp
  have "(pre @ take k mv @ drop k old @ post)[length pre + k := mv ! k]
      = pre @ take (Suc k) mv @ drop (Suc k) old @ post"
    using k assms(1)
    by (simp add: list_update_append take_Suc_conv_app_nth Cons_nth_drop_Suc [symmetric])
  moreover have "[length pre + k..<length pre + length mv]
      = (length pre + k) # [length pre + Suc k..<length pre + length mv]"
    using k by (simp add: upt_conv_Cons)
  ultimately show ?case
    using Suc.hyps(1) [of "Suc k"] Suc.hyps(2) k assms(1) by simp
qed

lemma overwrite_entry:
  assumes "j < length es"
  shows "overwrite (j * METADATA_SIZE) (enc e) [j * METADATA_SIZE..<j * METADATA_SIZE + METADATA_SIZE]
           (concat (map enc es)) = Some (concat (map enc (es[j := e])))"
proof -
  let ?pre = "concat (map enc (take j es))"
  have len: "length ?pre = j * METADATA_SIZE"
    using assms by (simp add: length_entries)
  from overwrite_from [of "enc (es ! j)" "enc e" 0 ?pre "concat (map enc (drop (Suc j) es))"]
  show ?thesis
    by (simp add: len concat_split_nth [OF assms, of enc] concat_list_update [OF assms, of enc])
qed

section \<open>Lemmas: places of entries\<close>

lemma length_chunk: "length (chunk es k) = min METADATAS_PER_FILE (length es - k * METADATAS_PER_FILE)"
  by (simp add: chunk_def)

lemma chunk_file_exists: "i < length es \<Longrightarrow> i div METADATAS_PER_FILE * METADATAS_PER_FILE < length es"
  by (meson div_times_less_eq_dividend le_less_trans)

lemma chunk_nth:
  "i < length es \<Longrightarrow> chunk es (i div METADATAS_PER_FILE) ! (i mod METADATAS_PER_FILE) = es ! i"
  using chunk_file_exists [of i es] by (simp add: chunk_def less_imp_le)

lemma chunk_index_less:
  assumes "i < length es"
  shows "i mod METADATAS_PER_FILE < length (chunk es (i div METADATAS_PER_FILE))"
proof -
  have "i mod METADATAS_PER_FILE + i div METADATAS_PER_FILE * METADATAS_PER_FILE < length es"
    using assms by simp
  then show ?thesis by (simp add: length_chunk less_diff_conv del: mod_mult_self4)
qed

lemma info_of_None: "info_of es n idx = None \<longleftrightarrow> (\<forall>i < n. fst (es ! i) \<noteq> idx)"
  by (auto simp: info_of_def map_of_eq_None_iff image_image)

lemma info_of_Some:
  "info_of es n idx = Some l \<Longrightarrow> \<exists>i < n. fst (es ! i) = idx \<and> l = loc i"
  unfolding info_of_def by (drule map_of_SomeD) auto

lemma info_of_Suc:
  assumes "distinct (map fst es)" and "n < length es"
  shows "info_of es (Suc n) = (info_of es n)(fst (es ! n) \<mapsto> loc n)"
proof -
  have "info_of es n (fst (es ! n)) = None"
    using assms nth_eq_iff_index_eq [OF assms(1)] by (auto simp: info_of_None)
  then show ?thesis
    by (auto simp: info_of_def map_add_def fun_eq_iff split: option.splits)
qed

lemma info_of_cong: "(\<And>i. i < n \<Longrightarrow> fst (es ! i) = fst (es' ! i)) \<Longrightarrow> info_of es n = info_of es' n"
  unfolding info_of_def by (rule arg_cong [where f = map_of]) simp

lemma info_of_nth:
  "distinct (map fst es) \<Longrightarrow> i < n \<Longrightarrow> n \<le> length es \<Longrightarrow> info_of es n (fst (es ! i)) = Some (loc i)"
proof (induction n)
  case 0
  then show ?case by simp
next
  case (Suc n)
  then have "i \<noteq> n \<Longrightarrow> fst (es ! i) \<noteq> fst (es ! n)"
    using nth_eq_iff_index_eq [of "map fst es" i n] by simp
  with Suc show ?case by (cases "i = n") (auto simp: info_of_Suc)
qed

section \<open>Lemmas: reading and recovery\<close>

lemma sm_repD:
  assumes "sm_rep root es (sm, d)"
  shows "sm_path sm = root" and "metadata_path sm = join root METADATA" and "disk_ok root d"
    and "distinct (map fst es)" and "metadata_info_map sm = info_of es (length es)"
    and "metadata_total_size sm = length es * METADATA_SIZE"
    and "k * METADATAS_PER_FILE < length es \<Longrightarrow>
      read_file (join root METADATA) (to_string k) d = Some (concat (map enc (chunk es k)))"
    and "length es \<le> k * METADATAS_PER_FILE \<Longrightarrow>
      read_file (join root METADATA) (to_string k) d = None"
  using assms by (auto simp: sm_rep_def)

lemma read_metadata_entry:
  assumes "sm_rep root es (sm, d)" and "i < length es" and "fst (es ! i) = idx"
  shows "read_metadata sm d idx = Some (snd (es ! i))"
  using assms(2,3) chunk_nth [of i es] chunk_index_less [of i es]
    sm_repD [OF assms(1)] info_of_nth [of es i "length es"] chunk_file_exists [of i es]
  by (auto simp: read_metadata_def loc_def get_metadata_info_entry)

lemma read_metadata_absent:
  assumes "sm_rep root es (sm, d)" and "idx \<notin> fst ` set es"
  shows "read_metadata sm d idx = Some (0, 0)" and "read_data sm d idx = SectorVec_new"
proof -
  have "metadata_info_map sm idx = None"
    using assms(2) sm_repD(5) [OF assms(1)] by (auto simp: info_of_None)
  then show "read_metadata sm d idx = Some (0, 0)" and "read_data sm d idx = SectorVec_new"
    by (simp_all add: read_metadata_def read_data_def)
qed

lemma load_entries_append:
  "load_entries vec f (xs @ ys) m = Option.bind (load_entries vec f xs m) (load_entries vec f ys)"
  by (induction xs arbitrary: m) (auto split: option.split)

lemma step_by_entries: "step_by (n * METADATA_SIZE) METADATA_SIZE = map (\<lambda>i. i * METADATA_SIZE) [0..<n]"
proof -
  have "(n * METADATA_SIZE + METADATA_SIZE - 1) div METADATA_SIZE = n"
    by (simp add: METADATA_SIZE_def)
  then show ?thesis by (simp add: step_by_def)
qed

lemma load_entries_chunk:
  assumes "distinct (map fst es)" and "m \<le> length (chunk es k)"
  shows "load_entries (concat (map enc (chunk es k))) (to_string k) (map (\<lambda>i. i * METADATA_SIZE) [0..<m])
           (info_of es (k * METADATAS_PER_FILE)) = Some (info_of es (k * METADATAS_PER_FILE + m))"
  using assms(2)
proof (induction m)
  case 0
  then show ?case by simp
next
  case (Suc m)
  let ?i = "k * METADATAS_PER_FILE + m"
  have m: "m < METADATAS_PER_FILE" "?i < length es"
    using Suc.prems by (auto simp: length_chunk)
  then have loc: "loc ?i = (to_string k, m * METADATA_SIZE)"
    by (simp add: loc_def)
  have "chunk es k ! m = es ! ?i"
    using chunk_nth [of ?i es] m by simp
  then have "get_metadata_info (concat (map enc (chunk es k))) (m * METADATA_SIZE) = Some (es ! ?i)"
    using get_metadata_info_entry [of m "chunk es k"] Suc.prems by simp
  then show ?case
    using Suc info_of_Suc [OF assms(1) m(2)]
    by (cases "es ! ?i") (simp add: load_entries_append loc fun_upd_def)
qed

lemma load_metadata_rep:
  assumes "sm_rep root es (sm, d)"
  shows "load_metadata (join root METADATA) d k
      (min (k * METADATAS_PER_FILE) (length es) * METADATA_SIZE)
      (info_of es (min (k * METADATAS_PER_FILE) (length es)))
    = Some (Some (info_of es (length es), length es * METADATA_SIZE))"
proof (induction "length es - k * METADATAS_PER_FILE" arbitrary: k rule: less_induct)
  case less
  note rep = sm_repD [OF assms]
  show ?case
  proof (cases "k * METADATAS_PER_FILE < length es")
    case False
    then show ?thesis
      by (subst load_metadata.simps) (simp add: rep(8))
  next
    case True
    let ?n = "length (chunk es k)"
    have n: "k * METADATAS_PER_FILE + ?n = min (Suc k * METADATAS_PER_FILE) (length es)"
      using True by (simp add: length_chunk)
    have "length es - Suc k * METADATAS_PER_FILE < length es - k * METADATAS_PER_FILE"
      using True by (intro diff_less_mono2) simp_all
    from less [OF this] show ?thesis
      using True load_entries_chunk [OF rep(4) order_refl, of k]
      by (subst load_metadata.simps)
        (simp add: rep(7) length_entries step_by_entries n add_mult_distrib [symmetric]
          less_imp_le min_absorb1 del: mult_Suc)
  qed
qed

lemma new_rep:
  assumes "sm_rep root es (sm, d)"
  shows "SectorsManagerImplementation_new root d = Some (Some sm)"
  using load_metadata_rep [OF assms, of 0] sm_repD [OF assms]
  by (simp add: SectorsManagerImplementation_new_def info_of_def)

section \<open>Lemmas: writing\<close>

text \<open>What a write does to the list of entries: replace the sector's entry, or append one.\<close>

definition upsert :: "entry list \<Rightarrow> entry \<Rightarrow> entry list" where
  "upsert es e = (if fst e \<in> fst ` set es
     then map (\<lambda>x. if fst x = fst e then e else x) es else es @ [e])"

lemma upsert_update:
  assumes "distinct (map fst es)" and "i < length es" and "fst (es ! i) = fst e"
  shows "upsert es e = es[i := e]"
proof (rule nth_equalityI)
  have mem: "fst e \<in> fst ` set es"
    using assms(2,3) by (metis image_eqI nth_mem)
  then show "length (upsert es e) = length (es[i := e])"
    by (simp add: upsert_def)
  fix j
  assume "j < length (upsert es e)"
  then have "j < length es" using mem by (simp add: upsert_def)
  moreover from this have "fst (es ! j) = fst (es ! i) \<longleftrightarrow> j = i"
    using assms(1,2) nth_eq_iff_index_eq [of "map fst es" j i] by simp
  ultimately show "upsert es e ! j = es[i := e] ! j"
    using mem assms(2,3) by (auto simp: upsert_def nth_list_update)
qed

lemma upsert_append: "fst e \<notin> fst ` set es \<Longrightarrow> upsert es e = es @ [e]"
  by (simp add: upsert_def)

lemma distinct_upsert: "distinct (map fst es) \<Longrightarrow> distinct (map fst (upsert es e))"
proof (cases "fst e \<in> fst ` set es")
  case True
  assume "distinct (map fst es)"
  moreover have "map fst (upsert es e) = map fst es"
    using True by (auto simp: upsert_def)
  ultimately show ?thesis by simp
qed (simp add: upsert_append)

lemma chunk_update:
  assumes "i < length es"
  shows "chunk (es[i := e]) k = (if k = i div METADATAS_PER_FILE
           then (chunk es k)[i mod METADATAS_PER_FILE := e] else chunk es k)"
proof -
  let ?P = METADATAS_PER_FILE
  consider "k = i div ?P" | "i < k * ?P" | "k * ?P + ?P \<le> i"
    by (metis METADATAS_PER_FILE_pos(1) add.commute div_less_iff_less_mult less_mult_imp_div_less
        linorder_not_le mult_Suc not_less_eq nat_neq_iff)
  then show ?thesis
  proof cases
    case 1
    then have "i - k * ?P = i mod ?P"
      by (simp add: minus_div_mult_eq_mod)
    with 1 show ?thesis
      by (simp add: chunk_def drop_update_swap take_update_swap)
  next
    case 2
    then have "k \<noteq> i div ?P"
      by (metis div_times_less_eq_dividend leD)
    with 2 show ?thesis by (simp add: chunk_def drop_update_cancel)
  next
    case 3
    then have "k \<noteq> i div ?P"
      by (metis METADATAS_PER_FILE_pos(1) add.commute dividend_less_div_times leD mult.commute)
    with 3 show ?thesis by (simp add: chunk_def drop_update_swap)
  qed
qed

lemma chunk_append:
  "chunk (es @ [e]) k = (if k = length es div METADATAS_PER_FILE then chunk es k @ [e] else chunk es k)"
proof -
  let ?P = METADATAS_PER_FILE
  consider "k = length es div ?P" | "length es < k * ?P" | "k * ?P + ?P \<le> length es"
    by (metis METADATAS_PER_FILE_pos(1) add.commute div_less_iff_less_mult less_mult_imp_div_less
        linorder_not_le mult_Suc not_less_eq nat_neq_iff)
  then show ?thesis
  proof cases
    case 1
    then have "length es - k * ?P = length es mod ?P"
      by (simp add: minus_div_mult_eq_mod)
    then have "length es - k * ?P < ?P" by simp
    with 1 show ?thesis by (simp add: chunk_def take_Cons')
  next
    case 2
    then have "k \<noteq> length es div ?P"
      by (metis div_times_less_eq_dividend leD)
    with 2 show ?thesis by (simp add: chunk_def)
  next
    case 3
    then have "k \<noteq> length es div ?P"
      by (metis METADATAS_PER_FILE_pos(1) add.commute dividend_less_div_times leD mult.commute)
    with 3 show ?thesis by (simp add: chunk_def)
  qed
qed

lemma enc_alt: "u64_to_be_bytes idx @ u64_to_be_bytes ts @ [wr] = enc (idx, ts, wr)"
  by (simp add: enc_def)

text \<open>
  \<open>placed es es' k fo val e\<close>: storing the encoded entry \<open>e\<close> at \<open>fo\<close> in the file content \<open>val\<close>, as
  \<open>sm_write\<close> does, gives file \<open>k\<close> of the new entries and leaves all other files alone.
\<close>

definition placed :: "entry list \<Rightarrow> entry list \<Rightarrow> nat \<Rightarrow> string \<times> nat \<Rightarrow> bytes \<Rightarrow> entry \<Rightarrow> bool" where
  "placed es es' k fo val e \<longleftrightarrow>
     fst fo = to_string k \<and> k * METADATAS_PER_FILE < length es' \<and>
     updated_metadata val (snd fo) (enc e) = Some (concat (map enc (chunk es' k))) \<and>
     (\<forall>j. j \<noteq> k \<longrightarrow> chunk es' j = chunk es j \<and>
        (j * METADATAS_PER_FILE < length es' \<longleftrightarrow> j * METADATAS_PER_FILE < length es))"

lemma placed_update:
  assumes "i < length es" and "val = concat (map enc (chunk es (i div METADATAS_PER_FILE)))"
  shows "placed es (es[i := e]) (i div METADATAS_PER_FILE) (loc i) val e"
  using assms chunk_index_less [OF assms(1)] overwrite_entry [OF chunk_index_less [OF assms(1)]]
    chunk_file_exists [OF assms(1)]
  by (simp add: placed_def updated_metadata_def loc_def length_entries chunk_update)

lemma placed_append:
  assumes "val = concat (map enc (chunk es (length es div METADATAS_PER_FILE)))"
  shows "placed es (es @ [e]) (length es div METADATAS_PER_FILE) (loc (length es)) val e"
proof -
  have "length val = length es mod METADATAS_PER_FILE * METADATA_SIZE"
    using assms mod_less_divisor [of METADATAS_PER_FILE "length es"]
    by (simp add: length_entries length_chunk minus_div_mult_eq_mod min.absorb2 less_imp_le)
  moreover have "j * METADATAS_PER_FILE = length es \<Longrightarrow> j = length es div METADATAS_PER_FILE" for j
    by (metis METADATAS_PER_FILE_pos(2) nonzero_mult_div_cancel_right)
  moreover have "length es div METADATAS_PER_FILE * METADATAS_PER_FILE \<le> length es"
    by (rule div_times_less_eq_dividend)
  ultimately show ?thesis
    using assms
    by (auto simp: placed_def updated_metadata_def loc_def chunk_append less_Suc_eq_le le_less)
qed

lemma info_of_update:
  "i < length es \<Longrightarrow> fst (es ! i) = fst e \<Longrightarrow>
     info_of (es[i := e]) (length es) = info_of es (length es)"
  by (rule info_of_cong) (auto simp: nth_list_update)

lemma info_of_append:
  assumes "distinct (map fst es)" and "fst e \<notin> fst ` set es"
  shows "info_of (es @ [e]) (Suc (length es)) = (info_of es (length es))(fst e \<mapsto> loc (length es))"
proof -
  have "info_of (es @ [e]) (length es) = info_of es (length es)"
    by (rule info_of_cong) (simp add: nth_append)
  moreover have "distinct (map fst (es @ [e]))"
    using assms by simp
  ultimately show ?thesis
    using info_of_Suc [of "es @ [e]" "length es"] by simp
qed

lemma next_place:
  "metadata_total_size sm = length es * METADATA_SIZE \<Longrightarrow>
     (to_string (metadata_total_size sm div METADATAS_FILE_SIZE),
      metadata_total_size sm mod METADATAS_FILE_SIZE) = loc (length es)"
  by (simp add: METADATAS_FILE_SIZE_def mult_mod_left loc_def)

text \<open>The two cases of a write: the sector has an entry, or it gets the next free place.\<close>

lemma write_place:
  assumes rep: "sm_rep root es (sm, d)" and e: "fst e = idx" and fo: "fo = metadata_place sm idx"
    and val: "val = (case read_file (join root METADATA) (fst fo) d of None \<Rightarrow> [] | Some vec \<Rightarrow> vec)"
  obtains k where "placed es (upsert es e) k fo val e"
    and "info_of (upsert es e) (length (upsert es e)) =
           (if metadata_info_map sm idx \<noteq> None then metadata_info_map sm
            else (metadata_info_map sm)(idx \<mapsto> fo))"
    and "length (upsert es e) =
           (if metadata_info_map sm idx \<noteq> None then length es else Suc (length es))"
proof (cases "metadata_info_map sm idx")
  case (Some l)
  note r = sm_repD [OF rep]
  obtain i where i: "i < length es" "fst (es ! i) = fst e" "l = loc i"
    using info_of_Some Some r(5) e by metis
  have "val = concat (map enc (chunk es (i div METADATAS_PER_FILE)))"
    using val fo Some i(3) r(7) chunk_file_exists [OF i(1)] by (simp add: metadata_place_def loc_def)
  from placed_update [OF i(1) this] show ?thesis
    using that [of "i div METADATAS_PER_FILE"] upsert_update [OF r(4) i(1,2)] fo Some i r(5)
      info_of_update [OF i(1,2)] by (simp add: metadata_place_def)
next
  case None
  note r = sm_repD [OF rep]
  have fresh: "fst e \<notin> fst ` set es"
  proof
    assume "fst e \<in> fst ` set es"
    then obtain i where "i < length es" "fst (es ! i) = fst e"
      by (auto simp: in_set_conv_nth)
    with info_of_nth [OF r(4), of i "length es"] None r(5) e show False by simp
  qed
  have fo': "fo = loc (length es)"
    using None fo next_place [OF r(6)] by (simp add: metadata_place_def)
  have "val = concat (map enc (chunk es (length es div METADATAS_PER_FILE)))"
  proof (cases "length es div METADATAS_PER_FILE * METADATAS_PER_FILE < length es")
    case True
    then show ?thesis using val fo' r(7) by (simp add: loc_def)
  next
    case False
    then show ?thesis using val fo' r(8) by (simp add: chunk_def loc_def)
  qed
  from placed_append [OF this] show ?thesis
    using that [of "length es div METADATAS_PER_FILE"] upsert_append [OF fresh] None fo' r(5) info_of_append [OF r(4) fresh] e by simp
qed

text \<open>
  The two halves of a write on a disk whose system calls succeed: the metadata block, for any disk
  on which the metadata files are those of the representation, and then the whole operation.
\<close>

lemma write_metadata_rep:
  assumes rep: "sm_rep root es (sm, d)" and ff: "fault_free d"
  obtains sm' d' where "write_metadata idx (enc (idx, ts, wr)) sm d = Some (sm', d')"
    and "sm_rep root (upsert es (idx, ts, wr)) (sm', d')" and "fault_free d'"
    and "\<And>i. read_file root i d' = read_file root i d" and "metadata_info_map sm' idx \<noteq> None"
proof -
  note r = sm_repD [OF rep]
  let ?M = "join root METADATA" and ?e = "(idx, ts, wr)"
  obtain f off where fo: "(f, off) = metadata_place sm idx" by (metis surj_pair)
  let ?es = "upsert es ?e" and ?fo = "(f, off)"
  let ?val = "case read_file ?M (fst ?fo) d of None \<Rightarrow> [] | Some vec \<Rightarrow> vec"
  let ?sm = "if metadata_info_map sm idx \<noteq> None then sm
      else sm\<lparr>metadata_info_map := (metadata_info_map sm)(idx \<mapsto> ?fo),
              metadata_total_size := metadata_total_size sm + METADATA_SIZE\<rparr>"
  obtain k where p: "placed es ?es k ?fo ?val ?e"
    and info: "info_of ?es (length ?es) =
      (if metadata_info_map sm idx \<noteq> None then metadata_info_map sm else (metadata_info_map sm)(idx \<mapsto> ?fo))"
    and len: "length ?es = (if metadata_info_map sm idx \<noteq> None then length es else Suc (length es))"
    by (rule write_place [OF rep fst_conv fo refl])
  let ?v = "concat (map enc (chunk ?es k))"
  have u: "updated_metadata (case read_file ?M f d of None \<Rightarrow> [] | Some vec \<Rightarrow> vec) off (enc ?e) = Some ?v"
    using p by (auto simp: placed_def)
  obtain d' where w: "write_file ?M f ?v d = (Inr (), d')"
    using write_file_fault_free(1) [OF _ ff] by (metis surj_pair)
  have M: "read_file ?M (to_string j) d' = (if j = k then Some ?v else read_file ?M (to_string j) d)" for j
    using read_file_write_same(1) [OF w r(3)] read_file_write_other [OF w r(3), of ?M "to_string j"] p
    by (auto simp: placed_def)
  show thesis
  proof (rule that [of ?sm d'])
    show "write_metadata idx (enc ?e) sm d = Some (?sm, d')"
      by (simp add: write_metadata_def fo [symmetric] r(2) u w)
    show "sm_rep root ?es (?sm, d')"
      using r p M info len distinct_upsert [OF r(4)] write_file_disk_ok [OF w]
      by (auto simp: sm_rep_def placed_def)
    show "fault_free d'" by (rule write_file_fault_free(2) [OF w ff])
    show "read_file root i d' = read_file root i d" for i
      using read_file_write_other [OF w r(3), of root i] by simp
  qed simp
qed

lemma sm_write_rep:
  assumes rep: "sm_rep root es (sm, d)" and ff: "fault_free d"
  obtains sm' d' where "sm_write idx (data, ts, wr) (sm, d) = Some (sm', d')"
    and "sm_rep root (upsert es (idx, ts, wr)) (sm', d')" and "fault_free d'"
    and "read_file root (to_string (unat idx)) d' = Some data"
    and "\<forall>j. j \<noteq> idx \<longrightarrow>
      read_file root (to_string (unat j)) d' = read_file root (to_string (unat j)) d"
    and "metadata_info_map sm' idx \<noteq> None"
proof -
  note r = sm_repD [OF rep]
  let ?M = "join root METADATA"
  obtain d1 where w: "write_file root (to_string (unat idx)) data d = (Inr (), d1)"
    using write_file_fault_free(1) [OF _ ff] by (metis surj_pair)
  have "read_file ?M k d1 = read_file ?M k d" for k
    using read_file_write_other [OF w r(3), of ?M k] by simp
  then have "sm_rep root es (sm, d1)"
    using rep write_file_disk_ok [OF w] by (simp add: sm_rep_def)
  then obtain sm' d' where m: "write_metadata idx (enc (idx, ts, wr)) sm d1 = Some (sm', d')"
    "sm_rep root (upsert es (idx, ts, wr)) (sm', d')" "fault_free d'"
    "\<And>i. read_file root i d' = read_file root i d1" "metadata_info_map sm' idx \<noteq> None"
    using write_metadata_rep write_file_fault_free(2) [OF w ff] by metis
  show thesis
  proof (rule that [of sm' d'])
    show "sm_write idx (data, ts, wr) (sm, d) = Some (sm', d')"
      using w m(1) by (simp add: r(1) enc_alt)
    show "read_file root (to_string (unat idx)) d' = Some data"
      using m(4) read_file_write_same(1) [OF w r(3)] by simp
    show "\<forall>j. j \<noteq> idx \<longrightarrow>
      read_file root (to_string (unat j)) d' = read_file root (to_string (unat j)) d"
      using m(4) read_file_write_other [OF w r(3), of root] by (simp add: word_unat_eq_iff)
  qed (use m in simp_all)
qed

text \<open>A write touches files of the storage directory and of its \<^verbatim>\<open>metadata\<close> directory only.\<close>

lemma sm_write_outside:
  assumes w: "sm_write idx s (sm, d) = Some (sm', d')" and rep: "sm_rep root es (sm, d)"
    and dir: "is_under root dir" "dir \<noteq> root" "dir \<noteq> join root METADATA"
  shows "read_file dir key d' = read_file dir key d"
proof -
  note r = sm_repD [OF rep]
  obtain data ts wr where s: "s = (data, ts, wr)" by (cases s)
  obtain r1 d1 where w1: "write_file root (to_string (unat idx)) data d = (r1, d1)"
    by (metis surj_pair)
  have d1: "read_file dir key d1 = read_file dir key d" "disk_ok root d1"
    using read_file_write_other [OF w1 r(3) dir(1), of key] dir(2) write_file_disk_ok [OF w1] r(3) by auto
  from w w1 s have "d' = d1 \<or> (\<exists>f v r2. write_file (join root METADATA) f v d1 = (r2, d'))"
    by (auto simp: r(1,2) write_metadata_def Let_def split: sum.splits option.splits prod.splits)
  then show ?thesis
    using d1 read_file_write_other [OF _ d1(2) dir(1), where key' = key] dir(3) by fastforce
qed

section \<open>Contract of the trait\<close>

text \<open>
  \<^verbatim>\<open>dyn SectorsManager\<close>: the three methods, over a world \<open>'w\<close> they share with whoever holds the object.
  \<open>impl_ops\<close> is the table of \<^verbatim>\<open>SectorsManagerImplementation\<close>.
\<close>

record 'w sectors_manager_ops =
  op_read_data :: "'w \<Rightarrow> SectorIdx \<Rightarrow> SectorVec"
  op_read_metadata :: "'w \<Rightarrow> SectorIdx \<Rightarrow> (u64 \<times> u8) option"
  op_write :: "SectorIdx \<Rightarrow> SectorVec \<times> u64 \<times> u8 \<Rightarrow> 'w \<Rightarrow> 'w option"

definition impl_ops :: "(SectorsManagerImplementation \<times> disk) sectors_manager_ops" where
  "impl_ops = \<lparr>op_read_data = (\<lambda>(sm, d). read_data sm d),
     op_read_metadata = (\<lambda>(sm, d). read_metadata sm d), op_write = sm_write\<rparr>"

definition sm_inv :: "path \<Rightarrow> SectorsManagerImplementation \<times> disk \<Rightarrow> bool" where
  "sm_inv root smd \<longleftrightarrow> (\<exists>es. sm_rep root es smd) \<and> fault_free (snd smd)"

locale sectors_manager_contract =
  fixes S :: "'w sectors_manager_ops" and inv :: "'w \<Rightarrow> bool"
  assumes metadata_total: "inv w \<Longrightarrow> \<exists>m. op_read_metadata S w idx = Some m"
    and write_spec: "inv w \<Longrightarrow> \<exists>w'. op_write S idx s w = Some w' \<and> inv w' \<and>
      op_read_data S w' idx = fst s \<and> op_read_metadata S w' idx = Some (snd s) \<and>
      (\<forall>j. j \<noteq> idx \<longrightarrow> op_read_data S w' j = op_read_data S w j \<and>
                       op_read_metadata S w' j = op_read_metadata S w j)"
begin

definition sec :: "'w \<Rightarrow> SectorIdx \<Rightarrow> SectorVec \<times> u64 \<times> u8" where
  "sec w idx = (op_read_data S w idx, the (op_read_metadata S w idx))"

lemma read_sec:
  assumes "inv w"
  shows "op_read_data S w idx = fst (sec w idx)" and "op_read_metadata S w idx = Some (snd (sec w idx))"
  using metadata_total [OF assms, of idx] by (auto simp: sec_def)

lemma write_sec:
  assumes "inv w"
  obtains w' where "op_write S idx s w = Some w'" and "inv w'" and "sec w' = (sec w)(idx := s)"
proof -
  obtain w' where w': "op_write S idx s w = Some w'" "inv w'"
    and "op_read_data S w' idx = fst s" "op_read_metadata S w' idx = Some (snd s)"
    and "\<forall>j. j \<noteq> idx \<longrightarrow> op_read_data S w' j = op_read_data S w j \<and>
                       op_read_metadata S w' j = op_read_metadata S w j"
    using write_spec [OF assms] by metis
  then have "sec w' = (sec w)(idx := s)"
    by (auto simp: sec_def fun_eq_iff)
  with w' show thesis by (rule that)
qed

end

lemma upsert_nth_other:
  assumes "distinct (map fst es)" and "j \<noteq> fst e"
  shows "j \<in> fst ` set (upsert es e) \<longleftrightarrow> j \<in> fst ` set es"
    and "(j, m) \<in> set (upsert es e) \<longleftrightarrow> (j, m) \<in> set es"
  using assms by (auto simp: upsert_def image_iff)

lemma upsert_has: "e \<in> set (upsert es e)"
  by (auto simp: upsert_def)

lemma read_metadata_iff:
  assumes "sm_rep root es (sm, d)"
  shows "(idx, m) \<in> set es \<Longrightarrow> read_metadata sm d idx = Some m"
proof -
  assume "(idx, m) \<in> set es"
  then obtain i where "i < length es" "es ! i = (idx, m)"
    by (auto simp: in_set_conv_nth)
  then show ?thesis
    using read_metadata_entry [OF assms, of i idx] by simp
qed

lemma info_map_dom: "sm_rep root es (sm, d) \<Longrightarrow> metadata_info_map sm idx = None \<longleftrightarrow> idx \<notin> fst ` set es"
proof -
  assume rep: "sm_rep root es (sm, d)"
  have "idx \<in> set (map fst es) \<longleftrightarrow> (\<exists>i < length es. fst (es ! i) = idx)"
    unfolding in_set_conv_nth by auto
  then show ?thesis
    by (simp add: sm_repD(5) [OF rep] info_of_None)
qed

lemma sm_write_spec:
  assumes inv: "sm_inv root (sm, d)"
  shows "\<exists>sm' d'. sm_write idx (data, ts, wr) (sm, d) = Some (sm', d') \<and> sm_inv root (sm', d') \<and>
    read_data sm' d' idx = data \<and> read_metadata sm' d' idx = Some (ts, wr) \<and>
    (\<forall>j. j \<noteq> idx \<longrightarrow> read_data sm' d' j = read_data sm d j \<and> read_metadata sm' d' j = read_metadata sm d j)"
proof -
  from inv obtain es where rep: "sm_rep root es (sm, d)" and ff: "fault_free d"
    by (auto simp: sm_inv_def)
  let ?e = "(idx, ts, wr)"
  obtain sm' d' where w: "sm_write idx (data, ts, wr) (sm, d) = Some (sm', d')"
    and rep': "sm_rep root (upsert es ?e) (sm', d')" and ff': "fault_free d'"
    and data: "read_file root (to_string (unat idx)) d' = Some data"
    and other: "\<forall>j. j \<noteq> idx \<longrightarrow>
      read_file root (to_string (unat j)) d' = read_file root (to_string (unat j)) d"
    and dom: "metadata_info_map sm' idx \<noteq> None"
    by (rule sm_write_rep [OF rep ff, of idx data ts wr])
  have "read_data sm' d' idx = data"
    using data dom sm_repD(1) [OF rep'] by (auto simp: read_data_def)
  moreover have "read_metadata sm' d' idx = Some (ts, wr)"
    using read_metadata_iff [OF rep' upsert_has] by simp
  moreover have "read_data sm' d' j = read_data sm d j \<and> read_metadata sm' d' j = read_metadata sm d j"
    if j: "j \<noteq> idx" for j
  proof (cases "j \<in> fst ` set es")
    case True
    then obtain m where "(j, m) \<in> set es" "(j, m) \<in> set (upsert es ?e)"
      using upsert_nth_other(2) [OF sm_repD(4) [OF rep], of j ?e] j by auto
    then have "read_metadata sm' d' j = read_metadata sm d j"
      using read_metadata_iff [OF rep] read_metadata_iff [OF rep'] by simp
    moreover have "metadata_info_map sm' j \<noteq> None" "metadata_info_map sm j \<noteq> None"
      using True upsert_nth_other(1) [OF sm_repD(4) [OF rep], of j ?e] j
      by (simp_all add: info_map_dom [OF rep] info_map_dom [OF rep'])
    ultimately show ?thesis
      using other j sm_repD(1) [OF rep] sm_repD(1) [OF rep']
      by (auto simp: read_data_def)
  next
    case False
    then have "j \<notin> fst ` set (upsert es ?e)"
      using upsert_nth_other(1) [OF sm_repD(4) [OF rep], of j ?e] j by simp
    with False show ?thesis
      using read_metadata_absent [OF rep] read_metadata_absent [OF rep'] by simp
  qed
  ultimately show ?thesis
    using w rep' ff' by (auto simp: sm_inv_def)
qed

lemma read_metadata_total:
  assumes "sm_rep root es (sm, d)"
  shows "\<exists>m. read_metadata sm d idx = Some m"
  using read_metadata_iff [OF assms] read_metadata_absent [OF assms] by (cases "idx \<in> fst ` set es") auto

interpretation sm: sectors_manager_contract impl_ops "sm_inv root" for root
proof (unfold_locales, goal_cases)
  case (1 w idx)
  then show ?case
    using read_metadata_total by (cases w) (auto simp: impl_ops_def sm_inv_def)
next
  case (2 w idx s)
  then show ?case
    using sm_write_spec [of root "fst w" "snd w" idx "fst s" "fst (snd s)" "snd (snd s)"]
    by (auto simp: impl_ops_def split_beta)
qed

section \<open>A store with one sector, for witnesses\<close>

definition demo_sm :: SectorsManagerImplementation where
  "demo_sm = \<lparr>sm_path = [''data''], metadata_path = [''data'', METADATA],
     metadata_info_map = [7 \<mapsto> (to_string 0, 0)], metadata_total_size = METADATA_SIZE\<rparr>"

definition demo_disk :: disk where
  "demo_disk = calm_disk [[''data'', METADATA, to_string 0] \<mapsto> \<lparr>content = enc (7, 1, 2), synced = True\<rparr>,
     [''data'', to_string 7] \<mapsto> \<lparr>content = [9], synced = True\<rparr>]"

lemma demo_rep: "sm_rep [''data''] [(7, 1, 2)] (demo_sm, demo_disk)"
proof -
  have "chunk [(7, 1, 2)] 0 = [(7, 1, 2)]"
    by (simp add: chunk_def METADATAS_PER_FILE_def SECTOR_VEC_SIZE_def METADATA_SIZE_def)
  then show ?thesis
    using calm_disk_under [of "[]"]
    by (simp add: sm_rep_def demo_sm_def demo_disk_def info_of_def loc_def read_file_def calm_disk_def)
qed

lemma demo_fault_free: "fault_free demo_disk"
  by (simp add: demo_disk_def)

lemma demo_inv: "sm_inv [''data''] (demo_sm, demo_disk)"
  using demo_rep demo_fault_free by (auto simp: sm_inv_def)

section \<open>Properties\<close>

text \<open>
  C8. A write of a sector on a disk whose system calls succeed never panics, keeps the
  representation invariant, makes exactly the written data, timestamp and rank readable at that
  sector, and changes no other sector.
\<close>

theorem sectors_write_read:
  assumes "sm_inv root (sm, d)"
  shows "\<exists>sm' d'. sm_write idx (data, ts, wr) (sm, d) = Some (sm', d') \<and> sm_inv root (sm', d') \<and>
    read_data sm' d' idx = data \<and> read_metadata sm' d' idx = Some (ts, wr) \<and>
    (\<forall>j. j \<noteq> idx \<longrightarrow> read_data sm' d' j = read_data sm d j \<and> read_metadata sm' d' j = read_metadata sm d j)"
  using assms by (rule sm_write_spec)

theorem sectors_write_read_witness:
  "\<exists>sm' d'. sm_write 8 ([1, 2], 5, 3) (demo_sm, demo_disk) = Some (sm', d') \<and>
     read_data sm' d' 8 = [1, 2] \<and> read_metadata sm' d' 8 = Some (5, 3) \<and>
     read_metadata sm' d' 7 = read_metadata demo_sm demo_disk 7"
  using sectors_write_read [OF demo_inv, of 8 "[1, 2]" 5 3] by auto

text \<open>
  C9. Restarting the process loses nothing: the scan of the metadata files in \<^verbatim>\<open>new\<close> terminates
  without a panic and rebuilds the very map and size the running manager had.
\<close>

theorem sectors_recovery:
  assumes "sm_inv root (sm, d)"
  shows "SectorsManagerImplementation_new root d = Some (Some sm)"
  using assms new_rep by (auto simp: sm_inv_def)

theorem sectors_recovery_witness:
  "SectorsManagerImplementation_new [''data''] demo_disk = Some (Some demo_sm)"
  by (rule sectors_recovery [OF demo_inv])

lemma write_file_create_err:
  "create_err (envs d (clock d)) = Some err \<Longrightarrow> write_file dir key v d = (Inl err, d\<lparr>clock := Suc (clock d)\<rparr>)"
  by (simp add: write_file_def write_in_eq)

lemma write_file_env_ok:
  assumes "env_ok (envs d (clock d))"
  shows "\<exists>d'. write_file dir key v d = (Inr (), d')"
  using assms by (simp add: write_file_def write_in_eq env_ok_def Let_def)

lemma read_file_clock [simp]: "read_file dir key (d\<lparr>clock := n\<rparr>) = read_file dir key d"
  by (simp add: read_file_def)

text \<open>A write whose data reached the disk and whose metadata did not.\<close>

lemma interrupted_write:
  assumes rep: "sm_rep root es (sm, d)" and "env_ok (envs d (clock d))"
    and "create_err (envs d (Suc (clock d))) = Some err"
  obtains d' where "sm_write idx (data, ts, wr) (sm, d) = Some (sm, d')" and "sm_rep root es (sm, d')"
    and "read_file root (to_string (unat idx)) d' = Some data"
proof -
  note r = sm_repD [OF rep]
  let ?M = "join root METADATA"
  obtain d1 where w: "write_file root (to_string (unat idx)) data d = (Inr (), d1)"
    using write_file_env_ok [OF assms(2)] by blast
  have "read_file ?M k d1 = read_file ?M k d" for k
    using read_file_write_other [OF w r(3), of ?M k] by simp
  then have rep1: "sm_rep root es (sm, d1)"
    using rep write_file_disk_ok [OF w] by (simp add: sm_rep_def)
  obtain f off where fo: "(f, off) = metadata_place sm idx" by (metis surj_pair)
  obtain k where "placed es (upsert es (idx, ts, wr)) k (f, off)
      (case read_file ?M (fst (f, off)) d1 of None \<Rightarrow> [] | Some vec \<Rightarrow> vec) (idx, ts, wr)"
    by (rule write_place [OF rep1 fst_conv fo refl])
  then obtain v where "updated_metadata (case read_file ?M f d1 of None \<Rightarrow> [] | Some vec \<Rightarrow> vec) off
      (enc (idx, ts, wr)) = Some v"
    by (auto simp: placed_def)
  moreover have "create_err (envs d1 (clock d1)) = Some err"
    using assms(3) by (simp add: write_file_frame [OF w])
  ultimately have "sm_write idx (data, ts, wr) (sm, d) = Some (sm, d1\<lparr>clock := Suc (clock d1)\<rparr>)"
    using w by (simp add: r(1,2) enc_alt write_metadata_def fo [symmetric] write_file_create_err)
  then show thesis
    by (rule that) (use rep1 read_file_write_same(1) [OF w r(3)] in
      \<open>simp_all add: sm_rep_def disk_ok_def\<close>)
qed



text \<open>The demo store on a disk whose second write fails to create its temporary file.\<close>

definition failing_disk :: disk where
  "failing_disk = demo_disk\<lparr>envs := (\<lambda>n. if n = 1 then calm_env\<lparr>create_err := Some OtherError\<rparr> else calm_env)\<rparr>"

lemma failing_rep: "sm_rep [''data''] [(7, 1, 2)] (demo_sm, failing_disk)"
  "env_ok (envs failing_disk (clock failing_disk))"
  "create_err (envs failing_disk (Suc (clock failing_disk))) = Some OtherError"
proof -
  show "sm_rep [''data''] [(7, 1, 2)] (demo_sm, failing_disk)"
    using demo_rep
    by (simp add: sm_rep_def failing_disk_def read_file_def disk_ok_def calm_env_def is_under_def)
  show "env_ok (envs failing_disk (clock failing_disk))"
    "create_err (envs failing_disk (Suc (clock failing_disk))) = Some OtherError"
    by (simp_all add: failing_disk_def demo_disk_def calm_disk_def)
qed



end
