(* ===== verification/Atomic_Register.thy ===== *)
theory Atomic_Register
  imports Sectors_Manager "HOL-Library.Multiset"
begin

text \<open>
  The (N,N) atomic register: \<^verbatim>\<open>solution/src/atomic_register.rs\<close>. One handler of the model is one
  \<^verbatim>\<open>async fn\<close> of the trait, run to its end. It returns the new register, the new world and the calls
  it made on \<^verbatim>\<open>dyn RegisterClient\<close> and on the callback, in order; \<open>None\<close> is a panic (an \<^verbatim>\<open>unwrap\<close> of
  \<open>None\<close>, or a panic of the sectors manager). The two other trait objects are tables of methods over
  the world \<open>'w\<close>: the register's environment. \<^verbatim>\<open>bincode\<close> is a parameter with its documented round
  trip as \<open>bincode_laws\<close>. Additions on \<^verbatim>\<open>u64\<close> wrap, as they do in a release build.
\<close>

section \<open>Data\<close>

record DataWithRequestIdentifier =
  rv_request_identifier :: u64
  rv_data :: SectorVec

record DataWithHeader =
  wv_header :: ClientCommandHeader
  wv_data :: SectorVec

definition ATOMIC_REGISTER_STATE_KEY :: string where
  "ATOMIC_REGISTER_STATE_KEY = ''state''"

record AtomicRegisterStorageState =
  st_read_ident :: u64
  writing :: bool
  writeval :: "DataWithHeader option"

record 'cb AtomicRegisterImplementation =
  self_ident :: u8
  processes_count :: nat
  readlist :: "u8 \<rightharpoonup> (u64 \<times> u8 \<times> SectorVec)"
  acks :: "u8 set"
  reading :: bool
  readval :: "DataWithRequestIdentifier option"
  state :: AtomicRegisterStorageState
  callback :: "'cb option"

section \<open>Environment and effects\<close>

record bincode_crate =
  bincode_serialize :: "AtomicRegisterStorageState \<Rightarrow> bytes option"
  bincode_deserialize :: "bytes \<Rightarrow> AtomicRegisterStorageState option"

definition bincode_laws :: "bincode_crate \<Rightarrow> bool" where
  "bincode_laws B \<longleftrightarrow> (\<forall>s. \<exists>b. bincode_serialize B s = Some b \<and> bincode_deserialize B b = Some s)"

record 'w stable_storage_ops =
  op_put :: "string \<Rightarrow> bytes \<Rightarrow> 'w \<Rightarrow> unit io \<times> 'w"
  op_get :: "string \<Rightarrow> 'w \<Rightarrow> bytes option"

record ('w, 'u) register_env =
  uuid :: "'u uuid_crate"
  bincode :: bincode_crate
  sectors :: "'w sectors_manager_ops"
  storage :: "'w stable_storage_ops"

datatype ('u, 'cb) effect =
    Broadcast "'u SystemRegisterCommand"
  | Send "'u SystemRegisterCommand" nat
  | Callback 'cb OperationComplete

type_synonym ('w, 'u, 'cb) outcome =
  "'cb AtomicRegisterImplementation \<times> 'w \<times> ('u, 'cb) effect list"

section \<open>Construction and recovery\<close>

definition empty_state :: AtomicRegisterStorageState where
  "empty_state = \<lparr>st_read_ident = 0, writing = False, writeval = None\<rparr>"

definition load_state :: "('w, 'u) register_env \<Rightarrow> 'w \<Rightarrow> AtomicRegisterStorageState" where
  "load_state E w =
     (case op_get (storage E) ATOMIC_REGISTER_STATE_KEY w of
        None \<Rightarrow> empty_state
      | Some vec \<Rightarrow> (case bincode_deserialize (bincode E) vec of None \<Rightarrow> empty_state | Some s \<Rightarrow> s))"

definition AtomicRegisterImplementation_new ::
    "('w, 'u) register_env \<Rightarrow> u8 \<Rightarrow> nat \<Rightarrow> 'w
     \<Rightarrow> ('cb AtomicRegisterImplementation \<times> ClientRegisterCommand option) option" where
  "AtomicRegisterImplementation_new E ident n w =
     (let st = load_state E w;
          register = \<lparr>self_ident = ident, processes_count = n, readlist = Map.empty, acks = {},
            reading = False, readval = None, state = st, callback = None\<rparr>
      in if writing st then
           (case writeval st of
              None \<Rightarrow> None
            | Some wv \<Rightarrow>
                Some (register\<lparr>state := st\<lparr>writing := False, writeval := None\<rparr>\<rparr>,
                      Some \<lparr>c_header = wv_header wv, c_content = Write (wv_data wv)\<rparr>))
         else Some (register, None))"

definition store_state :: "('w, 'u) register_env \<Rightarrow> 'cb AtomicRegisterImplementation \<Rightarrow> 'w \<Rightarrow> 'w" where
  "store_state E reg w =
     (let encoded = (case bincode_serialize (bincode E) (state reg) of None \<Rightarrow> [] | Some b \<Rightarrow> b)
      in snd (op_put (storage E) ATOMIC_REGISTER_STATE_KEY encoded w))"

section \<open>Client commands\<close>

definition client_command ::
    "('w, 'u) register_env \<Rightarrow> ClientRegisterCommand \<Rightarrow> 'cb
     \<Rightarrow> 'cb AtomicRegisterImplementation \<Rightarrow> 'w \<Rightarrow> ('w, 'u, 'cb) outcome" where
  "client_command E cmd operation_complete reg w =
     (let reg = reg\<lparr>callback := Some operation_complete,
            state := (state reg)\<lparr>st_read_ident := st_read_ident (state reg) + 1\<rparr>,
            acks := {}, readlist := Map.empty\<rparr>;
          reg = (case c_content cmd of
              Read \<Rightarrow> reg\<lparr>readval := Some \<lparr>rv_request_identifier = request_identifier (c_header cmd),
                                       rv_data = []\<rparr>, reading := True\<rparr>
            | Write data \<Rightarrow> reg\<lparr>state := (state reg)\<lparr>
                  writeval := Some \<lparr>wv_header = c_header cmd, wv_data = data\<rparr>, writing := True\<rparr>\<rparr>);
          w = store_state E reg w;
          hd = SystemCommandHeader_new (self_ident reg)
            (request_uuid (uuid E) (request_identifier (c_header cmd)))
            (st_read_ident (state reg)) (c_sector_idx (c_header cmd))
      in (reg, w, [Broadcast \<lparr>s_header = hd, s_content = ReadProc\<rparr>]))"

section \<open>System commands\<close>

definition on_read_proc ::
    "('w, 'u) register_env \<Rightarrow> 'u SystemCommandHeader \<Rightarrow> 'cb AtomicRegisterImplementation \<Rightarrow> 'w
     \<Rightarrow> ('w, 'u, 'cb) outcome option" where
  "on_read_proc E h reg w =
     (let data = op_read_data (sectors E) w (s_sector_idx h) in
      case op_read_metadata (sectors E) w (s_sector_idx h) of
        None \<Rightarrow> None
      | Some (timestamp, write_rank) \<Rightarrow>
          (let hd = SystemCommandHeader_new (self_ident reg) (msg_ident h) (read_ident h) (s_sector_idx h)
           in Some (reg, w, [Send \<lparr>s_header = hd, s_content = Value timestamp write_rank data\<rparr>
                               (unat (process_identifier h))])))"

text \<open>The key \<^verbatim>\<open>(ts, wr)\<close> by which the highest element of the read list is chosen.\<close>

definition tag_of :: "u8 \<times> u64 \<times> u8 \<times> SectorVec \<Rightarrow> u64 \<times> u8" where
  "tag_of e = (fst (snd e), fst (snd (snd e)))"

text \<open>The body of the \<^verbatim>\<open>if\<close> in the \<^verbatim>\<open>Value\<close> branch: a majority has answered.\<close>

definition value_quorum ::
    "('w, 'u) register_env \<Rightarrow> u8 list \<Rightarrow> 'u SystemCommandHeader \<Rightarrow> 'cb AtomicRegisterImplementation \<Rightarrow> 'w
     \<Rightarrow> ('w, 'u, 'cb) outcome option" where
  "value_quorum E order h reg w =
     (case max_by_key tag_of (hash_iter order (readlist reg)) of
        None \<Rightarrow> None
      | Some (_, maxts, maxrank, maxdata) \<Rightarrow>
          (let reg = reg\<lparr>readlist := Map.empty, acks := {}\<rparr> in
           case (if reading reg then
                   (case readval reg of
                      None \<Rightarrow> None
                    | Some rv \<Rightarrow>
                        Some (reg\<lparr>readval := Some \<lparr>rv_request_identifier = rv_request_identifier rv,
                                                 rv_data = maxdata\<rparr>\<rparr>,
                              WriteProc maxts maxrank maxdata))
                 else
                   (case writeval (state reg) of
                      None \<Rightarrow> None
                    | Some wv \<Rightarrow> Some (reg, WriteProc (maxts + 1) (self_ident reg) (wv_data wv)))) of
             None \<Rightarrow> None
           | Some (reg, msg) \<Rightarrow>
               (let reg = reg\<lparr>state := (state reg)\<lparr>st_read_ident := st_read_ident (state reg) + 1\<rparr>\<rparr>;
                    w = store_state E reg w;
                    hd = SystemCommandHeader_new (self_ident reg) (msg_ident h)
                           (st_read_ident (state reg)) (s_sector_idx h)
                in Some (reg, w, [Broadcast \<lparr>s_header = hd, s_content = msg\<rparr>]))))"

definition on_value ::
    "('w, 'u) register_env \<Rightarrow> u8 list \<Rightarrow> 'u SystemCommandHeader \<Rightarrow> u64 \<Rightarrow> u8 \<Rightarrow> SectorVec
     \<Rightarrow> 'cb AtomicRegisterImplementation \<Rightarrow> 'w \<Rightarrow> ('w, 'u, 'cb) outcome option" where
  "on_value E order h timestamp write_rank sector_data reg w =
     (if read_ident h \<noteq> st_read_ident (state reg) then Some (reg, w, [])
      else
        (let reg = reg\<lparr>readlist := (readlist reg)(process_identifier h \<mapsto> (timestamp, write_rank, sector_data))\<rparr>
         in if (reading reg \<or> writing (state reg)) \<and> 2 * card (dom (readlist reg)) > processes_count reg
            then value_quorum E order h reg w
            else Some (reg, w, [])))"

definition on_write_proc ::
    "('w, 'u) register_env \<Rightarrow> 'u SystemCommandHeader \<Rightarrow> u64 \<Rightarrow> u8 \<Rightarrow> SectorVec
     \<Rightarrow> 'cb AtomicRegisterImplementation \<Rightarrow> 'w \<Rightarrow> ('w, 'u, 'cb) outcome option" where
  "on_write_proc E h timestamp write_rank data_to_write reg w =
     (case op_read_metadata (sectors E) w (s_sector_idx h) of
        None \<Rightarrow> None
      | Some (ts, wr) \<Rightarrow>
          (case (if (timestamp, write_rank) > (ts, wr)
                 then op_write (sectors E) (s_sector_idx h) (data_to_write, timestamp, write_rank) w
                 else Some w) of
             None \<Rightarrow> None
           | Some w \<Rightarrow>
               (let hd = SystemCommandHeader_new (self_ident reg) (msg_ident h) (read_ident h) (s_sector_idx h)
                in Some (reg, w, [Send \<lparr>s_header = hd, s_content = Ack\<rparr> (unat (process_identifier h))]))))"

text \<open>The body of the \<^verbatim>\<open>if\<close> in the \<^verbatim>\<open>Ack\<close> branch: a majority has acknowledged.\<close>

definition ack_quorum ::
    "('w, 'u) register_env \<Rightarrow> 'cb AtomicRegisterImplementation \<Rightarrow> 'w \<Rightarrow> ('w, 'u, 'cb) outcome option" where
  "ack_quorum E reg w =
     (let reg = reg\<lparr>acks := {}\<rparr> in
      case (if reading reg then
              (let reg = reg\<lparr>reading := False\<rparr> in
               case readval reg of
                 None \<Rightarrow> None
               | Some rv \<Rightarrow> Some (reg, w, rv_request_identifier rv, ReadReturn (Some (rv_data rv))))
            else
              (let reg = reg\<lparr>state := (state reg)\<lparr>writing := False\<rparr>\<rparr>; w = store_state E reg w in
               case writeval (state reg) of
                 None \<Rightarrow> None
               | Some wv \<Rightarrow> Some (reg, w, request_identifier (wv_header wv), WriteReturn))) of
        None \<Rightarrow> None
      | Some (reg, w, rid, ret) \<Rightarrow>
          (let op = \<lparr>status_code = Ok, op_request_identifier = rid, op_return = ret\<rparr> in
           case callback reg of
             None \<Rightarrow> Some (reg, w, [])
           | Some cb \<Rightarrow> Some (reg\<lparr>callback := None\<rparr>, w, [Callback cb op])))"

definition on_ack ::
    "('w, 'u) register_env \<Rightarrow> 'u SystemCommandHeader \<Rightarrow> 'cb AtomicRegisterImplementation \<Rightarrow> 'w
     \<Rightarrow> ('w, 'u, 'cb) outcome option" where
  "on_ack E h reg w =
     (if read_ident h \<noteq> st_read_ident (state reg) then Some (reg, w, [])
      else
        (let reg = reg\<lparr>acks := insert (process_identifier h) (acks reg)\<rparr>
         in if (reading reg \<or> writing (state reg)) \<and> 2 * card (acks reg) > processes_count reg
            then ack_quorum E reg w
            else Some (reg, w, [])))"

definition system_command ::
    "('w, 'u) register_env \<Rightarrow> u8 list \<Rightarrow> 'u SystemRegisterCommand
     \<Rightarrow> 'cb AtomicRegisterImplementation \<Rightarrow> 'w \<Rightarrow> ('w, 'u, 'cb) outcome option" where
  "system_command E order cmd reg w =
     (case s_content cmd of
        ReadProc \<Rightarrow> on_read_proc E (s_header cmd) reg w
      | Value ts wr d \<Rightarrow> on_value E order (s_header cmd) ts wr d reg w
      | WriteProc ts wr d \<Rightarrow> on_write_proc E (s_header cmd) ts wr d reg w
      | Ack \<Rightarrow> on_ack E (s_header cmd) reg w)"

section \<open>The process's own environment\<close>

text \<open>
  Register \<open>i\<close> of a process keeps its state in the directory \<^verbatim>\<open>register\<close>\<open>i\<close> of the storage directory and
  shares the sectors manager with all other registers.
\<close>

definition register_dir :: "path \<Rightarrow> nat \<Rightarrow> path" where
  "register_dir root i = join root (''register'' @ to_string i)"

definition impl_storage ::
    "StableStorageImplementation \<Rightarrow> (SectorsManagerImplementation \<times> disk) stable_storage_ops" where
  "impl_storage st = \<lparr>op_put = (\<lambda>k v (sm, d). let (r, d') = put st k v d in (r, (sm, d'))),
     op_get = (\<lambda>k (sm, d). get st k d)\<rparr>"

definition impl_env ::
    "'u uuid_crate \<Rightarrow> bincode_crate \<Rightarrow> path \<Rightarrow> nat \<Rightarrow> (SectorsManagerImplementation \<times> disk, 'u) register_env" where
  "impl_env U B root i = \<lparr>uuid = U, bincode = B, sectors = impl_ops,
     storage = impl_storage \<lparr>ss_dir = register_dir root i\<rparr>\<rparr>"

section \<open>Contract of a register's world\<close>

text \<open>
  What a replica promises about one sector: it keeps the pair with the greater tag.
\<close>

definition newer :: "SectorVec \<times> u64 \<times> u8 \<Rightarrow> SectorVec \<times> u64 \<times> u8 \<Rightarrow> SectorVec \<times> u64 \<times> u8" where
  "newer new old = (if snd new > snd old then new else old)"

definition reg_inv :: "'cb AtomicRegisterImplementation \<Rightarrow> bool" where
  "reg_inv reg \<longleftrightarrow> (reading reg \<longrightarrow> readval reg \<noteq> None) \<and> (writing (state reg) \<longrightarrow> writeval (state reg) \<noteq> None)"

locale register_world = sectors_manager_contract "sectors E" inv
  for E :: "('w, 'u) register_env" and inv :: "'w \<Rightarrow> bool" +
  assumes put_spec: "inv w \<Longrightarrow> \<exists>w'. op_put (storage E) k v w = (Inr (), w') \<and> inv w' \<and>
      op_get (storage E) k w' = Some v \<and>
      (\<forall>idx. op_read_data (sectors E) w' idx = op_read_data (sectors E) w idx \<and>
             op_read_metadata (sectors E) w' idx = op_read_metadata (sectors E) w idx)"
    and write_get: "inv w \<Longrightarrow> op_write (sectors E) idx s w = Some w' \<Longrightarrow>
      op_get (storage E) k w' = op_get (storage E) k w"
begin

lemma store_state_spec:
  assumes "inv w"
  shows "inv (store_state E reg w)" and "sec (store_state E reg w) = sec w"
    and "bincode_laws (bincode E) \<Longrightarrow> load_state E (store_state E reg w) = state reg"
proof -
  let ?b = "case bincode_serialize (bincode E) (state reg) of None \<Rightarrow> [] | Some b \<Rightarrow> b"
  obtain w' where w': "op_put (storage E) ATOMIC_REGISTER_STATE_KEY ?b w = (Inr (), w')" "inv w'"
    "op_get (storage E) ATOMIC_REGISTER_STATE_KEY w' = Some ?b"
    "\<forall>idx. op_read_data (sectors E) w' idx = op_read_data (sectors E) w idx \<and>
           op_read_metadata (sectors E) w' idx = op_read_metadata (sectors E) w idx"
    using put_spec [OF assms, of ATOMIC_REGISTER_STATE_KEY ?b] by blast
  have eq: "store_state E reg w = w'"
    using w'(1) by (simp add: store_state_def)
  show "inv (store_state E reg w)" "sec (store_state E reg w) = sec w"
    using w' by (simp_all add: eq sec_def fun_eq_iff)
  assume "bincode_laws (bincode E)"
  then obtain b where "bincode_serialize (bincode E) (state reg) = Some b"
    "bincode_deserialize (bincode E) b = Some (state reg)"
    by (auto simp: bincode_laws_def)
  then show "load_state E (store_state E reg w) = state reg"
    using w'(3) by (simp add: load_state_def eq)
qed

lemma on_read_proc_spec:
  "inv w \<Longrightarrow> on_read_proc E h reg w = Some (reg, w,
     [Send \<lparr>s_header = SystemCommandHeader_new (self_ident reg) (msg_ident h) (read_ident h) (s_sector_idx h),
            s_content = Value (fst (snd (sec w (s_sector_idx h)))) (snd (snd (sec w (s_sector_idx h))))
                              (fst (sec w (s_sector_idx h)))\<rparr> (unat (process_identifier h))])"
  by (simp add: on_read_proc_def read_sec Let_def split_beta)

lemma on_write_proc_spec:
  assumes "inv w"
  obtains w' where "on_write_proc E h ts wr d reg w = Some (reg, w',
      [Send \<lparr>s_header = SystemCommandHeader_new (self_ident reg) (msg_ident h) (read_ident h) (s_sector_idx h),
             s_content = Ack\<rparr> (unat (process_identifier h))])"
    and "inv w'" and "sec w' = (sec w)(s_sector_idx h := newer (d, ts, wr) (sec w (s_sector_idx h)))"
    and "load_state E w' = load_state E w"
proof -
  obtain t r where m: "snd (sec w (s_sector_idx h)) = (t, r)" by (metis surj_pair)
  then have read: "op_read_metadata (sectors E) w (s_sector_idx h) = Some (t, r)"
    using read_sec(2) [OF assms] by simp
  show thesis
  proof (cases "(ts, wr) > (t, r)")
    case True
    obtain w' where w': "op_write (sectors E) (s_sector_idx h) (d, ts, wr) w = Some w'" "inv w'"
      "sec w' = (sec w)(s_sector_idx h := (d, ts, wr))"
      by (rule write_sec [OF assms])
    from True w' show thesis
      by (intro that [of w'])
        (simp_all add: on_write_proc_def read m newer_def Let_def load_state_def write_get [OF assms w'(1)]
          del: less_prod_simp)
  next
    case False
    with assms show thesis
      by (intro that [of w]) (simp_all add: on_write_proc_def read m newer_def Let_def
        del: less_prod_simp)
  qed
qed

end

section \<open>The process's environment fulfils the contract\<close>

lemma register_dir_facts [simp]:
  "is_under root (register_dir root i)" "register_dir root i \<noteq> root" "register_dir root i \<noteq> join root METADATA"
  "root \<noteq> register_dir root i" "join root METADATA \<noteq> register_dir root i"
  by (simp_all add: register_dir_def METADATA_def)

lemma join_register_dir [simp]:
  "join root a \<noteq> join (register_dir root i) b"
  "join (join root METADATA) a \<noteq> join (register_dir root i) b"
  by (simp_all add: register_dir_def METADATA_def)

lemma impl_env_simps [simp]:
  "uuid (impl_env U B root i) = U" "bincode (impl_env U B root i) = B"
  "sectors (impl_env U B root i) = impl_ops"
  by (simp_all add: impl_env_def)

lemma impl_put_spec:
  assumes inv: "sm_inv root (sm, d)"
  shows "\<exists>d'. put \<lparr>ss_dir = register_dir root i\<rparr> k v d = (Inr (), d') \<and> sm_inv root (sm, d') \<and>
    get \<lparr>ss_dir = register_dir root i\<rparr> k d' = Some v \<and>
    (\<forall>idx. read_data sm d' idx = read_data sm d idx \<and> read_metadata sm d' idx = read_metadata sm d idx)"
proof -
  from inv obtain es where rep: "sm_rep root es (sm, d)" and ff: "fault_free d"
    by (auto simp: sm_inv_def)
  note r = sm_repD [OF rep]
  obtain d' where w: "write_file (register_dir root i) k v d = (Inr (), d')"
    using write_file_fault_free(1) [OF _ ff] by (metis surj_pair)
  have same: "read_file (join root METADATA) f d' = read_file (join root METADATA) f d"
    "read_file root f d' = read_file root f d" for f
    using read_file_write_other [OF w r(3), of "join root METADATA" f]
      read_file_write_other [OF w r(3), of root f] by simp_all
  have "sm_rep root es (sm, d')"
    using rep same write_file_disk_ok [OF w] by (simp add: sm_rep_def)
  moreover have "read_data sm d' idx = read_data sm d idx" "read_metadata sm d' idx = read_metadata sm d idx" for idx
    by (simp_all add: read_data_def read_metadata_def r(1,2) same split: option.split)
  ultimately show ?thesis
    using w write_file_fault_free(2) [OF w ff] read_file_write_same(1) [OF w r(3)]
    by (auto simp: put_def get_def sm_inv_def)
qed

interpretation reg: register_world "impl_env U B root i" "sm_inv root"
  for U :: "'u uuid_crate" and B root i
proof (unfold_locales, goal_cases)
  case (1 w idx)
  then show ?case using sm.metadata_total by simp
next
  case (2 w idx s)
  then show ?case using sm.write_spec by simp
next
  case (3 w k v)
  then show ?case
    using impl_put_spec [of root "fst w" "snd w" i k v]
    by (auto simp: impl_env_def impl_storage_def impl_ops_def split_beta)
next
  case (4 w idx s w' k)
  then show ?case
    using sm_write_outside [of idx s "fst w" "snd w" "fst w'" "snd w'" root _ "register_dir root i" k]
    by (auto simp: impl_env_def impl_storage_def impl_ops_def split_beta sm_inv_def get_def)
qed

section \<open>Runs of a register\<close>

text \<open>
  \<^verbatim>\<open>WorkerMessage\<close> and the body of the loop of \<^verbatim>\<open>single_register_thread\<close> in
  \<^verbatim>\<open>solution/src/commands_executor.rs\<close>: a register processes its messages one at a time, in the order of
  its channel. A message comes with the hash order its handler may iterate in.
\<close>

datatype ('u, 'cb) WorkerMessage =
    SystemMessage "'u SystemRegisterCommand"
  | ClientMessage ClientRegisterCommand 'cb

definition handle_message ::
    "('w, 'u) register_env \<Rightarrow> u8 list \<Rightarrow> ('u, 'cb) WorkerMessage
     \<Rightarrow> 'cb AtomicRegisterImplementation \<Rightarrow> 'w \<Rightarrow> ('w, 'u, 'cb) outcome option" where
  "handle_message E order msg reg w =
     (case msg of
        ClientMessage cmd cb \<Rightarrow> Some (client_command E cmd cb reg w)
      | SystemMessage cmd \<Rightarrow> system_command E order cmd reg w)"

fun run_messages ::
    "('w, 'u) register_env \<Rightarrow> (u8 list \<times> ('u, 'cb) WorkerMessage) list
     \<Rightarrow> 'cb AtomicRegisterImplementation \<Rightarrow> 'w \<Rightarrow> ('w, 'u, 'cb) outcome option" where
  "run_messages E [] reg w = Some (reg, w, [])"
| "run_messages E ((order, msg) # msgs) reg w =
     (case handle_message E order msg reg w of
        None \<Rightarrow> None
      | Some (reg, w, effs) \<Rightarrow>
          (case run_messages E msgs reg w of
             None \<Rightarrow> None
           | Some (reg, w, effs') \<Rightarrow> Some (reg, w, effs @ effs')))"

section \<open>Lemmas: quorums\<close>

text \<open>The register after a majority of values, \<open>d\<close> being the data of the highest.\<close>

definition quorum_next :: "'cb AtomicRegisterImplementation \<Rightarrow> SectorVec \<Rightarrow> 'cb AtomicRegisterImplementation" where
  "quorum_next reg d = reg\<lparr>readlist := Map.empty, acks := {},
     readval := (if reading reg
       then Some \<lparr>rv_request_identifier = rv_request_identifier (the (readval reg)), rv_data = d\<rparr>
       else readval reg),
     state := (state reg)\<lparr>st_read_ident := st_read_ident (state reg) + 1\<rparr>\<rparr>"

definition quorum_content ::
    "'cb AtomicRegisterImplementation \<Rightarrow> u64 \<Rightarrow> u8 \<Rightarrow> SectorVec \<Rightarrow> SystemRegisterCommandContent" where
  "quorum_content reg t r d = (if reading reg then WriteProc t r d
     else WriteProc (t + 1) (self_ident reg) (wv_data (the (writeval (state reg)))))"

definition highest :: "(u8 \<rightharpoonup> (u64 \<times> u8 \<times> SectorVec)) \<Rightarrow> u64 \<Rightarrow> u8 \<Rightarrow> SectorVec \<Rightarrow> bool" where
  "highest rl t r d \<longleftrightarrow> (\<exists>q. rl q = Some (t, r, d)) \<and>
     (\<forall>q t' r' d'. rl q = Some (t', r', d') \<longrightarrow> (t', r') \<le> (t, r))"

lemma highestD:
  assumes "highest rl t r d"
  shows "\<exists>q. rl q = Some (t, r, d)" and "rl q = Some (t', r', d') \<Longrightarrow> (t', r') \<le> (t, r)"
  using assms unfolding highest_def by blast+

lemma value_quorum_spec:
  assumes inv: "reg_inv reg" and busy: "reading reg \<or> writing (state reg)"
    and order: "dom (readlist reg) \<subseteq> set order" and ne: "readlist reg q0 = Some v0"
  obtains t r d where "highest (readlist reg) t r d"
    and "value_quorum E order h reg w = Some (quorum_next reg d, store_state E (quorum_next reg d) w,
      [Broadcast \<lparr>s_header = SystemCommandHeader_new (self_ident reg) (msg_ident h)
                    (st_read_ident (state reg) + 1) (s_sector_idx h),
                  s_content = quorum_content reg t r d\<rparr>])"
proof -
  obtain q v where m: "max_by_key tag_of (hash_iter order (readlist reg)) = Some (q, v)"
    and q: "readlist reg q = Some v"
    and max: "\<forall>q' v'. readlist reg q' = Some v' \<longrightarrow> tag_of (q', v') \<le> tag_of (q, v)"
    by (rule max_by_key_hash_iter [OF order ne, where f = tag_of])
  obtain t r d where v: "v = (t, r, d)" by (cases v)
  have "highest (readlist reg) t r d"
    unfolding highest_def
  proof (intro conjI allI impI)
    show "\<exists>q. readlist reg q = Some (t, r, d)" using q v by blast
    show "(t', r') \<le> (t, r)" if "readlist reg q' = Some (t', r', d')" for q' t' r' d'
      using max that v by (fastforce simp: tag_of_def)
  qed
  moreover have "value_quorum E order h reg w = Some (quorum_next reg d, store_state E (quorum_next reg d) w,
      [Broadcast \<lparr>s_header = SystemCommandHeader_new (self_ident reg) (msg_ident h)
                    (st_read_ident (state reg) + 1) (s_sector_idx h),
                  s_content = quorum_content reg t r d\<rparr>])"
    using m v inv busy
    by (auto simp: value_quorum_def reg_inv_def quorum_next_def quorum_content_def Let_def)
  ultimately show thesis by (rule that)
qed

text \<open>The register after a majority of acknowledgements, and what it reports.\<close>

definition ack_next :: "'cb AtomicRegisterImplementation \<Rightarrow> 'cb AtomicRegisterImplementation" where
  "ack_next reg = (if reading reg then reg\<lparr>acks := {}, reading := False, callback := None\<rparr>
     else reg\<lparr>acks := {}, state := (state reg)\<lparr>writing := False\<rparr>, callback := None\<rparr>)"

definition ack_result :: "'cb AtomicRegisterImplementation \<Rightarrow> OperationComplete" where
  "ack_result reg = \<lparr>status_code = Ok,
     op_request_identifier = (if reading reg then rv_request_identifier (the (readval reg))
       else request_identifier (wv_header (the (writeval (state reg))))),
     op_return = (if reading reg then ReadReturn (Some (rv_data (the (readval reg)))) else WriteReturn)\<rparr>"

lemma ack_quorum_spec:
  assumes "reg_inv reg" and "reading reg \<or> writing (state reg)"
  shows "ack_quorum E reg w = Some (ack_next reg,
     (if reading reg then w else store_state E (ack_next reg) w),
     (case callback reg of None \<Rightarrow> [] | Some cb \<Rightarrow> [Callback cb (ack_result reg)]))"
  using assms
  by (auto simp: ack_quorum_def reg_inv_def ack_next_def ack_result_def store_state_def Let_def
      split: option.split)

section \<open>Lemmas: every handler\<close>

lemma on_value_cases:
  assumes inv: "reg_inv reg" and order: "set order = UNIV"
  obtains (stale) "read_ident h \<noteq> st_read_ident (state reg)" and "on_value E order h ts wr d reg w = Some (reg, w, [])"
  | (collect) reg' where "reg' = reg\<lparr>readlist := (readlist reg)(process_identifier h \<mapsto> (ts, wr, d))\<rparr>"
      and "read_ident h = st_read_ident (state reg)"
      and "\<not> (reading reg \<or> writing (state reg)) \<or> 2 * card (dom (readlist reg')) \<le> processes_count reg"
      and "on_value E order h ts wr d reg w = Some (reg', w, [])"
  | (quorum) reg' t r v where "reg' = reg\<lparr>readlist := (readlist reg)(process_identifier h \<mapsto> (ts, wr, d))\<rparr>"
      and "read_ident h = st_read_ident (state reg)" and "reading reg \<or> writing (state reg)"
      and "2 * card (dom (readlist reg')) > processes_count reg" and "highest (readlist reg') t r v"
      and "on_value E order h ts wr d reg w = Some (quorum_next reg' v, store_state E (quorum_next reg' v) w,
        [Broadcast \<lparr>s_header = SystemCommandHeader_new (self_ident reg) (msg_ident h)
                      (st_read_ident (state reg) + 1) (s_sector_idx h),
                    s_content = quorum_content reg' t r v\<rparr>])"
proof -
  let ?r = "reg\<lparr>readlist := (readlist reg)(process_identifier h \<mapsto> (ts, wr, d))\<rparr>"
  consider "read_ident h \<noteq> st_read_ident (state reg)"
    | "read_ident h = st_read_ident (state reg)"
      "\<not> (reading reg \<or> writing (state reg)) \<or> 2 * card (dom (readlist ?r)) \<le> processes_count reg"
    | "read_ident h = st_read_ident (state reg)" "reading reg \<or> writing (state reg)"
      "2 * card (dom (readlist ?r)) > processes_count reg"
    by force
  then show thesis
  proof cases
    case 1
    then show thesis by (intro stale) (simp_all add: on_value_def)
  next
    case 2
    then show thesis by (intro collect [OF refl]) (auto simp: on_value_def)
  next
    case 3
    then have "on_value E order h ts wr d reg w = value_quorum E order h ?r w"
      by (simp add: on_value_def Let_def)
    moreover obtain t r v where "highest (readlist ?r) t r v"
      "value_quorum E order h ?r w = Some (quorum_next ?r v, store_state E (quorum_next ?r v) w,
        [Broadcast \<lparr>s_header = SystemCommandHeader_new (self_ident ?r) (msg_ident h)
                      (st_read_ident (state ?r) + 1) (s_sector_idx h),
                    s_content = quorum_content ?r t r v\<rparr>])"
      by (rule value_quorum_spec [of ?r order "process_identifier h" "(ts, wr, d)" E h w])
        (use inv order 3 in \<open>auto simp: reg_inv_def\<close>)
    ultimately show thesis using 3 by (intro quorum [OF refl]) auto
  qed
qed

lemma on_ack_cases:
  assumes inv: "reg_inv reg"
  obtains (stale) "read_ident h \<noteq> st_read_ident (state reg)" and "on_ack E h reg w = Some (reg, w, [])"
  | (collect) reg' where "reg' = reg\<lparr>acks := insert (process_identifier h) (acks reg)\<rparr>"
      and "read_ident h = st_read_ident (state reg)"
      and "\<not> (reading reg \<or> writing (state reg)) \<or> 2 * card (acks reg') \<le> processes_count reg"
      and "on_ack E h reg w = Some (reg', w, [])"
  | (quorum) reg' where "reg' = reg\<lparr>acks := insert (process_identifier h) (acks reg)\<rparr>"
      and "read_ident h = st_read_ident (state reg)" and "reading reg \<or> writing (state reg)"
      and "2 * card (acks reg') > processes_count reg"
      and "on_ack E h reg w = Some (ack_next reg', (if reading reg then w else store_state E (ack_next reg') w),
        (case callback reg of None \<Rightarrow> [] | Some cb \<Rightarrow> [Callback cb (ack_result reg')]))"
proof -
  let ?r = "reg\<lparr>acks := insert (process_identifier h) (acks reg)\<rparr>"
  consider "read_ident h \<noteq> st_read_ident (state reg)"
    | "read_ident h = st_read_ident (state reg)"
      "\<not> (reading reg \<or> writing (state reg)) \<or> 2 * card (acks ?r) \<le> processes_count reg"
    | "read_ident h = st_read_ident (state reg)" "reading reg \<or> writing (state reg)"
      "2 * card (acks ?r) > processes_count reg"
    by force
  then show thesis
  proof cases
    case 1
    then show thesis by (intro stale) (simp_all add: on_ack_def)
  next
    case 2
    then show thesis by (intro collect [OF refl]) (auto simp: on_ack_def Let_def)
  next
    case 3
    have "reg_inv ?r" "reading ?r \<or> writing (state ?r)"
      using inv 3 by (auto simp: reg_inv_def)
    from ack_quorum_spec [OF this, of E w] 3 show thesis
      by (intro quorum [OF refl]) (simp_all add: on_ack_def Let_def)
  qed
qed

lemma reg_inv_updates [simp]:
  "reg_inv (reg\<lparr>readlist := m\<rparr>) = reg_inv reg" "reg_inv (reg\<lparr>acks := a\<rparr>) = reg_inv reg"
  by (simp_all add: reg_inv_def)

lemma reg_inv_quorum_next [simp]: "reg_inv reg \<Longrightarrow> reg_inv (quorum_next reg d)"
  by (simp add: reg_inv_def quorum_next_def)

lemma reg_inv_ack_next [simp]: "reg_inv reg \<Longrightarrow> reg_inv (ack_next reg)"
  by (simp add: reg_inv_def ack_next_def)

context register_world
begin

text \<open>What a command leaves of the sectors: a \<open>WriteProc\<close> makes its replica keep the newer pair.\<close>

definition sec_after :: "'u SystemRegisterCommand \<Rightarrow> 'w \<Rightarrow> SectorIdx \<Rightarrow> SectorVec \<times> u64 \<times> u8" where
  "sec_after cmd w = (case s_content cmd of
       WriteProc ts wr d \<Rightarrow> (let i = s_sector_idx (s_header cmd) in (sec w)(i := newer (d, ts, wr) (sec w i)))
     | _ \<Rightarrow> sec w)"

text \<open>The invariant of a register and its world; with \<open>b\<close>, the stored state is the one in memory.\<close>

definition good :: "bool \<Rightarrow> 'cb AtomicRegisterImplementation \<Rightarrow> 'w \<Rightarrow> bool" where
  "good b reg w \<longleftrightarrow> reg_inv reg \<and> inv w \<and> (b \<longrightarrow> load_state E w = state reg)"

lemma good_store_state:
  "b \<longrightarrow> bincode_laws (bincode E) \<Longrightarrow> reg_inv reg \<Longrightarrow> inv w \<Longrightarrow> good b reg (store_state E reg w)"
  by (simp add: good_def store_state_spec)

lemma good_same_state: "good b reg w \<Longrightarrow> reg_inv reg' \<Longrightarrow> state reg' = state reg \<Longrightarrow> good b reg' w"
  by (simp add: good_def)

lemma client_command_good:
  assumes "reg_inv reg" and "inv w" and "b \<longrightarrow> bincode_laws (bincode E)"
    and "client_command E cmd cb reg w = (reg', w', effs)"
  shows "good b reg' w'" and "sec w' = sec w"
proof -
  have "reg_inv reg'" "w' = store_state E reg' w"
    using assms(1,4)
    by (auto simp: client_command_def reg_inv_def Let_def split: ClientRegisterCommandContent.splits)
  then show "good b reg' w'" "sec w' = sec w"
    using assms(2,3) by (simp_all add: good_store_state store_state_spec)
qed

lemma system_command_total:
  assumes good: "good b reg w" and b: "b \<longrightarrow> bincode_laws (bincode E)" and order: "set order = UNIV"
  obtains reg' w' effs where "system_command E order cmd reg w = Some (reg', w', effs)"
    and "good b reg' w'" and "sec w' = sec_after cmd w"
proof (cases "s_content cmd")
  case ReadProc
  with good show thesis
    by (intro that [of reg w]) (simp_all add: system_command_def on_read_proc_spec good_def sec_after_def)
next
  case (WriteProc ts wr d)
  from good have "inv w" by (simp add: good_def)
  then obtain w' effs where "on_write_proc E (s_header cmd) ts wr d reg w = Some (reg, w', effs)" "inv w'"
    "sec w' = (sec w)(s_sector_idx (s_header cmd) := newer (d, ts, wr) (sec w (s_sector_idx (s_header cmd))))"
    "load_state E w' = load_state E w"
    by (rule on_write_proc_spec)
  with WriteProc good show thesis
    by (intro that [of reg w']) (simp_all add: system_command_def good_def sec_after_def Let_def)
next
  case (Value ts wr d)
  from good have inv: "reg_inv reg" "inv w" by (simp_all add: good_def)
  from inv(1) order show thesis
  proof (cases rule: on_value_cases [where E = E and h = "s_header cmd" and ts = ts and wr = wr and d = d and w = w])
    case stale
    with Value good show ?thesis by (intro that) (simp_all add: system_command_def sec_after_def)
  next
    case (collect reg')
    with Value good inv show ?thesis
      by (intro that [of reg' w]) (simp_all add: system_command_def sec_after_def good_def)
  next
    case (quorum reg' t r v)
    with Value inv b show ?thesis
      by (intro that [of "quorum_next reg' v" "store_state E (quorum_next reg' v) w"])
        (simp_all add: system_command_def sec_after_def good_store_state store_state_spec)
  qed
next
  case Ack
  from good have inv: "reg_inv reg" "inv w" by (simp_all add: good_def)
  from inv(1) show thesis
  proof (cases rule: on_ack_cases [where E = E and h = "s_header cmd" and w = w])
    case stale
    with Ack good show ?thesis by (intro that) (simp_all add: system_command_def sec_after_def)
  next
    case (collect reg')
    with Ack good inv show ?thesis
      by (intro that [of reg' w]) (simp_all add: system_command_def sec_after_def good_def)
  next
    case (quorum reg')
    then have "reg_inv (ack_next reg')" "reading reg \<Longrightarrow> state (ack_next reg') = state reg"
      using inv by (simp, simp add: ack_next_def)
    then have "good b (ack_next reg') (if reading reg then w else store_state E (ack_next reg') w)"
      using good inv(2) b by (simp add: good_store_state good_same_state)
    moreover have "system_command E order cmd reg w = on_ack E (s_header cmd) reg w"
      using Ack by (simp add: system_command_def)
    ultimately show ?thesis
      using that quorum(5) Ack inv by (simp add: sec_after_def store_state_spec)
  qed
qed


lemma handle_message_total:
  assumes "good b reg w" and "b \<longrightarrow> bincode_laws (bincode E)" and "set order = UNIV"
  obtains reg' w' effs where "handle_message E order msg reg w = Some (reg', w', effs)" and "good b reg' w'"
    and "sec w' = (case msg of SystemMessage cmd \<Rightarrow> sec_after cmd w | ClientMessage _ _ \<Rightarrow> sec w)"
proof (cases msg)
  case (SystemMessage cmd)
  obtain reg' w' effs where "system_command E order cmd reg w = Some (reg', w', effs)"
    "good b reg' w'" "sec w' = sec_after cmd w"
    by (rule system_command_total [OF assms])
  with SystemMessage show thesis by (intro that [of reg' w' effs]) (simp_all add: handle_message_def)
next
  case (ClientMessage cmd cb)
  obtain reg' w' effs where c: "client_command E cmd cb reg w = (reg', w', effs)" by (metis prod_cases3)
  have "reg_inv reg" "inv w" using assms(1) by (simp_all add: good_def)
  from client_command_good [OF this assms(2) c] c ClientMessage show thesis
    by (intro that [of reg' w' effs]) (simp_all add: handle_message_def)
qed

lemma run_messages_total:
  assumes "good b reg w" and "b \<longrightarrow> bincode_laws (bincode E)" and "\<forall>(order, msg) \<in> set msgs. set order = UNIV"
  shows "\<exists>reg' w' effs. run_messages E msgs reg w = Some (reg', w', effs) \<and> good b reg' w'"
  using assms(1,3)
proof (induction msgs arbitrary: reg w)
  case Nil
  then show ?case by simp
next
  case (Cons om msgs)
  obtain order msg where om: "om = (order, msg)" by (cases om)
  then have order: "set order = UNIV" using Cons.prems(2) by simp
  obtain reg1 w1 effs1 where h: "handle_message E order msg reg w = Some (reg1, w1, effs1)"
    and "good b reg1 w1"
    by (rule handle_message_total [OF Cons.prems(1) assms(2) order])
  then obtain reg' w' effs where "run_messages E msgs reg1 w1 = Some (reg', w', effs)" "good b reg' w'"
    using Cons.IH [of reg1 w1] Cons.prems(2) by auto
  with h om show ?case by simp
qed

end

end
