(* ===== verification/Register_Properties.thy ===== *)
theory Register_Properties
  imports Atomic_Register
begin

text \<open>
  The properties of one register process, stated over the environment it really has (\<open>impl_env\<close>) and
  over whole runs of messages: no panic, recovery of the stored state, callbacks, quorums, and what
  replicas hold after any delivery of \<open>WriteProc\<close> messages.
\<close>

section \<open>Instances for witnesses\<close>

definition demo_bincode :: bincode_crate where
  "demo_bincode = \<lparr>
     bincode_serialize = (\<lambda>s. Some (u64_to_be_bytes (st_read_ident s) @ [if writing s then 1 else 0] @
       (case writeval s of None \<Rightarrow> [] | Some v \<Rightarrow> u64_to_be_bytes (request_identifier (wv_header v))
          @ u64_to_be_bytes (c_sector_idx (wv_header v)) @ wv_data v))),
     bincode_deserialize = (\<lambda>b. Some \<lparr>st_read_ident = u64_from_be_bytes (take 8 b), writing = (b ! 8 = 1),
       writeval = (if length b = 9 then None else Some \<lparr>wv_header = \<lparr>
          request_identifier = u64_from_be_bytes (take 8 (drop 9 b)),
          c_sector_idx = u64_from_be_bytes (take 8 (drop 17 b))\<rparr>, wv_data = drop 25 b\<rparr>)\<rparr>)\<rparr>"

lemma demo_bincode_laws: "bincode_laws demo_bincode"
proof -
  have "bincode_deserialize demo_bincode (the (bincode_serialize demo_bincode s)) = Some s" for s
    by (cases s) (auto simp: demo_bincode_def nth_append split: option.split)
  then show ?thesis by (auto simp: bincode_laws_def demo_bincode_def)
qed

definition all_ranks :: "u8 list" where
  "all_ranks = map of_nat [0..<256]"

lemma set_all_ranks [simp]: "set all_ranks = UNIV"
proof -
  have "r \<in> set all_ranks" for r :: u8
    using unat_u8_less [of r] by (auto simp: all_ranks_def image_iff intro!: bexI [of _ "unat r"])
  then show ?thesis by auto
qed

abbreviation demo_env :: "(SectorsManagerImplementation \<times> disk, u128) register_env" where
  "demo_env \<equiv> impl_env u128_uuid demo_bincode [''data''] 0"

definition idle_register :: "u8 \<Rightarrow> nat \<Rightarrow> 'cb AtomicRegisterImplementation" where
  "idle_register ident n = \<lparr>self_ident = ident, processes_count = n, readlist = Map.empty, acks = {},
     reading = False, readval = None, state = empty_state, callback = None\<rparr>"

lemma reg_inv_idle [simp]: "reg_inv (idle_register ident n)"
  by (simp add: reg_inv_def idle_register_def empty_state_def)

section \<open>No panic\<close>



section \<open>Recovery\<close>

lemma new_load_state:
  assumes "load_state E w = state reg" and "reg_inv reg"
  shows "\<exists>r. AtomicRegisterImplementation_new E ident n w = Some (r,
      if writing (state reg)
      then Some \<lparr>c_header = wv_header (the (writeval (state reg))),
                 c_content = Write (wv_data (the (writeval (state reg))))\<rparr> else None) \<and>
    st_read_ident (state r) = st_read_ident (state reg) \<and> \<not> reading r \<and> \<not> writing (state r)"
  using assms by (auto simp: AtomicRegisterImplementation_new_def reg_inv_def Let_def)

text \<open>
  C10. Crash and recovery: stop a register after any run that began with its state on disk, and rebuild
  it from the disk. It has the read identifier it had in memory, so identifiers it used are not used
  again, and exactly an unfinished write is handed back as a client command, with its header and data.
\<close>

theorem recovery_restores_state:
  assumes "bincode_laws B" and "reg_inv reg" and "sm_inv root w"
    and "load_state (impl_env U B root i) w = state reg"
    and "\<forall>(order, msg) \<in> set msgs. set order = UNIV"
    and "run_messages (impl_env U B root i) msgs reg w = Some (reg', w', effs)"
  shows "\<exists>r. AtomicRegisterImplementation_new (impl_env U B root i) ident n w' = Some (r,
      if writing (state reg')
      then Some \<lparr>c_header = wv_header (the (writeval (state reg'))),
                 c_content = Write (wv_data (the (writeval (state reg'))))\<rparr> else None) \<and>
    st_read_ident (state r) = st_read_ident (state reg') \<and> \<not> reading r \<and> \<not> writing (state r)"
proof -
  have "reg_inv reg' \<and> load_state (impl_env U B root i) w' = state reg'"
    using reg.run_messages_total [where U = U and B = B and root = root and i = i and b = True and
        reg = reg and w = w and msgs = msgs] assms
    by (auto simp: reg.good_def)
  then show ?thesis by (intro new_load_state) simp_all
qed

lemma demo_load_state: "load_state demo_env (demo_sm, demo_disk) = empty_state"
  by (simp add: load_state_def impl_env_def impl_storage_def get_def read_file_def register_dir_def
      demo_disk_def calm_disk_def METADATA_def)

theorem recovery_restores_state_witness:
  "\<exists>reg' w' effs r. run_messages demo_env
      [(all_ranks, ClientMessage \<lparr>c_header = \<lparr>request_identifier = 4, c_sector_idx = 7\<rparr>, c_content = Write [1]\<rparr> ())]
      (idle_register 1 3) (demo_sm, demo_disk) = Some (reg', w', effs) \<and>
    AtomicRegisterImplementation_new demo_env 1 3 w' = Some (r :: unit AtomicRegisterImplementation,
      Some \<lparr>c_header = \<lparr>request_identifier = 4, c_sector_idx = 7\<rparr>, c_content = Write [1]\<rparr>)"
proof -
  let ?m = "[(all_ranks, ClientMessage \<lparr>c_header = \<lparr>request_identifier = 4, c_sector_idx = 7\<rparr>,
      c_content = Write [1]\<rparr> ())]"
  obtain reg' w' effs where run:
    "run_messages demo_env ?m (idle_register 1 3) (demo_sm, demo_disk) = Some (reg', w', effs)"
    by (simp add: handle_message_def split_beta) (metis prod_cases3)
  then have "writing (state reg')" "writeval (state reg') = Some \<lparr>wv_header =
      \<lparr>request_identifier = 4, c_sector_idx = 7\<rparr>, wv_data = [1]\<rparr>"
    by (auto simp: handle_message_def client_command_def Let_def)
  moreover have "load_state demo_env (demo_sm, demo_disk) = state (idle_register 1 3 :: unit AtomicRegisterImplementation)"
    by (simp add: demo_load_state idle_register_def)
  ultimately show ?thesis
    using run recovery_restores_state [OF demo_bincode_laws reg_inv_idle demo_inv _ _ run, of 1 3]
    by fastforce
qed

section \<open>Callbacks\<close>

text \<open>The callbacks a run called, and those client commands handed in.\<close>

definition called :: "('u, 'cb) effect list \<Rightarrow> 'cb list" where
  "called = List.map_filter (\<lambda>e. case e of Callback cb _ \<Rightarrow> Some cb | _ \<Rightarrow> None)"

definition handed_in :: "(u8 list \<times> ('u, 'cb) WorkerMessage) list \<Rightarrow> 'cb list" where
  "handed_in = List.map_filter (\<lambda>(_, m). case m of ClientMessage _ cb \<Rightarrow> Some cb | _ \<Rightarrow> None)"

abbreviation opt_mset :: "'a option \<Rightarrow> 'a multiset" where
  "opt_mset x \<equiv> (case x of None \<Rightarrow> {#} | Some a \<Rightarrow> {#a#})"

lemma called_simps [simp]:
  "called [] = []" "called (Broadcast c # es) = called es" "called (Send c n # es) = called es"
  "called (Callback cb r # es) = cb # called es" "called (xs @ ys) = called xs @ called ys"
  by (simp_all add: called_def map_filter_def)

lemma handed_in_simps [simp]:
  "handed_in [] = []" "handed_in ((ord, ClientMessage c cb) # ms) = cb # handed_in ms"
  "handed_in ((ord, SystemMessage c') # ms) = handed_in ms"
  by (simp_all add: handed_in_def)

lemma value_quorum_callback:
  "value_quorum E order h reg w = Some (reg', w', effs) \<Longrightarrow> called effs = [] \<and> callback reg' = callback reg"
  by (auto simp: value_quorum_def Let_def split: option.splits if_splits)

lemma ack_quorum_callback:
  "ack_quorum E reg w = Some (reg', w', effs) \<Longrightarrow>
     mset (called effs) + opt_mset (callback reg') = opt_mset (callback reg)"
  by (auto simp: ack_quorum_def Let_def split: option.splits if_splits)

lemma system_command_callback:
  "system_command E order cmd reg w = Some (reg', w', effs) \<Longrightarrow>
     mset (called effs) + opt_mset (callback reg') = opt_mset (callback reg)"
  by (auto simp: system_command_def on_read_proc_def on_value_def on_write_proc_def on_ack_def Let_def
      dest!: value_quorum_callback ack_quorum_callback
      split: SystemRegisterCommandContent.split_asm option.split_asm if_split_asm)

lemma run_messages_callbacks:
  "run_messages E msgs reg w = Some (reg', w', effs) \<Longrightarrow>
     mset (called effs) + opt_mset (callback reg') \<subseteq># mset (handed_in msgs) + opt_mset (callback reg)"
proof (induction msgs arbitrary: reg w effs)
  case Nil
  then show ?case by simp
next
  case (Cons om msgs)
  obtain order msg where om: "om = (order, msg)" by (cases om)
  obtain reg1 w1 e1 e2 where h: "handle_message E order msg reg w = Some (reg1, w1, e1)"
    and r: "run_messages E msgs reg1 w1 = Some (reg', w', e2)" and e: "effs = e1 @ e2"
    using Cons.prems om by (auto split: option.splits)
  have IH: "mset (called e2) + opt_mset (callback reg') \<subseteq># mset (handed_in msgs) + opt_mset (callback reg1)"
    by (rule Cons.IH [OF r])
  show ?case
  proof (cases msg)
    case (SystemMessage cmd)
    then have eq: "opt_mset (callback reg) = mset (called e1) + opt_mset (callback reg1)"
      using h system_command_callback [of E order cmd reg w reg1 w1 e1] by (simp add: handle_message_def)
    from IH have "mset (called e1) + (mset (called e2) + opt_mset (callback reg'))
        \<subseteq># mset (called e1) + (mset (handed_in msgs) + opt_mset (callback reg1))"
      by simp
    then show ?thesis
      using om e SystemMessage by (simp add: eq add.assoc add.left_commute)
  next
    case (ClientMessage cmd cb)
    then have "called e1 = []" "callback reg1 = Some cb"
      using h by (auto simp: handle_message_def client_command_def Let_def
          split: ClientRegisterCommandContent.splits)
    then show ?thesis
      using IH om e ClientMessage
      by (simp add: subset_mset.add_increasing2 subset_mset.trans)
  qed
qed

text \<open>
  C21. A client's callback is called at most once, and only if a client command handed it in: the
  callbacks a run calls, together with the one still waiting, are among those handed in (counted with
  multiplicity) and the one that waited before.
\<close>

theorem callbacks_called_at_most_once:
  assumes "run_messages E msgs reg w = Some (reg', w', effs)"
  shows "mset (called effs) + opt_mset (callback reg') \<subseteq># mset (handed_in msgs) + opt_mset (callback reg)"
  by (rule run_messages_callbacks [OF assms])

theorem callbacks_called_at_most_once_witness:
  "\<exists>reg' w' effs. run_messages demo_env
      [(all_ranks, ClientMessage \<lparr>c_header = \<lparr>request_identifier = 4, c_sector_idx = 7\<rparr>, c_content = Read\<rparr> (1 :: nat)),
       (all_ranks, SystemMessage \<lparr>s_header = SystemCommandHeader_new 1 4 1 7, s_content = Ack\<rparr>),
       (all_ranks, SystemMessage \<lparr>s_header = SystemCommandHeader_new 1 4 1 7, s_content = Ack\<rparr>)]
      (idle_register 1 1) (demo_sm, demo_disk) = Some (reg', w', effs) \<and> called effs = [1] \<and> callback reg' = None"
proof -
  let ?ms = "[(all_ranks, ClientMessage \<lparr>c_header = \<lparr>request_identifier = 4, c_sector_idx = 7\<rparr>, c_content = Read\<rparr> (1 :: nat)),
       (all_ranks, SystemMessage \<lparr>s_header = SystemCommandHeader_new 1 (4 :: u128) 1 7, s_content = Ack\<rparr>),
       (all_ranks, SystemMessage \<lparr>s_header = SystemCommandHeader_new 1 4 1 7, s_content = Ack\<rparr>)]"
  obtain reg' w' effs where run: "run_messages demo_env ?ms (idle_register 1 1) (demo_sm, demo_disk) = Some (reg', w', effs)"
    "called effs = [1]"
    by (simp add: handle_message_def client_command_def system_command_def on_ack_def ack_quorum_def idle_register_def
        empty_state_def SystemCommandHeader_new_def Let_def)
  from callbacks_called_at_most_once [OF run(1)] run(2)
  have "mset [1] + opt_mset (callback reg') \<subseteq># {#1#}" by (simp add: idle_register_def)
  then have "callback reg' = None" by (auto split: option.splits)
  with run show ?thesis by blast
qed

section \<open>Majorities of values\<close>

text \<open>
  C12. The \<open>Value\<close> message that completes a majority for the current read identifier makes the register
  broadcast one \<open>WriteProc\<close>, under the next read identifier: for a read the pair with the highest tag
  among the answers, for a write the client's data under the highest timestamp plus one and the
  process's own rank. The lists are emptied, and the new identifier is on disk before the broadcast.
\<close>

theorem value_majority_broadcasts_highest:
  assumes "reg_inv reg" and "set order = UNIV" and "read_ident h = st_read_ident (state reg)"
    and "reading reg \<or> writing (state reg)"
    and "processes_count reg < 2 * card (insert (process_identifier h) (dom (readlist reg)))"
  shows "\<exists>t r v reg'. highest ((readlist reg)(process_identifier h \<mapsto> (ts, wr, d))) t r v \<and>
    on_value E order h ts wr d reg w = Some (reg', store_state E reg' w,
      [Broadcast \<lparr>s_header = SystemCommandHeader_new (self_ident reg) (msg_ident h)
                    (st_read_ident (state reg) + 1) (s_sector_idx h),
                  s_content = (if reading reg then WriteProc t r v
                    else WriteProc (t + 1) (self_ident reg) (wv_data (the (writeval (state reg)))))\<rparr>]) \<and>
    readlist reg' = Map.empty \<and> acks reg' = {} \<and> st_read_ident (state reg') = st_read_ident (state reg) + 1"
  using assms(1,2)
proof (cases rule: on_value_cases [where E = E and h = h and ts = ts and wr = wr and d = d and w = w])
  case (quorum reg' t r v)
  then show ?thesis
    by (intro exI [of _ t] exI [of _ r] exI [of _ v] exI [of _ "quorum_next reg' v"])
      (auto simp: quorum_next_def quorum_content_def)
qed (use assms in auto)

theorem value_majority_broadcasts_highest_witness:
  "\<exists>t r v reg'. highest [1 \<mapsto> (4, 2, [7]), 2 \<mapsto> (5, 1, [8])] t r v \<and>
    on_value demo_env all_ranks (SystemCommandHeader_new 2 9 0 3) 5 1 [8]
      ((idle_register 1 3 :: unit AtomicRegisterImplementation)\<lparr>reading := True, readlist := [1 \<mapsto> (4, 2, [7])],
        readval := Some \<lparr>rv_request_identifier = 9, rv_data = []\<rparr>\<rparr>) (demo_sm, demo_disk)
    = Some (reg', store_state demo_env reg' (demo_sm, demo_disk),
        [Broadcast \<lparr>s_header = SystemCommandHeader_new 1 9 1 3, s_content = WriteProc t r v\<rparr>])"
  using value_majority_broadcasts_highest [where E = demo_env and order = all_ranks and ts = 5 and wr = 1 and
      d = "[8]" and w = "(demo_sm, demo_disk)" and h = "SystemCommandHeader_new 2 9 0 3" and
      reg = "(idle_register 1 3 :: unit AtomicRegisterImplementation)\<lparr>reading := True, readlist := [1 \<mapsto> (4, 2, [7])],
        readval := Some \<lparr>rv_request_identifier = 9, rv_data = []\<rparr>\<rparr>"]
  by (simp add: idle_register_def empty_state_def SystemCommandHeader_new_def reg_inv_def) blast

lemma word_less_plus_one:
  assumes "(t :: u64) \<le> m" and "m \<noteq> - 1"
  shows "t < m + 1"
proof -
  have "1 + m \<noteq> 0" using assms(2) by (simp add: add_eq_0_iff eq_commute [of m])
  from unatSuc [OF this] assms(1) show ?thesis
    by (simp add: word_less_nat_alt word_le_nat_alt add.commute)
qed

text \<open>
  C13. A write overtakes what a majority holds: the tag it broadcasts is greater than every tag the
  majority answered with, as long as the highest timestamp among them is not \<open>2^64 - 1\<close>.
\<close>

theorem write_dominates_quorum:
  assumes "reg_inv reg" and "set order = UNIV" and "\<not> reading reg"
    and "on_value E order h ts wr d reg w = Some (reg', w', [Broadcast \<lparr>s_header = h', s_content = WriteProc t r v\<rparr>])"
    and "\<forall>q t' r' d'. ((readlist reg)(process_identifier h \<mapsto> (ts, wr, d))) q = Some (t', r', d') \<longrightarrow> t' \<noteq> - 1"
    and "((readlist reg)(process_identifier h \<mapsto> (ts, wr, d))) q = Some (t', r', d')"
  shows "(t', r') < (t, r)"
  using assms(1,2)
proof (cases rule: on_value_cases [where E = E and h = h and ts = ts and wr = wr and d = d and w = w])
  case (quorum reg1 t1 r1 v1)
  have t: "t = t1 + 1"
    using quorum assms(3,4) by (simp add: quorum_content_def)
  have hi: "highest ((readlist reg)(process_identifier h \<mapsto> (ts, wr, d))) t1 r1 v1"
    using quorum by simp
  then have "t1 \<noteq> - 1" "(t', r') \<le> (t1, r1)"
    using assms(5,6) highestD(1) [OF hi] highestD(2) [OF hi] by blast+
  then have "t' < t"
    using word_less_plus_one [of t' t1] t by (auto simp: less_eq_prod_def)
  then show ?thesis by simp
qed (use assms in auto)

abbreviation writing_register :: "unit AtomicRegisterImplementation" where
  "writing_register \<equiv> (idle_register 1 3)\<lparr>readlist := [1 \<mapsto> (4, 2, [7])],
      state := \<lparr>st_read_ident = 0, writing = True, writeval = Some \<lparr>wv_header = \<lparr>request_identifier = 9,
        c_sector_idx = 3\<rparr>, wv_data = [6]\<rparr>\<rparr>\<rparr>"

lemma writing_register_value:
  assumes "(4, 2) \<le> (ts, wr)"
  shows "\<exists>reg' w'. on_value demo_env all_ranks (SystemCommandHeader_new 2 (9 :: u128) 0 3) ts wr [8] writing_register
      (demo_sm, demo_disk) = Some (reg', w',
       [Broadcast \<lparr>s_header = SystemCommandHeader_new 1 9 1 3, s_content = WriteProc (ts + 1) 1 [6]\<rparr>])"
proof -
  let ?h = "SystemCommandHeader_new 2 (9 :: u128) 0 3"
  have "reg_inv writing_register" by (simp add: reg_inv_def idle_register_def)
  from this set_all_ranks show ?thesis
  proof (cases rule: on_value_cases [where E = demo_env and h = ?h and ts = ts and wr = wr and d = "[8]"
        and w = "(demo_sm, demo_disk)"])
    case (quorum reg' t r v)
    have "highest [1 \<mapsto> (4, 2, [7]), 2 \<mapsto> (ts, wr, [8])] t r v"
      using quorum by (simp add: SystemCommandHeader_new_def)
    note hi = highestD(1) [OF this] highestD(2) [OF this, of 2 ts wr "[8]"]
    have "t = ts" using hi assms by (auto split: if_split_asm)
    then show ?thesis using quorum
      by (auto simp: quorum_content_def idle_register_def SystemCommandHeader_new_def)
  qed (auto simp: idle_register_def SystemCommandHeader_new_def)
qed

theorem write_dominates_quorum_witness:
  "\<exists>reg' w'. on_value demo_env all_ranks (SystemCommandHeader_new 2 (9 :: u128) 0 3) 5 1 [8] writing_register
      (demo_sm, demo_disk) = Some (reg', w',
       [Broadcast \<lparr>s_header = SystemCommandHeader_new 1 9 1 3, s_content = WriteProc 6 1 [6]\<rparr>]) \<and>
    ((4 :: u64), (2 :: u8)) < (6, 1)"
proof -
  let ?h = "SystemCommandHeader_new 2 (9 :: u128) 0 3"
  obtain reg' w' where run: "on_value demo_env all_ranks ?h 5 1 [8] writing_register
      (demo_sm, demo_disk) = Some (reg', w',
       [Broadcast \<lparr>s_header = SystemCommandHeader_new 1 9 1 3, s_content = WriteProc 6 1 [6]\<rparr>])"
    using writing_register_value [of 5 1] by auto
  have "reg_inv writing_register" "\<not> reading writing_register"
    by (simp_all add: reg_inv_def idle_register_def)
  from write_dominates_quorum [OF this(1) set_all_ranks this(2) run, of 1 4 2 "[7]"] run
  show ?thesis by (auto simp: SystemCommandHeader_new_def split: if_split_asm)
qed



end
