(* ===== verification/Register_Liveness.thy ===== *)
theory Register_Liveness
  imports Register_Properties
begin

text \<open>
  A whole operation of a register (\<^verbatim>\<open>solution/src/atomic_register.rs\<close>): a client command, the answers of
  a majority, the acknowledgements of a majority. Other processes' \<open>ReadProc\<close> and \<open>WriteProc\<close> messages,
  repeated answers and stale ones may come in between. The operation completes, with exactly one
  broadcast per phase and one call of the callback.
\<close>

section \<open>Effects and messages of an operation\<close>

text \<open>The effects other than direct answers to a process.\<close>

definition own_effects :: "('u, 'cb) effect list \<Rightarrow> ('u, 'cb) effect list" where
  "own_effects = filter (\<lambda>e. case e of Send _ _ \<Rightarrow> False | _ \<Rightarrow> True)"

text \<open>A system message that a register under read identifier \<open>k\<close> does not count.\<close>

definition ignored :: "u64 \<Rightarrow> ('u, 'cb) WorkerMessage \<Rightarrow> bool" where
  "ignored k m = (case m of
       SystemMessage cmd \<Rightarrow>
         (case s_content cmd of
            Value _ _ _ \<Rightarrow> read_ident (s_header cmd) \<noteq> k
          | Ack \<Rightarrow> read_ident (s_header cmd) \<noteq> k
          | _ \<Rightarrow> True)
     | ClientMessage _ _ \<Rightarrow> False)"

text \<open>The answer, and the acknowledgement, for read identifier \<open>k\<close> that a message brings.\<close>

definition answer :: "u64 \<Rightarrow> ('u, 'cb) WorkerMessage \<Rightarrow> (u8 \<times> u64 \<times> u8 \<times> SectorVec) option" where
  "answer k m = (case m of
       SystemMessage cmd \<Rightarrow>
         (case s_content cmd of
            Value ts wr d \<Rightarrow>
              if read_ident (s_header cmd) = k then Some (process_identifier (s_header cmd), ts, wr, d) else None
          | _ \<Rightarrow> None)
     | ClientMessage _ _ \<Rightarrow> None)"

definition acker :: "u64 \<Rightarrow> ('u, 'cb) WorkerMessage \<Rightarrow> u8 option" where
  "acker k m = (case m of
       SystemMessage cmd \<Rightarrow>
         if s_content cmd = Ack \<and> read_ident (s_header cmd) = k then Some (process_identifier (s_header cmd)) else None
     | ClientMessage _ _ \<Rightarrow> None)"

definition answers :: "u64 \<Rightarrow> (u8 list \<times> ('u, 'cb) WorkerMessage) list \<Rightarrow> (u8 \<times> u64 \<times> u8 \<times> SectorVec) list" where
  "answers k ms = List.map_filter (\<lambda>(_, m). answer k m) ms"

definition ackers :: "u64 \<Rightarrow> (u8 list \<times> ('u, 'cb) WorkerMessage) list \<Rightarrow> u8 list" where
  "ackers k ms = List.map_filter (\<lambda>(_, m). acker k m) ms"

text \<open>The messages of the two phases of an operation whose client command took read identifier \<open>k\<close>.\<close>

definition query_message :: "u64 \<Rightarrow> ('u, 'cb) WorkerMessage \<Rightarrow> bool" where
  "query_message k m \<longleftrightarrow> ignored (k + 1) m \<and> (ignored k m \<or> answer k m \<noteq> None)"

definition propagate_message :: "u64 \<Rightarrow> ('u, 'cb) WorkerMessage \<Rightarrow> bool" where
  "propagate_message k m \<longleftrightarrow> ignored (k + 1) m \<or> acker (k + 1) m \<noteq> None"

lemma own_effects_simps [simp]:
  "own_effects [] = []" "own_effects (Send c n # es) = own_effects es"
  "own_effects (Broadcast c # es) = Broadcast c # own_effects es"
  "own_effects (Callback cb r # es) = Callback cb r # own_effects es"
  "own_effects (xs @ ys) = own_effects xs @ own_effects ys"
  by (simp_all add: own_effects_def)

lemma answers_simps [simp]:
  "answers k [] = []" "answers k ((ord, m) # ms) = (case answer k m of None \<Rightarrow> [] | Some a \<Rightarrow> [a]) @ answers k ms"
  by (simp_all add: answers_def split: option.split)

lemma ackers_simps [simp]:
  "ackers k [] = []" "ackers k ((ord, m) # ms) = (case acker k m of None \<Rightarrow> [] | Some a \<Rightarrow> [a]) @ ackers k ms"
  by (simp_all add: ackers_def split: option.split)

lemma answerE:
  assumes "answer k m = Some a"
  obtains h ts wr d where "m = SystemMessage \<lparr>s_header = h, s_content = Value ts wr d\<rparr>" and "read_ident h = k"
    and "a = (process_identifier h, ts, wr, d)"
proof (cases m)
  case (SystemMessage cmd)
  with assms that show thesis
    by (cases cmd) (auto simp: answer_def split: SystemRegisterCommandContent.splits if_splits)
qed (use assms in \<open>simp add: answer_def\<close>)

lemma ackerE:
  assumes "acker k m = Some q"
  obtains h where "m = SystemMessage \<lparr>s_header = h, s_content = Ack\<rparr>" and "read_ident h = k"
    and "q = process_identifier h"
proof (cases m)
  case (SystemMessage cmd)
  with assms that show thesis by (cases cmd) (auto simp: acker_def split: if_splits)
qed (use assms in \<open>simp add: acker_def\<close>)

lemma ignored_none: "ignored k m \<Longrightarrow> answer k m = None" "ignored k m \<Longrightarrow> acker k m = None"
  by (auto simp: ignored_def answer_def acker_def split: WorkerMessage.splits SystemRegisterCommandContent.splits)

section \<open>The phases\<close>

context register_world
begin

lemma ignored_step:
  assumes "good False reg w" and "ignored (st_read_ident (state reg)) m"
  obtains w' effs where "handle_message E ord m reg w = Some (reg, w', effs)" and "good False reg w'"
    and "own_effects effs = []"
proof (cases m)
  case (SystemMessage cmd)
  have inv: "inv w" "reg_inv reg" using assms(1) by (simp_all add: good_def)
  show thesis
  proof (cases "s_content cmd")
    case (WriteProc ts wr d)
    obtain w' effs where "on_write_proc E (s_header cmd) ts wr d reg w = Some (reg, w', effs)" "inv w'"
      "own_effects effs = []"
      by (rule on_write_proc_spec [OF inv(1), where h = "s_header cmd" and ts = ts and wr = wr and d = d and reg = reg])
        simp
    with SystemMessage WriteProc inv show thesis
      by (intro that [of w' effs]) (simp_all add: handle_message_def system_command_def good_def)
  qed (use SystemMessage assms inv that in
      \<open>auto simp: handle_message_def system_command_def on_read_proc_spec on_value_def on_ack_def ignored_def good_def\<close>)
qed (use assms in \<open>simp add: ignored_def\<close>)

lemma ignored_run:
  assumes "good False reg w" and "\<forall>(ord, m) \<in> set ms. ignored (st_read_ident (state reg)) m"
  shows "\<exists>w' effs. run_messages E ms reg w = Some (reg, w', effs) \<and> good False reg w' \<and> own_effects effs = []"
  using assms
proof (induction ms arbitrary: w)
  case Nil
  then show ?case by simp
next
  case (Cons om ms)
  obtain ord m where om: "om = (ord, m)" by (cases om)
  with Cons.prems(2) have "ignored (st_read_ident (state reg)) m" by simp
  from Cons.prems(1) this obtain w1 effs1 where
    1: "handle_message E ord m reg w = Some (reg, w1, effs1)" "good False reg w1" "own_effects effs1 = []"
    by (rule ignored_step)
  from Cons.IH [OF 1(2)] Cons.prems(2) obtain w2 effs2 where
    "run_messages E ms reg w1 = Some (reg, w2, effs2)" "good False reg w2" "own_effects effs2 = []"
    by auto
  with 1 om show ?case by simp
qed

text \<open>
  The run of \<open>ms\<close> ends the query phase: one broadcast of the highest of a majority of answers out of \<open>A\<close>,
  under the next read identifier.
\<close>

definition queried ::
    "u64 \<Rightarrow> (u8 \<times> u64 \<times> u8 \<times> SectorVec) set \<Rightarrow> 'cb AtomicRegisterImplementation
     \<Rightarrow> (u8 list \<times> ('u, 'cb) WorkerMessage) list \<Rightarrow> 'w \<Rightarrow> bool" where
  "queried k A reg ms w \<longleftrightarrow> (\<exists>w' effs rl t r d h. run_messages E ms reg w = Some (quorum_next reg d, w', effs) \<and>
    good False (quorum_next reg d) w' \<and>
    own_effects effs = [Broadcast \<lparr>s_header = h, s_content = quorum_content reg t r d\<rparr>] \<and>
    read_ident h = k + 1 \<and> process_identifier h = self_ident reg \<and>
    (\<forall>q v. rl q = Some v \<longrightarrow> (q, v) \<in> A) \<and> processes_count reg < 2 * card (dom rl) \<and> highest rl t r d)"

lemma queried_Cons:
  assumes "handle_message E ord m reg w = Some (reg1, w1, effs1)" and "own_effects effs1 = []"
    and "queried k A reg1 ms w1" and "A \<subseteq> A'" and "reg1 = reg\<lparr>readlist := rl1\<rparr>"
  shows "queried k A' reg ((ord, m) # ms) w"
proof -
  have "quorum_next reg1 d = quorum_next reg d" "quorum_content reg1 t r d = quorum_content reg t r d" for t r d
    by (simp_all add: assms(5) quorum_next_def quorum_content_def)
  then obtain w' effs rl t r d h where "run_messages E ms reg1 w1 = Some (quorum_next reg d, w', effs)"
    and rest: "good False (quorum_next reg d) w'"
    "own_effects effs = [Broadcast \<lparr>s_header = h, s_content = quorum_content reg t r d\<rparr>]"
    "read_ident h = k + 1" "process_identifier h = self_ident reg1" "\<forall>q v. rl q = Some v \<longrightarrow> (q, v) \<in> A"
    "processes_count reg1 < 2 * card (dom rl)" "highest rl t r d"
    using assms(3) by (auto simp: queried_def)
  then have "run_messages E ((ord, m) # ms) reg w = Some (quorum_next reg d, w', effs1 @ effs)"
    using assms(1) by simp
  moreover have "\<forall>q v. rl q = Some v \<longrightarrow> (q, v) \<in> A'" using rest(5) assms(4) by blast
  ultimately show ?thesis
    unfolding queried_def using rest assms(2,5)
    by (intro exI [of _ w'] exI [of _ "effs1 @ effs"] exI [of _ rl] exI [of _ t] exI [of _ r] exI [of _ d] exI [of _ h])
      simp
qed

lemma collect_values:
  assumes "good False reg w" and "reading reg \<or> writing (state reg)" and "st_read_ident (state reg) = k"
    and "\<forall>(ord, m) \<in> set ms. set ord = UNIV \<and> query_message k m"
    and "2 * card (dom (readlist reg)) \<le> processes_count reg"
    and "processes_count reg < 2 * card (dom (readlist reg) \<union> fst ` set (answers k ms))"
  shows "queried k ({(q, v). readlist reg q = Some v} \<union> set (answers k ms)) reg ms w"
  using assms
proof (induction ms arbitrary: reg w)
  case Nil
  then show ?case by simp
next
  case (Cons om ms)
  obtain ord m where om: "om = (ord, m)" by (cases om)
  have inv: "reg_inv reg" "inv w" using Cons.prems(1) by (simp_all add: good_def)
  from Cons.prems(4) om have ord: "set ord = UNIV" and m: "ignored k m \<or> answer k m \<noteq> None"
    and ms: "\<forall>(ord, m) \<in> set ms. set ord = UNIV \<and> query_message k m"
    by (auto simp: query_message_def)
  from m show ?case
  proof (elim disjE)
    assume ign: "ignored k m"
    from Cons.prems(1) ign [folded Cons.prems(3)] obtain w1 effs1 where
      1: "handle_message E ord m reg w = Some (reg, w1, effs1)" "good False reg w1" "own_effects effs1 = []"
      by (rule ignored_step)
    have "queried k ({(q, v). readlist reg q = Some v} \<union> set (answers k ms)) reg ms w1"
      using Cons.prems(6) ignored_none(1) [OF ign] om
      by (intro Cons.IH 1(2) Cons.prems(2,3,5) ms) simp
    from queried_Cons [OF 1(1,3) this, of _ "readlist reg"] om ignored_none(1) [OF ign]
    show ?thesis by simp
  next
    assume "answer k m \<noteq> None"
    then obtain a where a: "answer k m = Some a" by blast
    then obtain h ts wr d where m_eq: "m = SystemMessage \<lparr>s_header = h, s_content = Value ts wr d\<rparr>"
      and h: "read_ident h = k" and a_eq: "a = (process_identifier h, ts, wr, d)"
      by (rule answerE)
    have step: "handle_message E ord m reg w = on_value E ord h ts wr d reg w"
      by (simp add: m_eq handle_message_def system_command_def)
    from inv(1) ord show ?thesis
    proof (cases rule: on_value_cases [where E = E and h = h and ts = ts and wr = wr and d = d and w = w])
      case stale
      with h Cons.prems(3) show ?thesis by simp
    next
      case (collect reg1)
      have good1: "good False reg1 w" using Cons.prems(1) collect(1) by (simp add: good_def)
      have dom1: "dom (readlist reg1) \<union> X = dom (readlist reg) \<union> insert (process_identifier h) X" for X
        using collect(1) by auto
      have "queried k ({(q, v). readlist reg1 q = Some v} \<union> set (answers k ms)) reg1 ms w"
      proof (intro Cons.IH good1 ms)
        show "processes_count reg1 < 2 * card (dom (readlist reg1) \<union> fst ` set (answers k ms))"
          using Cons.prems(6) collect(1) unfolding dom1 by (simp add: om a a_eq)
        show "2 * card (dom (readlist reg1)) \<le> processes_count reg1"
          using collect(1,3) Cons.prems(2) by simp
      qed (use Cons.prems(2,3) collect(1) in simp_all)
      moreover have "handle_message E ord m reg w = Some (reg1, w, [])"
        using step collect(4) by simp
      ultimately show ?thesis unfolding om
        by (intro queried_Cons [where ?effs1.0 = "[]" and ?reg1.0 = reg1]) (auto simp: a a_eq collect(1) split: if_split_asm)
    next
      case (quorum reg1 t r v)
      have next_eq: "quorum_next reg1 v = quorum_next reg v" "quorum_content reg1 t r v = quorum_content reg t r v"
        by (simp_all add: quorum(1) quorum_next_def quorum_content_def)
      let ?w = "store_state E (quorum_next reg v) w"
      have "good False (quorum_next reg v) ?w" using inv by (simp add: good_def store_state_spec)
      moreover have "\<forall>(ord, m) \<in> set ms. ignored (st_read_ident (state (quorum_next reg v))) m"
        using ms Cons.prems(3) by (auto simp: query_message_def quorum_next_def)
      ultimately obtain w' effs where run: "run_messages E ms (quorum_next reg v) ?w = Some (quorum_next reg v, w', effs)"
        "good False (quorum_next reg v) w'" "own_effects effs = []"
        using ignored_run by blast
      let ?h = "SystemCommandHeader_new (self_ident reg) (msg_ident h) (st_read_ident (state reg) + 1) (s_sector_idx h)"
      have "run_messages E ((ord, m) # ms) reg w = Some (quorum_next reg v, w',
          Broadcast \<lparr>s_header = ?h, s_content = quorum_content reg t r v\<rparr> # effs)"
        using run(1) by (simp add: step quorum(6) next_eq)
      moreover have "\<forall>q' v'. readlist reg1 q' = Some v' \<longrightarrow>
          (q', v') \<in> {(q, v). readlist reg q = Some v} \<union> set (answers k ((ord, m) # ms))"
        using quorum(1) by (auto simp: a a_eq split: if_split_asm)
      moreover have "read_ident ?h = k + 1" "process_identifier ?h = self_ident reg"
        using Cons.prems(3) by (simp_all add: SystemCommandHeader_new_def)
      ultimately show ?thesis
        unfolding queried_def om using run(2,3) quorum(4,5)
        by (intro exI [of _ w'] exI [of _ "Broadcast _ # effs"] exI [of _ "readlist reg1"] exI [of _ t] exI [of _ r]
            exI [of _ v] exI [of _ ?h] conjI) simp_all
    qed
  qed
qed

text \<open>A register without an operation in progress has no effects of its own.\<close>

lemma idle_step:
  assumes "good False reg w" and "\<not> reading reg" and "\<not> writing (state reg)"
    and "acker k m \<noteq> None"
  obtains reg' where "handle_message E ord m reg w = Some (reg', w, [])" and "good False reg' w"
    and "reg' = reg\<lparr>acks := acks reg'\<rparr>"
proof -
  from assms(4) obtain h where "m = SystemMessage \<lparr>s_header = h, s_content = Ack\<rparr>" by (metis ackerE option.exhaust)
  then have "handle_message E ord m reg w = Some (if read_ident h \<noteq> st_read_ident (state reg) then reg
      else reg\<lparr>acks := insert (process_identifier h) (acks reg)\<rparr>, w, [])"
    using assms(2,3) by (simp add: handle_message_def system_command_def on_ack_def Let_def)
  moreover have "good False (if read_ident h \<noteq> st_read_ident (state reg) then reg
      else reg\<lparr>acks := insert (process_identifier h) (acks reg)\<rparr>) w"
    using assms(1) by (simp add: good_def)
  ultimately show thesis by (rule that) simp
qed

lemma idle_run:
  assumes "good False reg w" and "\<not> reading reg" and "\<not> writing (state reg)" and "st_read_ident (state reg) = k + 1"
    and "\<forall>(ord, m) \<in> set ms. propagate_message k m"
  shows "\<exists>reg' w' effs. run_messages E ms reg w = Some (reg', w', effs) \<and> reg' = reg\<lparr>acks := acks reg'\<rparr> \<and>
    own_effects effs = []"
  using assms
proof (induction ms arbitrary: reg w)
  case Nil
  then show ?case by simp
next
  case (Cons om ms)
  obtain ord m where om: "om = (ord, m)" by (cases om)
  from Cons.prems(5) om have m: "ignored (k + 1) m \<or> acker (k + 1) m \<noteq> None" by (auto simp: propagate_message_def)
  have "\<exists>reg1 w1 effs1. handle_message E ord m reg w = Some (reg1, w1, effs1) \<and> good False reg1 w1 \<and>
      reg1 = reg\<lparr>acks := acks reg1\<rparr> \<and> own_effects effs1 = []"
    using m
  proof
    assume "ignored (k + 1) m"
    from Cons.prems(1) this [folded Cons.prems(4)] show ?thesis by (rule ignored_step [where ord = ord]) auto
  next
    assume "acker (k + 1) m \<noteq> None"
    from Cons.prems(1-3) this show ?thesis by (rule idle_step [where ord = ord]) auto
  qed
  then obtain reg1 w1 effs1 where 1: "handle_message E ord m reg w = Some (reg1, w1, effs1)" "good False reg1 w1"
    "reg1 = reg\<lparr>acks := acks reg1\<rparr>" "own_effects effs1 = []" by blast
  have "\<not> reading reg1" "\<not> writing (state reg1)" "st_read_ident (state reg1) = k + 1"
    using Cons.prems(2-4) by (subst 1(3), simp)+
  from Cons.IH [OF 1(2) this] Cons.prems(5) obtain reg2 w2 effs2 where
    2: "run_messages E ms reg1 w1 = Some (reg2, w2, effs2)" "reg2 = reg1\<lparr>acks := acks reg2\<rparr>" "own_effects effs2 = []"
    by auto
  have "reg2 = reg\<lparr>acks := acks reg2\<rparr>" by (subst 2(2), subst 1(3)) simp
  with 1 2 om show ?case by (intro exI [of _ reg2] exI [of _ w2] exI [of _ "effs1 @ effs2"]) simp
qed

text \<open>
  The run of \<open>ms\<close> ends the operation: the callback is called once, with the result, and the register is idle.
\<close>

definition completed ::
    "'cb \<Rightarrow> 'cb AtomicRegisterImplementation \<Rightarrow> (u8 list \<times> ('u, 'cb) WorkerMessage) list \<Rightarrow> 'w \<Rightarrow> bool" where
  "completed cb reg ms w \<longleftrightarrow> (\<exists>reg' w' effs. run_messages E ms reg w = Some (reg', w', effs) \<and>
     own_effects effs = [Callback cb (ack_result reg)] \<and>
     callback reg' = None \<and> \<not> reading reg' \<and> \<not> writing (state reg'))"

lemma completed_Cons:
  assumes "handle_message E ord m reg w = Some (reg\<lparr>acks := A\<rparr>, w1, effs1)" and "own_effects effs1 = []"
    and "completed cb (reg\<lparr>acks := A\<rparr>) ms w1"
  shows "completed cb reg ((ord, m) # ms) w"
proof -
  have "ack_result (reg\<lparr>acks := A\<rparr>) = ack_result reg" by (simp add: ack_result_def)
  with assms show ?thesis unfolding completed_def by force
qed

lemma collect_acks:
  assumes "good False reg w" and "reading reg \<noteq> writing (state reg)" and "st_read_ident (state reg) = k + 1"
    and "callback reg = Some cb" and "\<forall>(ord, m) \<in> set ms. propagate_message k m"
    and "2 * card (acks reg) \<le> processes_count reg"
    and "processes_count reg < 2 * card (acks reg \<union> set (ackers (k + 1) ms))"
  shows "completed cb reg ms w"
  using assms
proof (induction ms arbitrary: reg w)
  case Nil
  then show ?case by simp
next
  case (Cons om ms)
  obtain ord m where om: "om = (ord, m)" by (cases om)
  have inv: "reg_inv reg" "inv w" using Cons.prems(1) by (simp_all add: good_def)
  from Cons.prems(5) om have m: "ignored (k + 1) m \<or> acker (k + 1) m \<noteq> None"
    and ms: "\<forall>(ord, m) \<in> set ms. propagate_message k m"
    by (auto simp: propagate_message_def)
  from m show ?case
  proof (elim disjE)
    assume ign: "ignored (k + 1) m"
    from Cons.prems(1) ign [folded Cons.prems(3)] obtain w1 effs1 where
      1: "handle_message E ord m reg w = Some (reg, w1, effs1)" "good False reg w1" "own_effects effs1 = []"
      by (rule ignored_step)
    have "completed cb reg ms w1"
      using Cons.prems(7) ignored_none(2) [OF ign] om
      by (intro Cons.IH 1(2) Cons.prems(2-4,6) ms) simp
    with completed_Cons [of ord m reg w "acks reg" w1 effs1 cb ms] 1 om show ?thesis by simp
  next
    assume "acker (k + 1) m \<noteq> None"
    then obtain q where q: "acker (k + 1) m = Some q" by blast
    then obtain h where m_eq: "m = SystemMessage \<lparr>s_header = h, s_content = Ack\<rparr>"
      and h: "read_ident h = k + 1" and q_eq: "q = process_identifier h"
      by (rule ackerE)
    have step: "handle_message E ord m reg w = on_ack E h reg w"
      by (simp add: m_eq handle_message_def system_command_def)
    from inv(1) show ?thesis
    proof (cases rule: on_ack_cases [where E = E and h = h and w = w])
      case stale
      with h Cons.prems(3) show ?thesis by simp
    next
      case (collect reg1)
      have "completed cb reg1 ms w"
      proof (intro Cons.IH ms)
        show "good False reg1 w" using Cons.prems(1) collect(1) by (simp add: good_def)
        show "2 * card (acks reg1) \<le> processes_count reg1"
          using collect(1,3) Cons.prems(2) by auto
        show "processes_count reg1 < 2 * card (acks reg1 \<union> set (ackers (k + 1) ms))"
          using Cons.prems(7) collect(1) by (simp add: om q q_eq)
      qed (use Cons.prems(2-4) collect(1) in simp_all)
      then show ?thesis unfolding om
        using completed_Cons [of ord m reg w _ w "[]" cb ms] step collect(1,4) by simp
    next
      case (quorum reg1)
      let ?w = "if reading reg then w else store_state E (ack_next reg1) w"
      have "good False (ack_next reg1) ?w"
        using inv quorum(1) by (simp add: good_def store_state_spec)
      moreover have idle: "\<not> reading (ack_next reg1)" "\<not> writing (state (ack_next reg1))" "callback (ack_next reg1) = None"
        and "st_read_ident (state (ack_next reg1)) = k + 1" and res: "ack_result reg1 = ack_result reg"
        using Cons.prems(2,3) quorum(1) by (auto simp: ack_next_def ack_result_def)
      ultimately obtain reg2 w2 effs2 where
        run: "run_messages E ms (ack_next reg1) ?w = Some (reg2, w2, effs2)" "own_effects effs2 = []"
        and same: "reg2 = (ack_next reg1)\<lparr>acks := acks reg2\<rparr>"
        using idle_run [of "ack_next reg1" ?w k ms] ms by blast
      have "\<not> reading reg2" "\<not> writing (state reg2)" "callback reg2 = None"
        using idle by (subst same, simp)+
      moreover have "run_messages E ((ord, m) # ms) reg w = Some (reg2, w2, Callback cb (ack_result reg) # effs2)"
        using step quorum(5) run(1) res Cons.prems(4) by simp
      ultimately show ?thesis unfolding completed_def om using run(2) by auto
    qed
  qed
qed

lemma run_messages_append:
  "run_messages E ms reg w = Some (reg1, w1, effs1) \<Longrightarrow> run_messages E ms' reg1 w1 = Some (reg2, w2, effs2) \<Longrightarrow>
     run_messages E (ms @ ms') reg w = Some (reg2, w2, effs1 @ effs2)"
  by (induction ms arbitrary: reg w effs1) (auto split: option.splits)

text \<open>What the two phases of a client command broadcast and report.\<close>

lemma operation_run:
  assumes "reg_inv reg" and "inv w" and idle: "\<not> reading reg" "\<not> writing (state reg)"
    and k: "k = st_read_ident (state reg) + 1"
    and qs: "\<forall>(ord, m) \<in> set qs. set ord = UNIV \<and> query_message k m"
    and ps: "\<forall>(ord, m) \<in> set ps. propagate_message k m"
    and maj: "processes_count reg < 2 * card (fst ` set (answers k qs))"
      "processes_count reg < 2 * card (set (ackers (k + 1) ps))"
  shows "\<exists>reg' w' effs h1 h2 rl t r d.
    run_messages E ((ord, ClientMessage cmd cb) # qs @ ps) reg w = Some (reg', w', effs) \<and>
    own_effects effs =
      [Broadcast \<lparr>s_header = h1, s_content = ReadProc\<rparr>,
       Broadcast \<lparr>s_header = h2, s_content = (case c_content cmd of
           Read \<Rightarrow> WriteProc t r d | Write v \<Rightarrow> WriteProc (t + 1) (self_ident reg) v)\<rparr>,
       Callback cb \<lparr>status_code = Ok, op_request_identifier = request_identifier (c_header cmd),
         op_return = (case c_content cmd of Read \<Rightarrow> ReadReturn (Some d) | Write v \<Rightarrow> WriteReturn)\<rparr>] \<and>
    read_ident h1 = k \<and> read_ident h2 = k + 1 \<and> highest rl t r d \<and>
    (\<forall>q v. rl q = Some v \<longrightarrow> (q, v) \<in> set (answers k qs)) \<and> processes_count reg < 2 * card (dom rl) \<and>
    callback reg' = None \<and> \<not> reading reg' \<and> \<not> writing (state reg')"
proof -
  obtain reg1 w1 effs1 where c: "client_command E cmd cb reg w = (reg1, w1, effs1)" by (metis prod_cases3)
  have good1: "good False reg1 w1"
    by (rule client_command_good(1) [OF assms(1,2) _ c]) simp
  have reg1: "reading reg1 = (c_content cmd = Read)" "writing (state reg1) = (c_content cmd \<noteq> Read)"
    "st_read_ident (state reg1) = k" "readlist reg1 = Map.empty" "processes_count reg1 = processes_count reg"
    "self_ident reg1 = self_ident reg" "callback reg1 = Some cb"
    and more: "\<And>v. c_content cmd = Write v \<Longrightarrow> writeval (state reg1) = Some \<lparr>wv_header = c_header cmd, wv_data = v\<rparr>"
      "c_content cmd = Read \<Longrightarrow> map_option rv_request_identifier (readval reg1) = Some (request_identifier (c_header cmd))"
      "\<exists>h1. effs1 = [Broadcast \<lparr>s_header = h1, s_content = ReadProc\<rparr>] \<and> read_ident h1 = k"
    using c idle k
    by (auto simp: client_command_def Let_def SystemCommandHeader_new_def split: ClientRegisterCommandContent.splits)
  have "queried k ({(q, v). readlist reg1 q = Some v} \<union> set (answers k qs)) reg1 qs w1"
    using reg1 maj(1) qs by (intro collect_values good1) simp_all
  then obtain w2 effs2 rl t r d h2 where q: "run_messages E qs reg1 w1 = Some (quorum_next reg1 d, w2, effs2)"
    "good False (quorum_next reg1 d) w2"
    "own_effects effs2 = [Broadcast \<lparr>s_header = h2, s_content = quorum_content reg1 t r d\<rparr>]"
    "read_ident h2 = k + 1" "highest rl t r d" "processes_count reg1 < 2 * card (dom rl)"
    "\<forall>q v. rl q = Some v \<longrightarrow> (q, v) \<in> {(q, v). readlist reg1 q = Some v} \<union> set (answers k qs)"
    unfolding queried_def by blast
  have "completed cb (quorum_next reg1 d) ps w2"
    using reg1 maj(2) ps by (intro collect_acks [where k = k] q(2)) (simp_all add: quorum_next_def)
  then obtain reg3 w3 effs3 where p: "run_messages E ps (quorum_next reg1 d) w2 = Some (reg3, w3, effs3)"
    "own_effects effs3 = [Callback cb (ack_result (quorum_next reg1 d))]"
    "callback reg3 = None" "\<not> reading reg3" "\<not> writing (state reg3)"
    by (auto simp: completed_def)
  have run: "run_messages E ((ord, ClientMessage cmd cb) # qs @ ps) reg w = Some (reg3, w3, effs1 @ effs2 @ effs3)"
    using c run_messages_append [OF q(1) p(1)] by (simp add: handle_message_def)
  have rl: "\<forall>q v. rl q = Some v \<longrightarrow> (q, v) \<in> set (answers k qs)" "processes_count reg < 2 * card (dom rl)"
    using q(6,7) reg1 by simp_all
  have content: "quorum_content reg1 t r d = (case c_content cmd of
      Read \<Rightarrow> WriteProc t r d | Write v \<Rightarrow> WriteProc (t + 1) (self_ident reg) v)"
    using reg1 more(1) by (auto simp: quorum_content_def split: ClientRegisterCommandContent.split)
  have result: "ack_result (quorum_next reg1 d) = \<lparr>status_code = Ok, op_request_identifier = request_identifier (c_header cmd),
      op_return = (case c_content cmd of Read \<Rightarrow> ReadReturn (Some d) | Write v \<Rightarrow> WriteReturn)\<rparr>"
    using reg1 more(1,2) by (auto simp: ack_result_def quorum_next_def split: ClientRegisterCommandContent.split)
  obtain h1 where h1: "effs1 = [Broadcast \<lparr>s_header = h1, s_content = ReadProc\<rparr>]" "read_ident h1 = k"
    using more(3) by blast
  from h1 q p content result have "own_effects (effs1 @ effs2 @ effs3) =
      [Broadcast \<lparr>s_header = h1, s_content = ReadProc\<rparr>,
       Broadcast \<lparr>s_header = h2, s_content = (case c_content cmd of
           Read \<Rightarrow> WriteProc t r d | Write v \<Rightarrow> WriteProc (t + 1) (self_ident reg) v)\<rparr>,
       Callback cb \<lparr>status_code = Ok, op_request_identifier = request_identifier (c_header cmd),
         op_return = (case c_content cmd of Read \<Rightarrow> ReadReturn (Some d) | Write v \<Rightarrow> WriteReturn)\<rparr>]"
    by simp
  with run h1(2) q(4,5) rl p(3-5) show ?thesis by blast
qed

end

section \<open>Operations complete\<close>

text \<open>
  C3. Every operation completes once a majority answers: an idle register that gets a client command,
  then answers of a majority and acknowledgements of a majority (in any order within each phase, with
  duplicates, stale ones and other processes' requests in between) broadcasts \<open>ReadProc\<close>, then one
  \<open>WriteProc\<close>, calls the client's callback exactly once with status \<open>Ok\<close> and the command's request
  identifier, and is idle again. A read returns the data with the highest tag of a majority, the very
  pair it broadcast; a write broadcasts its data under the next timestamp.
\<close>

theorem operation_completes:
  assumes "reg_inv reg" and "sm_inv root w" and "\<not> reading reg" and "\<not> writing (state reg)"
    and "k = st_read_ident (state reg) + 1"
    and "\<forall>(ord, m) \<in> set qs. set ord = UNIV \<and> query_message k m"
    and "\<forall>(ord, m) \<in> set ps. propagate_message k m"
    and "processes_count reg < 2 * card (fst ` set (answers k qs))"
    and "processes_count reg < 2 * card (set (ackers (k + 1) ps))"
  shows "\<exists>reg' w' effs h1 h2 rl t r d.
    run_messages (impl_env U B root i) ((ord, ClientMessage cmd cb) # qs @ ps) reg w = Some (reg', w', effs) \<and>
    own_effects effs =
      [Broadcast \<lparr>s_header = h1, s_content = ReadProc\<rparr>,
       Broadcast \<lparr>s_header = h2, s_content = (case c_content cmd of
           Read \<Rightarrow> WriteProc t r d | Write v \<Rightarrow> WriteProc (t + 1) (self_ident reg) v)\<rparr>,
       Callback cb \<lparr>status_code = Ok, op_request_identifier = request_identifier (c_header cmd),
         op_return = (case c_content cmd of Read \<Rightarrow> ReadReturn (Some d) | Write v \<Rightarrow> WriteReturn)\<rparr>] \<and>
    read_ident h1 = k \<and> read_ident h2 = k + 1 \<and> highest rl t r d \<and>
    (\<forall>q v. rl q = Some v \<longrightarrow> (q, v) \<in> set (answers k qs)) \<and> processes_count reg < 2 * card (dom rl) \<and>
    callback reg' = None \<and> \<not> reading reg' \<and> \<not> writing (state reg')"
  by (rule reg.operation_run [OF assms])

abbreviation value_msg :: "u8 \<Rightarrow> u64 \<Rightarrow> u64 \<Rightarrow> u8 \<Rightarrow> SectorVec \<Rightarrow> u8 list \<times> (u128, unit) WorkerMessage" where
  "value_msg q k ts wr d \<equiv>
     (all_ranks, SystemMessage \<lparr>s_header = SystemCommandHeader_new q 9 k 7, s_content = Value ts wr d\<rparr>)"

abbreviation ack_msg :: "u8 \<Rightarrow> u64 \<Rightarrow> u8 list \<times> (u128, unit) WorkerMessage" where
  "ack_msg q k \<equiv> (all_ranks, SystemMessage \<lparr>s_header = SystemCommandHeader_new q 9 k 7, s_content = Ack\<rparr>)"

theorem operation_completes_witness:
  "\<exists>reg' w' effs. run_messages demo_env ((all_ranks, ClientMessage
        \<lparr>c_header = \<lparr>request_identifier = 9, c_sector_idx = 7\<rparr>, c_content = Write [4]\<rparr> ()) #
      [value_msg 1 1 5 2 [3], value_msg 1 1 5 2 [3], value_msg 2 1 5 2 [3], value_msg 3 1 5 2 [3]] @
      [ack_msg 3 1, ack_msg 2 2, ack_msg 1 2]) (idle_register 1 3) (demo_sm, demo_disk) = Some (reg', w', effs) \<and>
    Callback () \<lparr>status_code = Ok, op_request_identifier = 9, op_return = WriteReturn\<rparr> \<in> set (own_effects effs)"
proof -
  let ?qs = "[value_msg 1 1 5 2 [3], value_msg 1 1 5 2 [3], value_msg 2 1 5 2 [3], value_msg 3 1 5 2 [3]]"
  let ?ps = "[ack_msg 3 1, ack_msg 2 2, ack_msg 1 2]"
  let ?reg = "idle_register 1 3 :: unit AtomicRegisterImplementation"
  let ?cmd = "\<lparr>c_header = \<lparr>request_identifier = 9, c_sector_idx = 7\<rparr>, c_content = Write [4]\<rparr>"
  note defs = query_message_def propagate_message_def ignored_def answer_def acker_def SystemCommandHeader_new_def
  have reg: "\<not> reading ?reg" "\<not> writing (state ?reg)" "1 = st_read_ident (state ?reg) + 1" "processes_count ?reg = 3"
    by (simp_all add: idle_register_def empty_state_def)
  have qs: "\<forall>(ord, m) \<in> set ?qs. set ord = UNIV \<and> query_message 1 m"
    and ps: "\<forall>(ord, m) \<in> set ?ps. propagate_message 1 m" by (simp_all add: defs)
  have maj: "processes_count ?reg < 2 * card (fst ` set (answers 1 ?qs))"
    "processes_count ?reg < 2 * card (set (ackers (1 + 1) ?ps))" by (simp_all add: reg(4) defs)
  obtain reg' w' effs e1 e2 d where run: "run_messages demo_env ((all_ranks, ClientMessage ?cmd ()) # ?qs @ ?ps)
      ?reg (demo_sm, demo_disk) = Some (reg', w', effs)"
    and "own_effects effs = [e1, e2,
      Callback () \<lparr>status_code = Ok, op_request_identifier = request_identifier (c_header ?cmd),
        op_return = (case c_content ?cmd of Read \<Rightarrow> ReadReturn (Some d) | Write v \<Rightarrow> WriteReturn)\<rparr>]"
    using operation_completes [OF reg_inv_idle demo_inv reg(1-3) qs ps maj,
        of u128_uuid demo_bincode 0 all_ranks ?cmd "()"]
    by (elim exE conjE) (rule that)
  then have "Callback () \<lparr>status_code = Ok, op_request_identifier = 9, op_return = WriteReturn\<rparr> \<in> set (own_effects effs)"
    by simp
  with run show ?thesis by blast
qed

section \<open>A second client command\<close>

text \<open>
  C24. A client command that reaches a register whose operation is in progress silently ends that
  operation for its client: whatever messages follow, the first callback is never called (unless the
  same callback is handed in again). \<^verbatim>\<open>client_command\<close> overwrites \<^verbatim>\<open>callback\<close>, so its caller has to keep busy
  registers free of new client commands.
\<close>

theorem overwritten_callback_never_called:
  assumes "callback reg = Some cb1" and "cb1 \<noteq> cb2" and "cb1 \<notin> set (handed_in ms)"
    and "run_messages E ((ord, ClientMessage cmd cb2) # ms) reg w = Some (reg', w', effs)"
  shows "cb1 \<notin> set (called effs)"
proof -
  obtain reg1 w1 effs1 effs2 where c: "client_command E cmd cb2 reg w = (reg1, w1, effs1)"
    and r: "run_messages E ms reg1 w1 = Some (reg', w', effs2)" and e: "effs = effs1 @ effs2"
    using assms(4) by (auto simp: handle_message_def split: option.splits prod.splits)
  have "callback reg1 = Some cb2" "called effs1 = []"
    using c by (auto simp: client_command_def Let_def split: ClientRegisterCommandContent.splits)
  moreover have "set (called effs2) \<subseteq> set (handed_in ms) \<union> set_option (callback reg1)"
    using run_messages_callbacks [OF r] by (auto dest!: mset_subset_eqD split: option.splits)
  ultimately show ?thesis using e assms(2,3) by auto
qed

theorem overwritten_callback_never_called_witness:
  "\<exists>reg' w' effs. run_messages demo_env
      [(all_ranks, ClientMessage \<lparr>c_header = \<lparr>request_identifier = 4, c_sector_idx = 7\<rparr>, c_content = Read\<rparr> (2 :: nat)),
       (all_ranks, SystemMessage \<lparr>s_header = SystemCommandHeader_new 1 4 1 7, s_content = Ack\<rparr>)]
      ((idle_register 1 1)\<lparr>callback := Some 1\<rparr>) (demo_sm, demo_disk) = Some (reg', w', effs) \<and> 1 \<notin> set (called effs)"
proof -
  let ?cmd = "\<lparr>c_header = \<lparr>request_identifier = 4, c_sector_idx = 7\<rparr>, c_content = Read\<rparr>"
  let ?ms = "[(all_ranks, SystemMessage \<lparr>s_header = SystemCommandHeader_new 1 (4 :: u128) 1 7, s_content = Ack\<rparr>)]"
  let ?reg = "(idle_register 1 1)\<lparr>callback := Some (1 :: nat)\<rparr>"
  obtain reg' w' effs where run: "run_messages demo_env ((all_ranks, ClientMessage ?cmd 2) # ?ms) ?reg
      (demo_sm, demo_disk) = Some (reg', w', effs)"
    by (simp add: handle_message_def client_command_def system_command_def on_ack_def ack_quorum_def idle_register_def
        empty_state_def SystemCommandHeader_new_def Let_def)
  have "1 \<notin> set (called effs)"
    by (rule overwritten_callback_never_called [OF _ _ _ run]) simp_all
  with run show ?thesis by blast
qed

end
