(* ===== verification/Commands_Executor.thy ===== *)
theory Commands_Executor
  imports Register_Liveness
begin

text \<open>
  The commands executor: \<^verbatim>\<open>solution/src/commands_executor.rs\<close>. Every call of \<^verbatim>\<open>execute_client_command\<close> and
  of \<^verbatim>\<open>execute_system_command\<close> is a task, and every \<^verbatim>\<open>single_register_thread\<close> a thread; they interleave at
  their \<^verbatim>\<open>await\<close> points, where a critical section of a mutex is one step. The program counter of a task
  names the point it stands at. \<^verbatim>\<open>exec_step\<close> is the step function of the whole executor, with the
  registers of \<open>Atomic_Register\<close> run by its threads; \<open>None\<close> means that a step is not enabled.
\<close>

section \<open>State\<close>

text \<open>
  The struct: \<open>sector_notifiers\<close> keeps only the length of its vector, the tasks parked on a notifier being
  known from their program counters. A channel is the list of what is in it, oldest first.
\<close>

record ('u, 'cb) CommandsExecutor =
  sector_notifiers :: nat
  sector_counters :: "SectorIdx \<rightharpoonup> (u64 \<times> u64)"
  msg_id_handler_sector_idx :: "'u \<rightharpoonup> (nat \<times> SectorIdx)"
  ready_register_receiver :: "nat list"
  cmd_senders :: "('u, 'cb) WorkerMessage list list"

text \<open>
  Where a call of \<^verbatim>\<open>execute_client_command\<close> stands; the first component is \<^verbatim>\<open>my_counter\<close>. \<open>NotOwner\<close> is the point
  after \<^verbatim>\<open>drop(sector_counters)\<close> and before \<^verbatim>\<open>notified()\<close>, \<open>Abandoned\<close> the early return. \<open>Finished\<close> marks
  a call whose operation \<^verbatim>\<open>finish_client_command\<close> has ended.
\<close>

datatype client_pc =
    Entered
  | HasTicket u64
  | NotOwner u64
  | Parked u64
  | Owner u64
  | GotRegister u64 nat
  | Recorded u64 nat
  | Sent u64 nat
  | Abandoned u64
  | Panicked u64
  | Finished

datatype system_pc = SysEntered | SysGot nat | SysDone | SysPanicked

datatype thread_pc = Announcing | Receiving | Dead

record 'cb client_task =
  t_cmd :: ClientRegisterCommand
  t_callback :: 'cb
  t_pc :: client_pc

record 'u system_task =
  y_cmd :: "'u SystemRegisterCommand"
  y_pc :: system_pc

record ('w, 'u, 'cb) exec_state =
  executor :: "('u, 'cb) CommandsExecutor"
  client_tasks :: "nat \<rightharpoonup> 'cb client_task"
  system_tasks :: "nat \<rightharpoonup> 'u system_task"
  threads :: "thread_pc list"
  registers :: "'cb AtomicRegisterImplementation list"
  world :: 'w
  effects :: "(nat \<times> ('u, 'cb) effect list) list"

section \<open>Construction\<close>

definition CommandsExecutor_new :: "nat \<Rightarrow> nat \<Rightarrow> ('u, 'cb) CommandsExecutor" where
  "CommandsExecutor_new registers_len sectors_len =
     \<lparr>sector_notifiers = sectors_len, sector_counters = Map.empty, msg_id_handler_sector_idx = Map.empty,
      ready_register_receiver = [], cmd_senders = replicate registers_len []\<rparr>"

definition exec_init :: "'cb AtomicRegisterImplementation list \<Rightarrow> nat \<Rightarrow> 'w \<Rightarrow> ('w, 'u, 'cb) exec_state" where
  "exec_init regs sectors_len w =
     \<lparr>executor = CommandsExecutor_new (length regs) sectors_len, client_tasks = Map.empty,
      system_tasks = Map.empty, threads = replicate (length regs) Announcing, registers = regs, world = w,
      effects = []\<rparr>"

section \<open>Critical sections\<close>

definition take_ticket :: "SectorIdx \<Rightarrow> ('u, 'cb) CommandsExecutor \<Rightarrow> u64 \<times> ('u, 'cb) CommandsExecutor" where
  "take_ticket sector_idx ex =
     (let (counter, total_finished) = (case sector_counters ex sector_idx of None \<Rightarrow> (0, 0) | Some c \<Rightarrow> c)
      in (counter, ex\<lparr>sector_counters := (sector_counters ex)(sector_idx \<mapsto> (counter + 1, total_finished))\<rparr>))"

definition is_my_turn :: "SectorIdx \<Rightarrow> u64 \<Rightarrow> ('u, 'cb) CommandsExecutor \<Rightarrow> bool option" where
  "is_my_turn sector_idx my_counter ex =
     map_option (\<lambda>(_, total_finished). my_counter = total_finished) (sector_counters ex sector_idx)"

definition record_handler ::
    "'u uuid_crate \<Rightarrow> ClientRegisterCommand \<Rightarrow> nat \<Rightarrow> ('u, 'cb) CommandsExecutor \<Rightarrow> ('u, 'cb) CommandsExecutor" where
  "record_handler U cmd register_index ex =
     ex\<lparr>msg_id_handler_sector_idx := (msg_id_handler_sector_idx ex)
          (request_uuid U (request_identifier (c_header cmd)) \<mapsto> (register_index, c_sector_idx (c_header cmd)))\<rparr>"

text \<open>\<^verbatim>\<open>self.cmd_senders[i]\<close> panics when \<open>i\<close> is out of range.\<close>

definition send_worker ::
    "nat \<Rightarrow> ('u, 'cb) WorkerMessage \<Rightarrow> ('u, 'cb) CommandsExecutor \<Rightarrow> ('u, 'cb) CommandsExecutor option" where
  "send_worker i msg ex =
     (if i < length (cmd_senders ex)
      then Some (ex\<lparr>cmd_senders := (cmd_senders ex)[i := cmd_senders ex ! i @ [msg]]\<rparr>) else None)"

section \<open>execute_client_command\<close>

text \<open>One step of a call; \<open>dead\<close> says that every register thread is gone, so that the ready channel is closed.\<close>

fun client_step ::
    "'u uuid_crate \<Rightarrow> bool \<Rightarrow> ClientRegisterCommand \<Rightarrow> 'cb \<Rightarrow> client_pc \<Rightarrow> ('u, 'cb) CommandsExecutor
     \<Rightarrow> (client_pc \<times> ('u, 'cb) CommandsExecutor) option" where
  "client_step U dead cmd cb Entered ex =
     (let (my_counter, ex) = take_ticket (c_sector_idx (c_header cmd)) ex in Some (HasTicket my_counter, ex))"
| "client_step U dead cmd cb (HasTicket m) ex =
     (case is_my_turn (c_sector_idx (c_header cmd)) m ex of
        None \<Rightarrow> Some (Panicked m, ex)
      | Some turn \<Rightarrow> Some (if turn then Owner m else NotOwner m, ex))"
| "client_step U dead cmd cb (NotOwner m) ex =
     Some (if unat (c_sector_idx (c_header cmd)) < sector_notifiers ex then Parked m else Panicked m, ex)"
| "client_step U dead cmd cb (Owner m) ex =
     (case ready_register_receiver ex of
        [] \<Rightarrow> if dead then Some (Abandoned m, ex) else None
      | i # is \<Rightarrow> Some (GotRegister m i, ex\<lparr>ready_register_receiver := is\<rparr>))"
| "client_step U dead cmd cb (GotRegister m i) ex = Some (Recorded m i, record_handler U cmd i ex)"
| "client_step U dead cmd cb (Recorded m i) ex =
     (case send_worker i (ClientMessage cmd cb) ex of
        None \<Rightarrow> Some (Panicked m, ex)
      | Some ex \<Rightarrow> Some (Sent m i, ex))"
| "client_step U dead cmd cb pc ex = None"

section \<open>execute_system_command\<close>

text \<open>A request of another process goes to a ready register, an answer to the register that asked.\<close>

fun is_request :: "SystemRegisterCommandContent \<Rightarrow> bool" where
  "is_request ReadProc = True"
| "is_request (WriteProc _ _ _) = True"
| "is_request Ack = False"
| "is_request (Value _ _ _) = False"

fun system_step ::
    "bool \<Rightarrow> 'u SystemRegisterCommand \<Rightarrow> system_pc \<Rightarrow> ('u, 'cb) CommandsExecutor
     \<Rightarrow> (system_pc \<times> ('u, 'cb) CommandsExecutor) option" where
  "system_step dead cmd SysEntered ex =
     (if is_request (s_content cmd) then
        (case ready_register_receiver ex of
           [] \<Rightarrow> if dead then Some (SysDone, ex) else None
         | i # is \<Rightarrow> Some (SysGot i, ex\<lparr>ready_register_receiver := is\<rparr>))
      else
        (case msg_id_handler_sector_idx ex (msg_ident (s_header cmd)) of
           None \<Rightarrow> Some (SysDone, ex)
         | Some (i, _) \<Rightarrow> Some (SysGot i, ex)))"
| "system_step dead cmd (SysGot i) ex =
     (case send_worker i (SystemMessage cmd) ex of
        None \<Rightarrow> Some (SysPanicked, ex)
      | Some ex \<Rightarrow> Some (SysDone, ex))"
| "system_step dead cmd pc ex = None"

section \<open>finish_client_command\<close>

text \<open>
  The result also names the register and sector to notify: none when there is no entry, or when
  \<^verbatim>\<open>unwrap\<close> or the index into \<^verbatim>\<open>sector_notifiers\<close> panics. The locks are held to the end of the body, so the
  whole is one critical section; the increment is on a \<^verbatim>\<open>u64\<close> and wraps.
\<close>

definition finish_client_command ::
    "'u uuid_crate \<Rightarrow> u64 \<Rightarrow> ('u, 'cb) CommandsExecutor \<Rightarrow> (nat \<times> SectorIdx) option \<times> ('u, 'cb) CommandsExecutor" where
  "finish_client_command U req_id ex =
     (case msg_id_handler_sector_idx ex (request_uuid U req_id) of
        None \<Rightarrow> (None, ex)
      | Some (i, sector_idx) \<Rightarrow>
          (let ex = ex\<lparr>msg_id_handler_sector_idx := (msg_id_handler_sector_idx ex)(request_uuid U req_id := None)\<rparr> in
           case sector_counters ex sector_idx of
             None \<Rightarrow> (None, ex)
           | Some (counter, total_finished) \<Rightarrow>
               (if unat sector_idx < sector_notifiers ex then Some (i, sector_idx) else None,
                ex\<lparr>sector_counters := (sector_counters ex)(sector_idx \<mapsto> (counter, total_finished + 1))\<rparr>)))"

text \<open>
  \<^verbatim>\<open>notify_waiters\<close> wakes the tasks parked on the sector at this moment, and only those; each checks its
  turn again. The operation of the removed entry has ended.
\<close>

definition after_finish :: "u64 \<Rightarrow> nat \<times> SectorIdx \<Rightarrow> 'cb client_task \<Rightarrow> 'cb client_task" where
  "after_finish req_id entry task =
     (if c_sector_idx (c_header (t_cmd task)) = snd entry then
        (case t_pc task of
           Parked m \<Rightarrow> task\<lparr>t_pc := HasTicket m\<rparr>
         | Sent m i \<Rightarrow>
             if request_identifier (c_header (t_cmd task)) = req_id then task\<lparr>t_pc := Finished\<rparr> else task
         | _ \<Rightarrow> task)
      else task)"

section \<open>Steps of the executor\<close>

datatype ('u, 'cb) action =
    ClientCall nat ClientRegisterCommand 'cb
  | ClientStep nat
  | SystemCall nat "'u SystemRegisterCommand"
  | SystemStep nat
  | Announce nat
  | Handle nat "u8 list"
  | Finish u64

text \<open>
  A thread announces itself ready, then takes the next message of its channel and has its register
  handle it, then announces itself again.
\<close>

definition announce :: "nat \<Rightarrow> ('w, 'u, 'cb) exec_state \<Rightarrow> ('w, 'u, 'cb) exec_state option" where
  "announce i s =
     (if i < length (threads s) \<and> threads s ! i = Announcing then
        Some (s\<lparr>threads := (threads s)[i := Receiving],
                executor := (executor s)\<lparr>ready_register_receiver := ready_register_receiver (executor s) @ [i]\<rparr>\<rparr>)
      else None)"

definition handle ::
    "(nat \<Rightarrow> ('w, 'u) register_env) \<Rightarrow> nat \<Rightarrow> u8 list \<Rightarrow> ('w, 'u, 'cb) exec_state \<Rightarrow> ('w, 'u, 'cb) exec_state option" where
  "handle E i order s =
     (if i < length (threads s) \<and> threads s ! i = Receiving then
        (case cmd_senders (executor s) ! i of
           [] \<Rightarrow> None
         | msg # msgs \<Rightarrow>
             (let s = s\<lparr>executor := (executor s)\<lparr>cmd_senders := (cmd_senders (executor s))[i := msgs]\<rparr>\<rparr> in
              case handle_message (E i) order msg (registers s ! i) (world s) of
                None \<Rightarrow> Some (s\<lparr>threads := (threads s)[i := Dead]\<rparr>)
              | Some (reg, w, effs) \<Rightarrow>
                  Some (s\<lparr>threads := (threads s)[i := Announcing], registers := (registers s)[i := reg],
                          world := w, effects := effects s @ [(i, effs)]\<rparr>)))
      else None)"

definition exec_step ::
    "(nat \<Rightarrow> ('w, 'u) register_env) \<Rightarrow> 'u uuid_crate \<Rightarrow> ('u, 'cb) action \<Rightarrow> ('w, 'u, 'cb) exec_state
     \<Rightarrow> ('w, 'u, 'cb) exec_state option" where
  "exec_step E U a s =
     (case a of
        ClientCall t cmd cb \<Rightarrow>
          (if client_tasks s t = None
           then Some (s\<lparr>client_tasks := (client_tasks s)(t \<mapsto> \<lparr>t_cmd = cmd, t_callback = cb, t_pc = Entered\<rparr>)\<rparr>)
           else None)
      | ClientStep t \<Rightarrow>
          (case client_tasks s t of
             None \<Rightarrow> None
           | Some task \<Rightarrow>
               map_option (\<lambda>(pc, ex). s\<lparr>executor := ex, client_tasks := (client_tasks s)(t \<mapsto> task\<lparr>t_pc := pc\<rparr>)\<rparr>)
                 (client_step U (\<forall>p \<in> set (threads s). p = Dead) (t_cmd task) (t_callback task) (t_pc task) (executor s)))
      | SystemCall t cmd \<Rightarrow>
          (if system_tasks s t = None
           then Some (s\<lparr>system_tasks := (system_tasks s)(t \<mapsto> \<lparr>y_cmd = cmd, y_pc = SysEntered\<rparr>)\<rparr>)
           else None)
      | SystemStep t \<Rightarrow>
          (case system_tasks s t of
             None \<Rightarrow> None
           | Some task \<Rightarrow>
               map_option (\<lambda>(pc, ex). s\<lparr>executor := ex, system_tasks := (system_tasks s)(t \<mapsto> task\<lparr>y_pc := pc\<rparr>)\<rparr>)
                 (system_step (\<forall>p \<in> set (threads s). p = Dead) (y_cmd task) (y_pc task) (executor s)))
      | Announce i \<Rightarrow> announce i s
      | Handle i order \<Rightarrow> handle E i order s
      | Finish req_id \<Rightarrow>
          (let (entry, ex) = finish_client_command U req_id (executor s) in
           Some (s\<lparr>executor := ex,
                   client_tasks := (case entry of
                       None \<Rightarrow> client_tasks s
                     | Some e \<Rightarrow> (\<lambda>t. map_option (after_finish req_id e) (client_tasks s t)))\<rparr>)))"

fun exec_run ::
    "(nat \<Rightarrow> ('w, 'u) register_env) \<Rightarrow> 'u uuid_crate \<Rightarrow> ('u, 'cb) action list \<Rightarrow> ('w, 'u, 'cb) exec_state
     \<Rightarrow> ('w, 'u, 'cb) exec_state option" where
  "exec_run E U [] s = Some s"
| "exec_run E U (a # as) s = (case exec_step E U a s of None \<Rightarrow> None | Some s \<Rightarrow> exec_run E U as s)"

end
