(* ===== verification/Executor_Properties.thy ===== *)
theory Executor_Properties
  imports Commands_Executor
begin

text \<open>
  The properties of the commands executor over all interleavings of its tasks and threads: the ticket
  lock of a sector, the routing of answers to registers, and the two ways in which the executor can
  get stuck.
\<close>

section \<open>Views of a task\<close>

abbreviation t_sector :: "'cb client_task \<Rightarrow> SectorIdx" where
  "t_sector task \<equiv> c_sector_idx (c_header (t_cmd task))"

abbreviation t_request :: "'cb client_task \<Rightarrow> u64" where
  "t_request task \<equiv> request_identifier (c_header (t_cmd task))"

fun ticket :: "client_pc \<Rightarrow> u64 option" where
  "ticket Entered = None"
| "ticket (HasTicket m) = Some m"
| "ticket (NotOwner m) = Some m"
| "ticket (Parked m) = Some m"
| "ticket (Owner m) = Some m"
| "ticket (GotRegister m i) = Some m"
| "ticket (Recorded m i) = Some m"
| "ticket (Sent m i) = Some m"
| "ticket (Abandoned m) = Some m"
| "ticket (Panicked m) = Some m"
| "ticket Finished = None"

text \<open>The calls that own their sector: past the loop, and not yet finished.\<close>

fun owns :: "client_pc \<Rightarrow> bool" where
  "owns (Owner m) = True"
| "owns (GotRegister m i) = True"
| "owns (Recorded m i) = True"
| "owns (Sent m i) = True"
| "owns (Abandoned m) = True"
| "owns _ = False"

text \<open>The register recorded for a call in \<^verbatim>\<open>msg_id_handler_sector_idx\<close>.\<close>

fun handler :: "client_pc \<Rightarrow> nat option" where
  "handler (Recorded m i) = Some i"
| "handler (Sent m i) = Some i"
| "handler _ = None"

section \<open>Disciplined runs\<close>

text \<open>
  What the executor relies on from its callers: client requests in flight have different request
  identifiers, sectors are below \<^verbatim>\<open>max_sector\<close>, a request is finished only once its command was handed
  to a register, and fewer than \<open>2^64\<close> commands are issued for one sector.
\<close>

fun disciplined :: "('u, 'cb) action \<Rightarrow> ('w, 'u, 'cb) exec_state \<Rightarrow> bool" where
  "disciplined (ClientCall t cmd cb) s \<longleftrightarrow>
     unat (c_sector_idx (c_header cmd)) < sector_notifiers (executor s) \<and>
     (\<forall>t' task. client_tasks s t' = Some task \<and> t_pc task \<noteq> Finished \<longrightarrow>
        t_request task \<noteq> request_identifier (c_header cmd))"
| "disciplined (ClientStep t) s \<longleftrightarrow>
     (\<forall>task c f. client_tasks s t = Some task \<and> t_pc task = Entered \<and>
        sector_counters (executor s) (t_sector task) = Some (c, f) \<longrightarrow> c \<noteq> - 1)"
| "disciplined (Finish req_id) s \<longleftrightarrow>
     (\<exists>t task m i. client_tasks s t = Some task \<and> t_pc task = Sent m i \<and> t_request task = req_id)"
| "disciplined _ s \<longleftrightarrow> True"

inductive reachable ::
    "(nat \<Rightarrow> ('w, 'u) register_env) \<Rightarrow> 'u uuid_crate \<Rightarrow> 'cb AtomicRegisterImplementation list \<Rightarrow> nat \<Rightarrow> 'w
     \<Rightarrow> ('w, 'u, 'cb) exec_state \<Rightarrow> bool" for E U regs sectors_len w where
  init: "reachable E U regs sectors_len w (exec_init regs sectors_len w)"
| step: "reachable E U regs sectors_len w s \<Longrightarrow> disciplined a s \<Longrightarrow> exec_step E U a s = Some s' \<Longrightarrow>
    reachable E U regs sectors_len w s'"

section \<open>Invariant of the ticket lock\<close>

definition tickets_ok :: "(SectorIdx \<rightharpoonup> (u64 \<times> u64)) \<Rightarrow> (nat \<rightharpoonup> 'cb client_task) \<Rightarrow> bool" where
  "tickets_ok C T \<longleftrightarrow>
     (\<forall>x c f. C x = Some (c, f) \<longrightarrow> f \<le> c) \<and>
     (\<forall>t task m. T t = Some task \<and> ticket (t_pc task) = Some m \<longrightarrow>
        (\<exists>c f. C (t_sector task) = Some (c, f) \<and> f \<le> m \<and> m < c \<and> (owns (t_pc task) \<longrightarrow> m = f)))"

definition tickets_distinct :: "(nat \<rightharpoonup> 'cb client_task) \<Rightarrow> bool" where
  "tickets_distinct T \<longleftrightarrow>
     (\<forall>t t' task task' m. T t = Some task \<and> T t' = Some task' \<and> t_sector task = t_sector task' \<and>
        ticket (t_pc task) = Some m \<and> ticket (t_pc task') = Some m \<longrightarrow> t = t')"

definition requests_distinct :: "(nat \<rightharpoonup> 'cb client_task) \<Rightarrow> bool" where
  "requests_distinct T \<longleftrightarrow>
     (\<forall>t t' task task'. T t = Some task \<and> T t' = Some task' \<and> t_pc task \<noteq> Finished \<and> t_pc task' \<noteq> Finished \<and>
        t_request task = t_request task' \<longrightarrow> t = t')"

definition handlers_ok :: "'u uuid_crate \<Rightarrow> ('u \<rightharpoonup> (nat \<times> SectorIdx)) \<Rightarrow> (nat \<rightharpoonup> 'cb client_task) \<Rightarrow> bool" where
  "handlers_ok U M T \<longleftrightarrow>
     (\<forall>t task i. T t = Some task \<and> handler (t_pc task) = Some i \<longrightarrow>
        M (request_uuid U (t_request task)) = Some (i, t_sector task))"

definition sectors_ok :: "nat \<Rightarrow> (nat \<rightharpoonup> 'cb client_task) \<Rightarrow> bool" where
  "sectors_ok n T \<longleftrightarrow> (\<forall>t task. T t = Some task \<longrightarrow> unat (t_sector task) < n)"

definition lock_inv :: "'u uuid_crate \<Rightarrow> ('w, 'u, 'cb) exec_state \<Rightarrow> bool" where
  "lock_inv U s \<longleftrightarrow>
     tickets_ok (sector_counters (executor s)) (client_tasks s) \<and> tickets_distinct (client_tasks s) \<and>
     requests_distinct (client_tasks s) \<and>
     handlers_ok U (msg_id_handler_sector_idx (executor s)) (client_tasks s) \<and>
     sectors_ok (sector_notifiers (executor s)) (client_tasks s)"

lemmas lock_inv_defs = tickets_ok_def tickets_distinct_def requests_distinct_def handlers_ok_def sectors_ok_def

text \<open>Moving one task within its ticket and its registration.\<close>

lemma move_task:
  assumes T: "T t = Some task" and pc: "ticket pc = ticket (t_pc task)" "t_pc task \<noteq> Finished" "pc \<noteq> Finished"
  shows "tickets_distinct T \<Longrightarrow> tickets_distinct (T(t \<mapsto> task\<lparr>t_pc := pc\<rparr>))"
    and "requests_distinct T \<Longrightarrow> requests_distinct (T(t \<mapsto> task\<lparr>t_pc := pc\<rparr>))"
    and "sectors_ok n T \<Longrightarrow> sectors_ok n (T(t \<mapsto> task\<lparr>t_pc := pc\<rparr>))"
    and "tickets_ok C T \<Longrightarrow> (\<And>m. owns pc \<Longrightarrow> ticket pc = Some m \<Longrightarrow> \<not> owns (t_pc task) \<Longrightarrow> \<exists>c. C (t_sector task) = Some (c, m)) \<Longrightarrow>
      tickets_ok C (T(t \<mapsto> task\<lparr>t_pc := pc\<rparr>))"
    and "handlers_ok U M T \<Longrightarrow> handler pc = None \<or> handler pc = handler (t_pc task) \<Longrightarrow>
      handlers_ok U M (T(t \<mapsto> task\<lparr>t_pc := pc\<rparr>))"
  subgoal using T pc unfolding tickets_distinct_def by (simp, metis)
  subgoal using T pc unfolding requests_distinct_def by (simp, metis)
  subgoal using T unfolding sectors_ok_def by simp
  subgoal using T pc unfolding tickets_ok_def by (simp, metis option.inject prod.inject)
  subgoal using T unfolding handlers_ok_def by auto
  done

lemma lock_inv_same:
  assumes "lock_inv U s" and "client_tasks s' = client_tasks s"
    and "sector_counters (executor s') = sector_counters (executor s)"
    and "msg_id_handler_sector_idx (executor s') = msg_id_handler_sector_idx (executor s)"
    and "sector_notifiers (executor s') = sector_notifiers (executor s)"
  shows "lock_inv U s'"
  using assms by (simp add: lock_inv_def)

text \<open>What the other steps leave alone.\<close>

lemma send_worker_same:
  "send_worker i msg ex = Some ex' \<Longrightarrow> sector_counters ex' = sector_counters ex \<and>
     msg_id_handler_sector_idx ex' = msg_id_handler_sector_idx ex \<and> sector_notifiers ex' = sector_notifiers ex \<and>
     ready_register_receiver ex' = ready_register_receiver ex \<and> length (cmd_senders ex') = length (cmd_senders ex)"
  by (auto simp: send_worker_def split: if_splits)

lemma system_step_same:
  "system_step dead cmd pc ex = Some (pc', ex') \<Longrightarrow> sector_counters ex' = sector_counters ex \<and>
     msg_id_handler_sector_idx ex' = msg_id_handler_sector_idx ex \<and> sector_notifiers ex' = sector_notifiers ex"
  by (cases "(dead, cmd, pc, ex)" rule: system_step.cases)
    (auto dest: send_worker_same split: if_splits list.splits option.splits)

lemma announce_same:
  "announce i s = Some s' \<Longrightarrow> client_tasks s' = client_tasks s \<and>
     sector_counters (executor s') = sector_counters (executor s) \<and>
     msg_id_handler_sector_idx (executor s') = msg_id_handler_sector_idx (executor s) \<and>
     sector_notifiers (executor s') = sector_notifiers (executor s)"
  by (auto simp: announce_def split: if_splits)

lemma handle_same:
  "handle E i order s = Some s' \<Longrightarrow> client_tasks s' = client_tasks s \<and>
     sector_counters (executor s') = sector_counters (executor s) \<and>
     msg_id_handler_sector_idx (executor s') = msg_id_handler_sector_idx (executor s) \<and>
     sector_notifiers (executor s') = sector_notifiers (executor s)"
  by (auto simp: handle_def Let_def split: if_splits list.splits option.splits)

text \<open>A task that takes its ticket.\<close>

lemma u64_less_plus_one: "(c :: u64) \<noteq> - 1 \<Longrightarrow> c < c + 1"
  by (rule word_less_plus_one) simp_all

lemma take_ticket_inv:
  assumes T: "T t = Some task" "t_pc task = Entered" and ok: "tickets_ok (sector_counters ex) T" "tickets_distinct T"
    and tk: "take_ticket (t_sector task) ex = (m, ex')"
    and nowrap: "\<forall>c f. sector_counters ex (t_sector task) = Some (c, f) \<longrightarrow> c \<noteq> - 1"
  shows "tickets_ok (sector_counters ex') (T(t \<mapsto> task\<lparr>t_pc := HasTicket m\<rparr>))"
    and "tickets_distinct (T(t \<mapsto> task\<lparr>t_pc := HasTicket m\<rparr>))"
proof -
  obtain f where C': "sector_counters ex' = (sector_counters ex)(t_sector task \<mapsto> (m + 1, f))"
    and C: "sector_counters ex (t_sector task) = Some (m, f) \<or> sector_counters ex (t_sector task) = None \<and> m = 0 \<and> f = 0"
    using tk by (auto simp: take_ticket_def split: option.splits)
  have m: "m < m + 1" "f \<le> m"
    using C nowrap ok(1) u64_less_plus_one [of m] by (auto simp: tickets_ok_def)
  have others: "\<exists>c f'. sector_counters ex' (t_sector task') = Some (c, f') \<and> f' \<le> m' \<and> m' < c \<and> (owns (t_pc task') \<longrightarrow> m' = f')
      \<and> (t_sector task' = t_sector task \<longrightarrow> m' \<noteq> m)"
    if "T t' = Some task'" "ticket (t_pc task') = Some m'" for t' task' m'
  proof -
    obtain c' f' where old: "sector_counters ex (t_sector task') = Some (c', f')" "f' \<le> m'" "m' < c'" "owns (t_pc task') \<longrightarrow> m' = f'"
      using ok(1) \<open>T t' = Some task'\<close> \<open>ticket (t_pc task') = Some m'\<close> unfolding tickets_ok_def by blast
    show ?thesis
    proof (cases "t_sector task' = t_sector task")
      case True
      with old(1) C have eq: "c' = m" "f' = f" by auto
      with old(3) m(1) have "m' < m + 1" "m' \<noteq> m" by auto
      with True old eq C' show ?thesis by simp
    next
      case False
      with old C' show ?thesis by simp
    qed
  qed
  show "tickets_ok (sector_counters ex') (T(t \<mapsto> task\<lparr>t_pc := HasTicket m\<rparr>))"
    unfolding tickets_ok_def
  proof (intro conjI allI impI)
    show "f' \<le> c" if "sector_counters ex' x = Some (c, f')" for x c f'
      using that C' m ok(1) unfolding tickets_ok_def by (auto split: if_splits)
    show "\<exists>c f. sector_counters ex' (t_sector task') = Some (c, f) \<and> f \<le> m' \<and> m' < c \<and> (owns (t_pc task') \<longrightarrow> m' = f)"
      if "(T(t \<mapsto> task\<lparr>t_pc := HasTicket m\<rparr>)) t' = Some task' \<and> ticket (t_pc task') = Some m'" for t' task' m'
    proof (cases "t' = t")
      case True
      with that m C' show ?thesis by auto
    next
      case False
      with that others [of t' task' m'] show ?thesis by auto
    qed
  qed
  show "tickets_distinct (T(t \<mapsto> task\<lparr>t_pc := HasTicket m\<rparr>))"
    unfolding tickets_distinct_def
  proof (intro allI impI, elim conjE)
    fix t1 t2 task1 task2 m'
    assume a: "(T(t \<mapsto> task\<lparr>t_pc := HasTicket m\<rparr>)) t1 = Some task1" "(T(t \<mapsto> task\<lparr>t_pc := HasTicket m\<rparr>)) t2 = Some task2"
      "t_sector task1 = t_sector task2" "ticket (t_pc task1) = Some m'" "ticket (t_pc task2) = Some m'"
    show "t1 = t2"
    proof (cases "t1 = t \<or> t2 = t")
      case True
      then show ?thesis
        using a others [of t1 task1 m'] others [of t2 task2 m'] by (auto split: if_splits)
    next
      case False
      with a ok(2) show ?thesis by (simp add: tickets_distinct_def)
    qed
  qed
qed

lemma client_call_inv:
  assumes inv: "lock_inv U s" and d: "disciplined (ClientCall t cmd cb) s"
    and st: "exec_step E U (ClientCall t cmd cb) s = Some s'"
  shows "lock_inv U s'"
proof -
  have s': "client_tasks s t = None" "s' = s\<lparr>client_tasks := (client_tasks s)(t \<mapsto> \<lparr>t_cmd = cmd, t_callback = cb, t_pc = Entered\<rparr>)\<rparr>"
    using st by (auto simp: exec_step_def split: if_splits)
  show ?thesis
    unfolding lock_inv_def
  proof (intro conjI)
    show "tickets_ok (sector_counters (executor s')) (client_tasks s')" "tickets_distinct (client_tasks s')"
      "handlers_ok U (msg_id_handler_sector_idx (executor s')) (client_tasks s')"
      "sectors_ok (sector_notifiers (executor s')) (client_tasks s')"
      using inv d by (auto simp: s' lock_inv_def lock_inv_defs split: if_splits)
    show "requests_distinct (client_tasks s')"
      using inv d unfolding s' lock_inv_def requests_distinct_def by simp metis
  qed
qed

lemma record_handler_inv:
  assumes U: "uuid_laws U" and T: "T t = Some task" "t_pc task = GotRegister m i"
    and ok: "requests_distinct T" "handlers_ok U (msg_id_handler_sector_idx ex) T"
  shows "handlers_ok U (msg_id_handler_sector_idx (record_handler U (t_cmd task) i ex)) (T(t \<mapsto> task\<lparr>t_pc := Recorded m i\<rparr>))"
  unfolding handlers_ok_def
proof (intro allI impI, elim conjE)
  fix t' task' j
  assume a: "(T(t \<mapsto> task\<lparr>t_pc := Recorded m i\<rparr>)) t' = Some task'" "handler (t_pc task') = Some j"
  show "msg_id_handler_sector_idx (record_handler U (t_cmd task) i ex) (request_uuid U (t_request task')) = Some (j, t_sector task')"
  proof (cases "t' = t")
    case True
    with a show ?thesis by (auto simp: record_handler_def)
  next
    case False
    with a have t': "T t' = Some task'" "t_pc task' \<noteq> Finished" by auto
    with False T ok(1) have "t_request task' \<noteq> t_request task"
      unfolding requests_distinct_def by (metis client_pc.distinct(89))
    with t' a(2) ok(2) U show ?thesis
      by (simp add: record_handler_def request_uuid_inject handlers_ok_def)
  qed
qed

lemma client_step_inv:
  assumes U: "uuid_laws U" and inv: "lock_inv U s" and d: "disciplined (ClientStep t) s"
    and st: "exec_step E U (ClientStep t) s = Some s'"
  shows "lock_inv U s'"
proof -
  obtain task pc ex where T: "client_tasks s t = Some task"
    and c: "client_step U (\<forall>p \<in> set (threads s). p = Dead) (t_cmd task) (t_callback task) (t_pc task) (executor s) = Some (pc, ex)"
    and s': "s' = s\<lparr>executor := ex, client_tasks := (client_tasks s)(t \<mapsto> task\<lparr>t_pc := pc\<rparr>)\<rparr>"
    using st by (auto simp: exec_step_def split: option.splits)
  note ok = inv [unfolded lock_inv_def]
  note mv = move_task(1-4) [where T = "client_tasks s" and t = t and task = task and pc = pc, OF T]
    move_task(5) [where T = "client_tasks s" and t = t and task = task and pc = pc and U = U, OF T]
  show ?thesis
  proof (cases "t_pc task")
    case Entered
    obtain m ex1 where tk: "take_ticket (t_sector task) (executor s) = (m, ex1)" by (metis surj_pair)
    with c Entered have eq: "pc = HasTicket m" "ex = ex1" by simp_all
    have nowrap: "\<forall>c f. sector_counters (executor s) (t_sector task) = Some (c, f) \<longrightarrow> c \<noteq> - 1"
      using d T Entered by simp
    have rest: "msg_id_handler_sector_idx ex1 = msg_id_handler_sector_idx (executor s)"
      "sector_notifiers ex1 = sector_notifiers (executor s)"
      using tk by (auto simp: take_ticket_def split: option.splits prod.splits)
    have "requests_distinct ((client_tasks s)(t \<mapsto> task\<lparr>t_pc := HasTicket m\<rparr>))"
      using ok T Entered unfolding requests_distinct_def by (simp, metis client_pc.distinct(19))
    moreover have "handlers_ok U (msg_id_handler_sector_idx (executor s)) ((client_tasks s)(t \<mapsto> task\<lparr>t_pc := HasTicket m\<rparr>))"
      "sectors_ok (sector_notifiers (executor s)) ((client_tasks s)(t \<mapsto> task\<lparr>t_pc := HasTicket m\<rparr>))"
      using ok T by (auto simp: handlers_ok_def sectors_ok_def)
    ultimately show ?thesis
      using take_ticket_inv [of "client_tasks s" t task "executor s" m ex1] T Entered tk nowrap ok by (simp add: lock_inv_def s' eq rest)
  next
    case (GotRegister m i)
    then have eq: "pc = Recorded m i" "ex = record_handler U (t_cmd task) i (executor s)" using c by simp_all
    have rest: "sector_counters (record_handler U (t_cmd task) i (executor s)) = sector_counters (executor s)"
      "sector_notifiers (record_handler U (t_cmd task) i (executor s)) = sector_notifiers (executor s)"
      by (simp_all add: record_handler_def)
    show ?thesis
      using ok record_handler_inv [of U "client_tasks s" t task m i "executor s"] U T mv(1-4) GotRegister
      by (simp add: lock_inv_def s' rest eq)
  next
    case (HasTicket m)
    from ok T HasTicket obtain c0 f where C: "sector_counters (executor s) (t_sector task) = Some (c0, f)"
      unfolding tickets_ok_def by fastforce
    have eq: "pc = (if m = f then Owner m else NotOwner m)" "ex = executor s"
      using c HasTicket C by (simp_all add: is_my_turn_def)
    show ?thesis
      using ok mv HasTicket C by (cases "m = f") (simp_all add: lock_inv_def s' eq)
  next
    case (Recorded m i)
    then consider "pc = Panicked m" "ex = executor s" | "pc = Sent m i" "send_worker i (ClientMessage (t_cmd task) (t_callback task)) (executor s) = Some ex"
      using c by (auto split: option.splits)
    then show ?thesis
    proof cases
      case 1
      then show ?thesis using ok mv Recorded by (simp add: lock_inv_def s')
    next
      case 2
      then show ?thesis using ok mv Recorded send_worker_same [OF 2(2)]
        by (simp add: lock_inv_def s')
    qed
  next
    case (NotOwner m)
    then show ?thesis using c ok mv by (auto simp: lock_inv_def s' split: if_splits)
  next
    case (Owner m)
    then have "pc = Abandoned m \<and> ex = executor s \<or> (\<exists>i is. pc = GotRegister m i \<and> ex = executor s\<lparr>ready_register_receiver := is\<rparr>)"
      using c by (auto split: list.splits if_splits)
    then show ?thesis using ok mv Owner by (auto simp: lock_inv_def s')
  qed (use c in simp_all)
qed

text \<open>The end of an operation: its ticket goes, every waiting one is still ahead of the counter.\<close>

lemma after_finish_view:
  "t_cmd (after_finish r e task) = t_cmd task"
  "ticket (t_pc (after_finish r e task)) = Some m \<Longrightarrow> ticket (t_pc task) = Some m"
  "owns (t_pc (after_finish r e task)) \<Longrightarrow> owns (t_pc task)"
  "handler (t_pc (after_finish r e task)) = Some i \<Longrightarrow> handler (t_pc task) = Some i"
  "t_pc task = Finished \<Longrightarrow> after_finish r e task = task"
  by (auto simp: after_finish_def split: client_pc.splits if_splits)

lemma finish_step:
  assumes U: "uuid_laws U" and inv: "lock_inv U s" and d: "disciplined (Finish r) s"
    and st: "exec_step E U (Finish r) s = Some s'"
  obtains t task m i c where "client_tasks s t = Some task" and "t_pc task = Sent m i" and "t_request task = r"
    and "sector_counters (executor s) (t_sector task) = Some (c, m)" and "m < c"
    and "sector_counters (executor s') = (sector_counters (executor s))(t_sector task \<mapsto> (c, m + 1))"
    and "msg_id_handler_sector_idx (executor s') = (msg_id_handler_sector_idx (executor s))(request_uuid U r := None)"
    and "sector_notifiers (executor s') = sector_notifiers (executor s)"
    and "client_tasks s' = (\<lambda>t. map_option (after_finish r (i, t_sector task)) (client_tasks s t))"
proof -
  from d obtain t task m i where t: "client_tasks s t = Some task" "t_pc task = Sent m i" "t_request task = r"
    by auto
  note ok = inv [unfolded lock_inv_def]
  have M: "msg_id_handler_sector_idx (executor s) (request_uuid U r) = Some (i, t_sector task)"
    using ok t by (fastforce simp: handlers_ok_def)
  obtain c where C: "sector_counters (executor s) (t_sector task) = Some (c, m)" "m < c"
    using ok t by (fastforce simp: tickets_ok_def)
  have n: "unat (t_sector task) < sector_notifiers (executor s)"
    using ok t by (fastforce simp: sectors_ok_def)
  have "s' = s\<lparr>executor := (executor s)\<lparr>msg_id_handler_sector_idx :=
        (msg_id_handler_sector_idx (executor s))(request_uuid U r := None),
        sector_counters := (sector_counters (executor s))(t_sector task \<mapsto> (c, m + 1))\<rparr>,
      client_tasks := (\<lambda>t. map_option (after_finish r (i, t_sector task)) (client_tasks s t))\<rparr>"
    using st M C n by (simp add: exec_step_def finish_client_command_def Let_def)
  with t C show thesis by (intro that [of t task m i c]) simp_all
qed

lemma finish_tickets_ok:
  assumes ok: "tickets_ok C T" "tickets_distinct T" and t: "T t = Some task" "t_pc task = Sent m i" "t_request task = r"
    and C: "C (t_sector task) = Some (c, m)" "m < c"
  shows "tickets_ok (C(t_sector task \<mapsto> (c, m + 1))) (\<lambda>t. map_option (after_finish r (i, t_sector task)) (T t))"
  unfolding tickets_ok_def
proof (intro conjI allI impI)
  have step: "m < m'" if "m \<le> m'" "m' \<noteq> m" for m' using that by simp
  have up: "m + 1 \<le> m'" if "m < m'" for m' :: u64
    using that by (rule inc_le)
  show "f \<le> c'" if "(C(t_sector task \<mapsto> (c, m + 1))) x = Some (c', f)" for x c' f
    using that ok(1) up [OF C(2)] unfolding tickets_ok_def by (auto split: if_splits)
  show "\<exists>c' f. (C(t_sector task \<mapsto> (c, m + 1))) (t_sector task') = Some (c', f) \<and> f \<le> m' \<and> m' < c' \<and> (owns (t_pc task') \<longrightarrow> m' = f)"
    if a: "map_option (after_finish r (i, t_sector task)) (T t') = Some task' \<and> ticket (t_pc task') = Some m'" for t' task' m'
  proof -
    obtain task0 where t0: "T t' = Some task0" "task' = after_finish r (i, t_sector task) task0"
      using a by auto
    note v = after_finish_view [where r = r and e = "(i, t_sector task)" and task = task0, folded t0(2)]
    obtain c0 f0 where old: "C (t_sector task0) = Some (c0, f0)" "f0 \<le> m'" "m' < c0" "owns (t_pc task0) \<longrightarrow> m' = f0"
      using ok(1) t0 v(2) a unfolding tickets_ok_def by blast
    show ?thesis
    proof (cases "t_sector task0 = t_sector task")
      case True
      have "m' \<noteq> m"
      proof
        assume "m' = m"
        with True ok(2) t t0(1) v(2) a have "t' = t" unfolding tickets_distinct_def by fastforce
        with t t0 a show False by (auto simp: after_finish_def)
      qed
      moreover have "f0 = m" "c0 = c" using True old(1) C(1) by simp_all
      ultimately have "m + 1 \<le> m'" "\<not> owns (t_pc task0)" using old up by auto
      with True old v(1,3) \<open>c0 = c\<close> show ?thesis by auto
    next
      case False
      with old v(1,3) show ?thesis by auto
    qed
  qed
qed

lemma finish_inv:
  assumes U: "uuid_laws U" and inv: "lock_inv U s" and d: "disciplined (Finish r) s"
    and st: "exec_step E U (Finish r) s = Some s'"
  shows "lock_inv U s'"
proof -
  obtain t task m i c where t: "client_tasks s t = Some task" "t_pc task = Sent m i" "t_request task = r"
    and C: "sector_counters (executor s) (t_sector task) = Some (c, m)" "m < c"
    and s': "sector_counters (executor s') = (sector_counters (executor s))(t_sector task \<mapsto> (c, m + 1))"
      "msg_id_handler_sector_idx (executor s') = (msg_id_handler_sector_idx (executor s))(request_uuid U r := None)"
      "sector_notifiers (executor s') = sector_notifiers (executor s)"
      "client_tasks s' = (\<lambda>t. map_option (after_finish r (i, t_sector task)) (client_tasks s t))"
    by (rule finish_step [OF assms])
  note ok = inv [unfolded lock_inv_def]
  note v = after_finish_view [where r = r and e = "(i, t_sector task)"]
  show ?thesis
    unfolding lock_inv_def
  proof (intro conjI)
    show "tickets_ok (sector_counters (executor s')) (client_tasks s')"
      unfolding s' using ok t C by (intro finish_tickets_ok [where t = t and T = "client_tasks s"]) simp_all
    show "tickets_distinct (client_tasks s')"
      using ok unfolding s' tickets_distinct_def by (auto dest!: v(2) simp: v(1))
    show "sectors_ok (sector_notifiers (executor s')) (client_tasks s')"
      using ok unfolding s' sectors_ok_def by (auto simp: v(1))
    show rd: "requests_distinct (client_tasks s')"
      unfolding requests_distinct_def s'
    proof (intro allI impI, elim conjE)
      fix t1 t2 task1 task2
      assume a: "map_option (after_finish r (i, t_sector task)) (client_tasks s t1) = Some task1"
        "map_option (after_finish r (i, t_sector task)) (client_tasks s t2) = Some task2"
        "t_pc task1 \<noteq> Finished" "t_pc task2 \<noteq> Finished" "t_request task1 = t_request task2"
      then obtain u1 u2 where u: "client_tasks s t1 = Some u1" "client_tasks s t2 = Some u2"
        "task1 = after_finish r (i, t_sector task) u1" "task2 = after_finish r (i, t_sector task) u2" by auto
      with a v(5) have "t_pc u1 \<noteq> Finished" "t_pc u2 \<noteq> Finished" by metis+
      with u a(5) ok show "t1 = t2" unfolding requests_distinct_def by (simp add: v(1))
    qed
    show "handlers_ok U (msg_id_handler_sector_idx (executor s')) (client_tasks s')"
      unfolding handlers_ok_def s'
    proof (intro allI impI, elim conjE)
      fix t1 task1 j
      assume a: "map_option (after_finish r (i, t_sector task)) (client_tasks s t1) = Some task1" "handler (t_pc task1) = Some j"
      then obtain u1 where u: "client_tasks s t1 = Some u1" "task1 = after_finish r (i, t_sector task) u1" by auto
      with a v(4) have h: "handler (t_pc u1) = Some j" by metis
      have "t_request u1 \<noteq> r"
      proof
        assume "t_request u1 = r"
        moreover have "t_pc u1 \<noteq> Finished" using h by auto
        ultimately have "t1 = t" using ok t u(1) unfolding requests_distinct_def by (metis client_pc.distinct)
        with t u a show False by (auto simp: after_finish_def)
      qed
      with U h u ok show "((msg_id_handler_sector_idx (executor s))(request_uuid U r := None)) (request_uuid U (t_request task1)) = Some (j, t_sector task1)"
        unfolding handlers_ok_def by (simp add: v(1) request_uuid_inject)
    qed
  qed
qed

lemma exec_step_inv:
  assumes "uuid_laws U" and "lock_inv U s" and "disciplined a s" and "exec_step E U a s = Some s'"
  shows "lock_inv U s'"
proof (cases a)
  case (ClientCall t cmd cb)
  show ?thesis by (rule client_call_inv [OF assms(2) assms(3,4) [unfolded ClientCall]])
next
  case (ClientStep t)
  show ?thesis by (rule client_step_inv [OF assms(1,2) assms(3,4) [unfolded ClientStep]])
next
  case (Finish r)
  show ?thesis by (rule finish_inv [OF assms(1,2) assms(3,4) [unfolded Finish]])
next
  case (SystemCall t cmd)
  with assms(4) show ?thesis
    by (intro lock_inv_same [OF assms(2)]) (auto simp: exec_step_def split: if_splits)
next
  case (SystemStep t)
  with assms(4) show ?thesis
    by (intro lock_inv_same [OF assms(2)])
      (auto simp: exec_step_def dest: system_step_same split: option.splits)
next
  case (Announce i)
  with assms(4) show ?thesis
    by (intro lock_inv_same [OF assms(2)]) (auto simp: exec_step_def dest: announce_same)
next
  case (Handle i order)
  with assms(4) show ?thesis
    by (intro lock_inv_same [OF assms(2)]) (auto simp: exec_step_def dest: handle_same)
qed

lemma reachable_lock_inv:
  assumes "uuid_laws U" and "reachable E U regs n w s"
  shows "lock_inv U s"
  using assms(2)
proof (induction rule: reachable.induct)
  case init
  show ?case
    by (simp add: exec_init_def CommandsExecutor_new_def lock_inv_def lock_inv_defs)
next
  case (step s a s')
  then show ?case using exec_step_inv [OF assms(1)] by blast
qed

text \<open>
  C5. The sector lock: in every state that disciplined calls can reach, however their steps interleave,
  at most one client command owns a sector, and it holds the smallest ticket of the sector's
  unfinished commands: commands get the sector in the order in which they took their tickets.
\<close>

theorem sector_lock:
  assumes "uuid_laws U" and "reachable E U regs n w s"
    and "client_tasks s t = Some task" and "owns (t_pc task)" and "ticket (t_pc task) = Some m"
    and "client_tasks s t' = Some task'" and "t' \<noteq> t" and "t_sector task' = t_sector task"
    and "ticket (t_pc task') = Some m'"
  shows "\<not> owns (t_pc task') \<and> m < m'"
proof -
  have ok: "tickets_ok (sector_counters (executor s)) (client_tasks s)" "tickets_distinct (client_tasks s)"
    using reachable_lock_inv [OF assms(1,2)] by (simp_all add: lock_inv_def)
  obtain c f where C: "sector_counters (executor s) (t_sector task) = Some (c, f)" "m = f"
    using ok(1) assms(3-5) unfolding tickets_ok_def by blast
  obtain c' f' where "sector_counters (executor s) (t_sector task') = Some (c', f')" "f' \<le> m'"
    "owns (t_pc task') \<longrightarrow> m' = f'"
    using ok(1) assms(6,9) unfolding tickets_ok_def by blast
  then have "m \<le> m'" "owns (t_pc task') \<longrightarrow> m' = m"
    using C assms(8) by auto
  moreover have "m' \<noteq> m"
    using ok(2) assms(3,5-9) unfolding tickets_distinct_def by metis
  ultimately show ?thesis by auto
qed

text \<open>
  C16. Routing: as long as a client command is with a register, every \<open>Value\<close> and \<open>Ack\<close> that carries its
  identifier is passed to that register, and to no other.
\<close>

theorem answers_reach_their_register:
  assumes "uuid_laws U" and "reachable E U regs n w s" and "client_tasks s t = Some task" and "t_pc task = Sent m i"
    and "\<not> is_request (s_content cmd)" and "msg_ident (s_header cmd) = request_uuid U (t_request task)"
  shows "system_step dead cmd SysEntered (executor s) = Some (SysGot i, executor s)"
proof -
  have "msg_id_handler_sector_idx (executor s) (request_uuid U (t_request task)) = Some (i, t_sector task)"
    using reachable_lock_inv [OF assms(1,2)] assms(3,4) by (auto simp: lock_inv_def handlers_ok_def)
  with assms(5,6) show ?thesis by simp
qed

section \<open>A lost wake-up\<close>

fun disciplined_run ::
    "(nat \<Rightarrow> ('w, 'u) register_env) \<Rightarrow> 'u uuid_crate \<Rightarrow> ('u, 'cb) action list \<Rightarrow> ('w, 'u, 'cb) exec_state \<Rightarrow> bool" where
  "disciplined_run E U [] s \<longleftrightarrow> True"
| "disciplined_run E U (a # as) s \<longleftrightarrow>
     disciplined a s \<and> (case exec_step E U a s of None \<Rightarrow> False | Some s' \<Rightarrow> disciplined_run E U as s')"

lemma reachable_run:
  "reachable E U regs n w s \<Longrightarrow> disciplined_run E U as s \<Longrightarrow> exec_run E U as s = Some s' \<Longrightarrow>
     reachable E U regs n w s'"
  by (induction as arbitrary: s) (auto intro: reachable.step split: option.splits)

lemma parked_stays_step:
  assumes U: "uuid_laws U" and inv: "lock_inv U s" and d: "disciplined a s" and st: "exec_step E U a s = Some s'"
    and T: "client_tasks s t = Some task" "t_pc task = Parked m"
    and C: "sector_counters (executor s) (t_sector task) = Some (c, m)"
  shows "client_tasks s' t = Some task \<and> (\<exists>c'. sector_counters (executor s') (t_sector task) = Some (c', m))"
proof (cases a)
  case (Finish r)
  obtain t0 task0 m0 i c0 where t0: "client_tasks s t0 = Some task0" "t_pc task0 = Sent m0 i"
    and C0: "sector_counters (executor s) (t_sector task0) = Some (c0, m0)"
    and s': "sector_counters (executor s') = (sector_counters (executor s))(t_sector task0 \<mapsto> (c0, m0 + 1))"
      "client_tasks s' = (\<lambda>t. map_option (after_finish r (i, t_sector task0)) (client_tasks s t))"
    by (rule finish_step [OF U inv d [unfolded Finish] st [unfolded Finish]])
  have "t_sector task0 \<noteq> t_sector task"
  proof
    assume same: "t_sector task0 = t_sector task"
    with C C0 have "m0 = m" by simp
    with inv same T t0 have "t0 = t" unfolding lock_inv_def tickets_distinct_def by fastforce
    with T t0 show False by simp
  qed
  with s' T C show ?thesis by (auto simp: after_finish_def)
next
  case (ClientCall t' cmd cb)
  with st T C show ?thesis by (auto simp: exec_step_def split: if_splits)
next
  case (SystemCall t' cmd)
  with st T C show ?thesis by (auto simp: exec_step_def split: if_splits)
next
  case (SystemStep t')
  with st T C show ?thesis by (auto simp: exec_step_def dest: system_step_same split: option.splits)
next
  case (Announce i)
  with st T C show ?thesis by (auto simp: exec_step_def dest: announce_same)
next
  case (Handle i order)
  with st T C show ?thesis by (auto simp: exec_step_def dest: handle_same)
next
  case (ClientStep t')
  then obtain task' pc ex where t': "client_tasks s t' = Some task'"
    and c: "client_step U (\<forall>p \<in> set (threads s). p = Dead) (t_cmd task') (t_callback task') (t_pc task') (executor s) = Some (pc, ex)"
    and s': "s' = s\<lparr>executor := ex, client_tasks := (client_tasks s)(t' \<mapsto> task'\<lparr>t_pc := pc\<rparr>)\<rparr>"
    using st by (auto simp: exec_step_def split: option.splits)
  from T t' c have "t' \<noteq> t" by auto
  moreover have "\<exists>c'. sector_counters ex (t_sector task) = Some (c', m)"
    using c C by (cases "t_pc task'")
      (auto simp: take_ticket_def record_handler_def dest: send_worker_same split: option.splits list.splits if_splits prod.splits)
  ultimately show ?thesis using T s' by simp
qed

text \<open>
  C22. A lost wake-up is for ever: when a command is parked although its turn has come, no disciplined
  continuation ever runs it again. Nobody is left to call \<^verbatim>\<open>notify_waiters\<close> for its sector, and all later
  commands of the sector wait behind it.
\<close>

theorem lost_wakeup_is_permanent:
  assumes "uuid_laws U" and "reachable E U regs n w s"
    and "client_tasks s t = Some task" and "t_pc task = Parked m"
    and "sector_counters (executor s) (t_sector task) = Some (c, m)"
    and "disciplined_run E U as s" and "exec_run E U as s = Some s'"
  shows "client_tasks s' t = Some task"
  using reachable_lock_inv [OF assms(1,2)] assms(3-7)
proof (induction as arbitrary: s c)
  case Nil
  then show ?case by simp
next
  case (Cons a as)
  then obtain s1 where d: "disciplined a s" and s1: "exec_step E U a s = Some s1" and rest: "disciplined_run E U as s1" "exec_run E U as s1 = Some s'"
    by (auto split: option.splits)
  from parked_stays_step [OF assms(1) Cons.prems(1) d s1 Cons.prems(2-4)] obtain c' where
    "client_tasks s1 t = Some task" "sector_counters (executor s1) (t_sector task) = Some (c', m)" by blast
  with Cons.IH exec_step_inv [OF assms(1) Cons.prems(1) d s1] Cons.prems(3) rest show ?case by blast
qed

text \<open>Two writes to sector \<open>0\<close>, with one register.\<close>

abbreviation demo_cmd :: "u64 \<Rightarrow> SectorIdx \<Rightarrow> ClientRegisterCommand" where
  "demo_cmd r x \<equiv> \<lparr>c_header = \<lparr>request_identifier = r, c_sector_idx = x\<rparr>, c_content = Write [1]\<rparr>"

abbreviation demo_exec :: "(SectorsManagerImplementation \<times> disk, u128, nat) exec_state" where
  "demo_exec \<equiv> exec_init [idle_register 1 3] 2 (demo_sm, demo_disk)"

abbreviation demo_contended :: "(u128, nat) action list" where
  "demo_contended \<equiv> [Announce 0, ClientCall 0 (demo_cmd 5 0) 0, ClientStep 0, ClientStep 0, ClientStep 0, ClientStep 0,
     ClientStep 0, ClientCall 1 (demo_cmd 6 0) 1, ClientStep 1, ClientStep 1]"

lemmas exec_eval = exec_step_def exec_init_def CommandsExecutor_new_def announce_def handle_def take_ticket_def
  is_my_turn_def record_handler_def send_worker_def finish_client_command_def after_finish_def

lemma demo_contended_run:
  obtains s where "disciplined_run (\<lambda>i. demo_env) u128_uuid demo_contended demo_exec"
    and "exec_run (\<lambda>i. demo_env) u128_uuid demo_contended demo_exec = Some s"
    and "client_tasks s = [0 \<mapsto> \<lparr>t_cmd = demo_cmd 5 0, t_callback = 0, t_pc = Sent 0 0\<rparr>,
           1 \<mapsto> \<lparr>t_cmd = demo_cmd 6 0, t_callback = 1, t_pc = NotOwner 1\<rparr>]"
    and "sector_counters (executor s) = [0 \<mapsto> (2, 0)]" and "sector_notifiers (executor s) = 2"
    and "msg_id_handler_sector_idx (executor s) = [request_uuid u128_uuid 5 \<mapsto> (0, 0)]"
  by (simp add: exec_eval fun_upd_twist)

lemma demo_contended_reachable:
  assumes "disciplined_run (\<lambda>i. demo_env) u128_uuid as demo_exec"
    and "exec_run (\<lambda>i. demo_env) u128_uuid as demo_exec = Some s"
  shows "reachable (\<lambda>i. demo_env) u128_uuid [idle_register 1 3] 2 (demo_sm, demo_disk) s"
  by (rule reachable_run [OF reachable.init assms])

theorem sector_lock_witness:
  "\<exists>s. exec_run (\<lambda>i. demo_env) u128_uuid demo_contended demo_exec = Some s \<and>
     (\<exists>task'. client_tasks s 1 = Some task' \<and> ticket (t_pc task') = Some 1 \<and> \<not> owns (t_pc task') \<and> (0 :: u64) < 1)"
proof -
  obtain s where r: "disciplined_run (\<lambda>i. demo_env) u128_uuid demo_contended demo_exec"
    "exec_run (\<lambda>i. demo_env) u128_uuid demo_contended demo_exec = Some s"
    and T: "client_tasks s = [0 \<mapsto> \<lparr>t_cmd = demo_cmd 5 0, t_callback = 0, t_pc = Sent 0 0\<rparr>,
           1 \<mapsto> \<lparr>t_cmd = demo_cmd 6 0, t_callback = 1, t_pc = NotOwner 1\<rparr>]"
    by (rule demo_contended_run)
  have T0: "client_tasks s 0 = Some \<lparr>t_cmd = demo_cmd 5 0, t_callback = 0, t_pc = Sent 0 0\<rparr>"
    and T1: "client_tasks s 1 = Some \<lparr>t_cmd = demo_cmd 6 0, t_callback = 1, t_pc = NotOwner 1\<rparr>"
    by (simp_all add: T)
  have "\<not> owns (NotOwner 1) \<and> (0 :: u64) < 1"
    using sector_lock [OF u128_uuid_laws demo_contended_reachable [OF r] T0 _ _ T1, of 0 1] by simp
  with r T1 show ?thesis by auto
qed

theorem answers_reach_their_register_witness:
  "\<exists>s. exec_run (\<lambda>i. demo_env) u128_uuid demo_contended demo_exec = Some s \<and>
     system_step False \<lparr>s_header = SystemCommandHeader_new 2 (request_uuid u128_uuid 5) 1 0, s_content = Ack\<rparr>
       SysEntered (executor s) = Some (SysGot 0, executor s)"
proof -
  obtain s where r: "disciplined_run (\<lambda>i. demo_env) u128_uuid demo_contended demo_exec"
    "exec_run (\<lambda>i. demo_env) u128_uuid demo_contended demo_exec = Some s"
    and T: "client_tasks s = [0 \<mapsto> \<lparr>t_cmd = demo_cmd 5 0, t_callback = 0, t_pc = Sent 0 0\<rparr>,
           1 \<mapsto> \<lparr>t_cmd = demo_cmd 6 0, t_callback = 1, t_pc = NotOwner 1\<rparr>]"
    by (rule demo_contended_run)
  have T0: "client_tasks s 0 = Some \<lparr>t_cmd = demo_cmd 5 0, t_callback = 0, t_pc = Sent 0 0\<rparr>" by (simp add: T)
  from answers_reach_their_register [OF u128_uuid_laws demo_contended_reachable [OF r] T0, of 0 0
      "\<lparr>s_header = SystemCommandHeader_new 2 (request_uuid u128_uuid 5) 1 0, s_content = Ack\<rparr>" False] r
  show ?thesis by (auto simp: SystemCommandHeader_new_def)
qed

lemma disciplined_run_append:
  "disciplined_run E U as s \<Longrightarrow> exec_run E U as s = Some s1 \<Longrightarrow> disciplined_run E U bs s1 \<Longrightarrow>
     disciplined_run E U (as @ bs) s"
  by (induction as arbitrary: s) (auto split: option.splits)

lemma exec_run_append: "exec_run E U as s = Some s1 \<Longrightarrow> exec_run E U (as @ bs) s = exec_run E U bs s1"
  by (induction as arbitrary: s) (auto split: option.splits)

text \<open>
  The second command saw that it is not its turn; the first one finishes, and only then does the second
  one wait for the notification.
\<close>

theorem lost_wakeup_is_permanent_witness:
  "\<exists>s s'. exec_run (\<lambda>i. demo_env) u128_uuid (demo_contended @ [Finish 5, ClientStep 1]) demo_exec = Some s \<and>
     sector_counters (executor s) 0 = Some (2, 1) \<and>
     exec_run (\<lambda>i. demo_env) u128_uuid [ClientCall 2 (demo_cmd 7 0) 2, ClientStep 2, ClientStep 2] s = Some s' \<and>
     map_option t_pc (client_tasks s' 1) = Some (Parked 1)"
proof -
  let ?E = "\<lambda>i :: nat. demo_env" and ?U = u128_uuid
  let ?tail = "[Finish 5, ClientStep 1] :: (u128, nat) action list"
  let ?as = "[ClientCall 2 (demo_cmd 7 0) 2, ClientStep 2, ClientStep 2] :: (u128, nat) action list"
  obtain s0 where r0: "disciplined_run ?E ?U demo_contended demo_exec" "exec_run ?E ?U demo_contended demo_exec = Some s0"
    and T: "client_tasks s0 = [0 \<mapsto> \<lparr>t_cmd = demo_cmd 5 0, t_callback = 0, t_pc = Sent 0 0\<rparr>,
           1 \<mapsto> \<lparr>t_cmd = demo_cmd 6 0, t_callback = 1, t_pc = NotOwner 1\<rparr>]"
    and C: "sector_counters (executor s0) = [0 \<mapsto> (2, 0)]" "sector_notifiers (executor s0) = 2"
      "msg_id_handler_sector_idx (executor s0) = [request_uuid u128_uuid 5 \<mapsto> (0, 0)]"
    by (rule demo_contended_run)
  obtain s where r: "disciplined_run ?E ?U ?tail s0" "exec_run ?E ?U ?tail s0 = Some s"
    and T1: "client_tasks s 1 = Some \<lparr>t_cmd = demo_cmd 6 0, t_callback = 1, t_pc = Parked 1\<rparr>"
      "client_tasks s = [0 \<mapsto> \<lparr>t_cmd = demo_cmd 5 0, t_callback = 0, t_pc = Finished\<rparr>,
         1 \<mapsto> \<lparr>t_cmd = demo_cmd 6 0, t_callback = 1, t_pc = Parked 1\<rparr>]"
    and C1: "sector_counters (executor s) = [0 \<mapsto> (2, 1)]" "sector_notifiers (executor s) = 2"
    by (auto simp: exec_eval T C fun_eq_iff)
  have reach: "reachable ?E ?U [idle_register 1 3] 2 (demo_sm, demo_disk) s"
    by (rule demo_contended_reachable [of "demo_contended @ ?tail"])
      (use disciplined_run_append [OF r0 r(1)] exec_run_append [OF r0(2), of ?tail] r(2) in simp_all)
  obtain s' where r': "disciplined_run ?E ?U ?as s" "exec_run ?E ?U ?as s = Some s'"
    by (auto simp: exec_eval T1(2) C1)
  have "client_tasks s' 1 = Some \<lparr>t_cmd = demo_cmd 6 0, t_callback = 1, t_pc = Parked 1\<rparr>"
    by (rule lost_wakeup_is_permanent [OF u128_uuid_laws reach T1(1) _ _ r']) (simp_all add: C1)
  moreover have "exec_run ?E ?U (demo_contended @ ?tail) demo_exec = Some s"
    using exec_run_append [OF r0(2), of ?tail] r(2) by simp
  ultimately show ?thesis using r'(2) C1(1) by (intro exI [of _ s] exI [of _ s']) simp
qed

section \<open>No index out of range\<close>

fun chosen :: "client_pc \<Rightarrow> nat option" where
  "chosen (GotRegister m i) = Some i"
| "chosen (Recorded m i) = Some i"
| "chosen (Sent m i) = Some i"
| "chosen _ = None"

text \<open>All register indices in flight are below the number \<open>n\<close> of registers, and nothing has panicked.\<close>

definition executor_in_range :: "nat \<Rightarrow> ('u, 'cb) CommandsExecutor \<Rightarrow> bool" where
  "executor_in_range n ex \<longleftrightarrow> length (cmd_senders ex) = n \<and> (\<forall>i \<in> set (ready_register_receiver ex). i < n) \<and>
     (\<forall>u. pred_option (\<lambda>e. fst e < n) (msg_id_handler_sector_idx ex u))"

definition client_in_range :: "nat \<Rightarrow> client_pc \<Rightarrow> bool" where
  "client_in_range n pc \<longleftrightarrow> (\<forall>i. chosen pc = Some i \<longrightarrow> i < n) \<and> (\<forall>m. pc \<noteq> Panicked m)"

definition system_in_range :: "nat \<Rightarrow> system_pc \<Rightarrow> bool" where
  "system_in_range n pc \<longleftrightarrow> (\<forall>i. pc = SysGot i \<longrightarrow> i < n) \<and> pc \<noteq> SysPanicked"

definition in_range :: "('w, 'u, 'cb) exec_state \<Rightarrow> bool" where
  "in_range s \<longleftrightarrow> executor_in_range (length (threads s)) (executor s) \<and>
     (\<forall>task \<in> ran (client_tasks s). client_in_range (length (threads s)) (t_pc task)) \<and>
     (\<forall>task \<in> ran (system_tasks s). system_in_range (length (threads s)) (y_pc task))"

lemma executor_in_range_lookup:
  "executor_in_range n ex \<Longrightarrow> msg_id_handler_sector_idx ex u = Some (i, x) \<Longrightarrow> i < n"
  unfolding executor_in_range_def by (metis fst_conv option.pred_inject(2))

lemma ran_upd: "x \<in> ran (m(k \<mapsto> v)) \<Longrightarrow> x = v \<or> x \<in> ran m"
  by (auto simp: ran_def split: if_splits)

lemma send_worker_in_range:
  assumes "executor_in_range n ex" and "i < n"
  obtains ex' where "send_worker i msg ex = Some ex'" and "executor_in_range n ex'"
proof -
  have "send_worker i msg ex = Some (ex\<lparr>cmd_senders := (cmd_senders ex)[i := cmd_senders ex ! i @ [msg]]\<rparr>)"
    using assms by (simp add: send_worker_def executor_in_range_def)
  moreover have "executor_in_range n (ex\<lparr>cmd_senders := (cmd_senders ex)[i := cmd_senders ex ! i @ [msg]]\<rparr>)"
    using assms(1) by (simp add: executor_in_range_def)
  ultimately show thesis by (rule that)
qed

lemma client_step_in_range:
  assumes ex: "executor_in_range n ex" and pc: "client_in_range n pc"
    and turn: "\<forall>m. pc = HasTicket m \<longrightarrow> sector_counters ex (c_sector_idx (c_header cmd)) \<noteq> None"
    and sector: "unat (c_sector_idx (c_header cmd)) < sector_notifiers ex"
    and st: "client_step U dead cmd cb pc ex = Some (pc', ex')"
  shows "executor_in_range n ex' \<and> client_in_range n pc'"
proof (cases pc)
  case (Recorded m i)
  with pc have "i < n" by (simp add: client_in_range_def)
  with ex obtain ex1 where "send_worker i (ClientMessage cmd cb) ex = Some ex1" "executor_in_range n ex1"
    by (rule send_worker_in_range)
  with Recorded st \<open>i < n\<close> show ?thesis by (auto simp: client_in_range_def)
next
  case (HasTicket m)
  with turn st ex show ?thesis
    by (auto simp: is_my_turn_def client_in_range_def split: option.splits if_splits)
next
  case (GotRegister m i)
  with st ex pc show ?thesis
    by (auto simp: record_handler_def client_in_range_def executor_in_range_def split: if_splits)
next
  case Entered
  with st ex show ?thesis
    by (auto simp: take_ticket_def client_in_range_def executor_in_range_def split: option.splits prod.splits)
qed (use st ex sector in \<open>auto simp: client_in_range_def executor_in_range_def split: list.splits if_splits\<close>)

lemma system_step_in_range:
  assumes ex: "executor_in_range n ex" and pc: "system_in_range n pc"
    and st: "system_step dead cmd pc ex = Some (pc', ex')"
  shows "executor_in_range n ex' \<and> system_in_range n pc'"
proof (cases pc)
  case (SysGot i)
  with pc have "i < n" by (simp add: system_in_range_def)
  with ex obtain ex1 where "send_worker i (SystemMessage cmd) ex = Some ex1" "executor_in_range n ex1"
    by (rule send_worker_in_range)
  with SysGot st show ?thesis by (auto simp: system_in_range_def)
next
  case SysEntered
  with st ex show ?thesis
    using executor_in_range_lookup [OF ex, of "msg_ident (s_header cmd)"]
    by (auto simp: system_in_range_def executor_in_range_def split: if_splits list.splits option.splits)
qed (use st in simp_all)

lemma in_range_step:
  assumes inv: "lock_inv U s" and r: "in_range s" and st: "exec_step E U a s = Some s'"
  shows "in_range s' \<and> length (threads s') = length (threads s)"
proof (cases a)
  case (ClientStep t)
  obtain task pc ex where T: "client_tasks s t = Some task"
    and c: "client_step U (\<forall>p \<in> set (threads s). p = Dead) (t_cmd task) (t_callback task) (t_pc task) (executor s) = Some (pc, ex)"
    and s': "s' = s\<lparr>executor := ex, client_tasks := (client_tasks s)(t \<mapsto> task\<lparr>t_pc := pc\<rparr>)\<rparr>"
    using st ClientStep by (auto simp: exec_step_def split: option.splits)
  have "executor_in_range (length (threads s)) ex \<and> client_in_range (length (threads s)) pc"
  proof (rule client_step_in_range [OF _ _ _ _ c])
    show "executor_in_range (length (threads s)) (executor s)" "client_in_range (length (threads s)) (t_pc task)"
      using r T by (auto simp: in_range_def ran_def)
    show "\<forall>m. t_pc task = HasTicket m \<longrightarrow> sector_counters (executor s) (t_sector task) \<noteq> None"
      "unat (t_sector task) < sector_notifiers (executor s)"
      using inv T by (fastforce simp: lock_inv_def tickets_ok_def sectors_ok_def)+
  qed
  with r s' show ?thesis by (auto simp: in_range_def dest!: ran_upd)
next
  case (SystemStep t)
  obtain task pc ex where T: "system_tasks s t = Some task"
    and c: "system_step (\<forall>p \<in> set (threads s). p = Dead) (y_cmd task) (y_pc task) (executor s) = Some (pc, ex)"
    and s': "s' = s\<lparr>executor := ex, system_tasks := (system_tasks s)(t \<mapsto> task\<lparr>y_pc := pc\<rparr>)\<rparr>"
    using st SystemStep by (auto simp: exec_step_def split: option.splits)
  have "executor_in_range (length (threads s)) ex \<and> system_in_range (length (threads s)) pc"
    by (rule system_step_in_range [OF _ _ c]) (use r T in \<open>auto simp: in_range_def ran_def\<close>)
  with r s' show ?thesis by (auto simp: in_range_def dest!: ran_upd)
next
  case (Finish rid)
  obtain entry ex where f: "finish_client_command U rid (executor s) = (entry, ex)" by (metis surj_pair)
  then have ex: "executor_in_range (length (threads s)) ex"
    using r by (auto simp: in_range_def finish_client_command_def executor_in_range_def Let_def
        split: option.splits if_splits)
  have "client_in_range n (t_pc (after_finish rid e task))" if "client_in_range n (t_pc task)" for n e and task :: "'c client_task"
    using that by (auto simp: client_in_range_def after_finish_def split: client_pc.splits)
  moreover have "s' = s\<lparr>executor := ex, client_tasks := (case entry of None \<Rightarrow> client_tasks s
      | Some e \<Rightarrow> (\<lambda>t. map_option (after_finish rid e) (client_tasks s t)))\<rparr>"
    using f st Finish by (simp add: exec_step_def)
  ultimately show ?thesis
    using r ex by (auto simp: in_range_def ran_def split: option.splits)
next
  case (Announce i)
  with st r show ?thesis
    by (auto simp: exec_step_def announce_def in_range_def executor_in_range_def split: if_splits)
next
  case (Handle i order)
  with st r show ?thesis
    by (auto simp: exec_step_def handle_def in_range_def executor_in_range_def Let_def split: if_splits list.splits option.splits)
qed (use st r in \<open>auto simp: exec_step_def in_range_def client_in_range_def system_in_range_def dest!: ran_upd split: if_splits\<close>)



section \<open>A busy register\<close>

lemma client_command_callback:
  "\<exists>reg' w' e. client_command E c b reg w = (reg', w', e) \<and> callback reg' = Some b \<and> called e = []"
  by (simp add: client_command_def Let_def split: ClientRegisterCommandContent.split)

text \<open>
  C38. A register thread announces itself after every message, also while its register's operation is in
  progress. So when a client command is next in the channel of register \<open>i\<close> and another command, of
  another sector, waits for a register, the second one can be given to the same register before the
  first one is answered: the first one's callback is gone, and it was never called.
\<close>

theorem busy_register_overwritten:
  assumes "i < length (threads s)" and "threads s ! i = Receiving" and "length (cmd_senders (executor s)) = length (threads s)"
    and "length (registers s) = length (threads s)" and "cmd_senders (executor s) ! i = [ClientMessage cmd cb]"
    and "ready_register_receiver (executor s) = []"
    and "client_tasks s t = Some \<lparr>t_cmd = cmd', t_callback = cb', t_pc = Owner m\<rparr>"
  shows "\<exists>s' e1 e2. exec_run E U [Handle i o1, Announce i, ClientStep t, ClientStep t, ClientStep t, Handle i o2] s = Some s' \<and>
    callback (registers s' ! i) = Some cb' \<and> effects s' = effects s @ [(i, e1), (i, e2)] \<and> called (e1 @ e2) = []"
proof -
  obtain reg1 w1 e1 where 1: "client_command (E i) cmd cb (registers s ! i) (world s) = (reg1, w1, e1)" "called e1 = []"
    using client_command_callback [of "E i" cmd cb "registers s ! i" "world s"] by blast
  obtain reg2 w2 e2 where 2: "client_command (E i) cmd' cb' reg1 w1 = (reg2, w2, e2)" "callback reg2 = Some cb'" "called e2 = []"
    using client_command_callback [of "E i" cmd' cb' reg1 w1] by blast
  from assms 1 2 show ?thesis
    by (simp add: exec_step_def handle_def announce_def handle_message_def record_handler_def send_worker_def)
qed

theorem busy_register_overwritten_witness:
  "\<exists>s s' e1 e2. exec_run (\<lambda>i. demo_env) u128_uuid [Announce 0, ClientCall 0 (demo_cmd 5 0) 0, ClientStep 0, ClientStep 0,
       ClientStep 0, ClientStep 0, ClientStep 0, ClientCall 1 (demo_cmd 6 1) 1, ClientStep 1, ClientStep 1] demo_exec = Some s \<and>
     exec_run (\<lambda>i. demo_env) u128_uuid [Handle 0 all_ranks, Announce 0, ClientStep 1, ClientStep 1, ClientStep 1, Handle 0 all_ranks] s
       = Some s' \<and> callback (registers s' ! 0) = Some 1 \<and> effects s' = effects s @ [(0, e1), (0, e2)] \<and> called (e1 @ e2) = []"
proof -
  let ?E = "\<lambda>i :: nat. demo_env"
  let ?as = "[Announce 0, ClientCall 0 (demo_cmd 5 0) 0, ClientStep 0, ClientStep 0,
       ClientStep 0, ClientStep 0, ClientStep 0, ClientCall 1 (demo_cmd 6 1) 1, ClientStep 1, ClientStep 1] :: (u128, nat) action list"
  obtain s where run: "exec_run ?E u128_uuid ?as demo_exec = Some s"
    and s: "threads s = [Receiving]" "cmd_senders (executor s) = [[ClientMessage (demo_cmd 5 0) 0]]"
      "length (registers s) = 1" "ready_register_receiver (executor s) = []"
      "client_tasks s 1 = Some \<lparr>t_cmd = demo_cmd 6 1, t_callback = 1, t_pc = Owner 0\<rparr>"
    by (simp add: exec_eval)
  from busy_register_overwritten [of 0 s "demo_cmd 5 0" 0 1 "demo_cmd 6 1" 1 0 ?E u128_uuid all_ranks all_ranks] s run
  show ?thesis by auto
qed

section \<open>Commands that are not finished\<close>

lemma sent_stays_step:
  assumes st: "exec_step E U a s = Some s'" and T: "client_tasks s t = Some task" "t_pc task = Sent m i"
    and a: "a \<noteq> Finish (t_request task)"
  shows "client_tasks s' t = Some task"
proof (cases a)
  case (ClientStep t')
  with st T show ?thesis by (auto simp: exec_step_def split: option.splits)
next
  case (Finish r)
  with a T have "after_finish r e task = task" for e by (auto simp: after_finish_def)
  with st T Finish show ?thesis by (auto simp: exec_step_def split: option.splits prod.splits)
next
  case (SystemStep t')
  with st T show ?thesis by (auto simp: exec_step_def split: option.splits)
next
  case (Announce i)
  with st T show ?thesis by (auto simp: exec_step_def dest: announce_same)
next
  case (Handle i order)
  with st T show ?thesis by (auto simp: exec_step_def dest: handle_same)
qed (use st T in \<open>auto simp: exec_step_def split: if_splits\<close>)

lemma sent_stays_run:
  "exec_run E U as s = Some s' \<Longrightarrow> client_tasks s t = Some task \<Longrightarrow> t_pc task = Sent m i \<Longrightarrow>
     Finish (t_request task) \<notin> set as \<Longrightarrow> client_tasks s' t = Some task"
  by (induction as arbitrary: s) (auto split: option.splits dest: sent_stays_step)

lemma owner_excludes:
  assumes "uuid_laws U" and "reachable E U regs n w s" and "client_tasks s t = Some task" and "owns (t_pc task)"
    and "client_tasks s t' = Some task'" and "t' \<noteq> t" and "t_sector task' = t_sector task"
  shows "\<not> owns (t_pc task')"
proof
  assume o: "owns (t_pc task')"
  have ok: "tickets_ok (sector_counters (executor s)) (client_tasks s)" "tickets_distinct (client_tasks s)"
    using reachable_lock_inv [OF assms(1,2)] by (simp_all add: lock_inv_def)
  have tk: "\<exists>m. ticket pc = Some m" if "owns pc" for pc using that by (cases pc) auto
  from tk [OF assms(4)] tk [OF o] obtain m m' where "ticket (t_pc task) = Some m" "ticket (t_pc task') = Some m'" by blast
  with ok(1) assms o have "m = m'" unfolding tickets_ok_def by (metis option.inject prod.inject)
  with ok(2) assms \<open>ticket (t_pc task) = Some m\<close> \<open>ticket (t_pc task') = Some m'\<close> show False
    unfolding tickets_distinct_def by metis
qed

section \<open>Request numbers used twice\<close>



end
