(* ===== verification/Replicas.thy ===== *)
theory Replicas
  imports Register_Properties
begin

text \<open>
  A process as a replica: what its sectors hold after any sequence of messages to a register
  (\<^verbatim>\<open>solution/src/atomic_register.rs\<close>, the \<^verbatim>\<open>WriteProc\<close> branch). The abstract replica of one sector keeps
  the pair with the greatest tag; the register and the sectors manager on disk refine it. The last
  section is about two registers of one process that run the branch at the same time.
\<close>

section \<open>The abstract replica\<close>

text \<open>The pairs that a sequence of messages asks to be written to a sector.\<close>

definition writes_to :: "SectorIdx \<Rightarrow> (u8 list \<times> ('u, 'cb) WorkerMessage) list \<Rightarrow> (SectorVec \<times> u64 \<times> u8) list" where
  "writes_to idx = List.map_filter (\<lambda>(_, m). case m of
       SystemMessage cmd \<Rightarrow>
         (case s_content cmd of
            WriteProc ts wr d \<Rightarrow> if s_sector_idx (s_header cmd) = idx then Some (d, ts, wr) else None
          | _ \<Rightarrow> None)
     | ClientMessage _ _ \<Rightarrow> None)"

text \<open>What the process's sectors manager answers for a sector.\<close>

definition sector_of :: "SectorsManagerImplementation \<times> disk \<Rightarrow> SectorIdx \<Rightarrow> SectorVec \<times> u64 \<times> u8" where
  "sector_of w idx = (read_data (fst w) (snd w) idx, the (read_metadata (fst w) (snd w) idx))"

lemma writes_to_Nil [simp]: "writes_to idx [] = []"
  by (simp add: writes_to_def map_filter_def)

lemma writes_to_Cons:
  "writes_to idx ((ord, m) # ms) = (case m of
       SystemMessage cmd \<Rightarrow>
         (case s_content cmd of
            WriteProc ts wr d \<Rightarrow> (if s_sector_idx (s_header cmd) = idx then [(d, ts, wr)] else [])
          | _ \<Rightarrow> [])
     | ClientMessage _ _ \<Rightarrow> []) @ writes_to idx ms"
  by (simp add: writes_to_def split: WorkerMessage.split SystemRegisterCommandContent.split)

lemma newer_mem: "newer x a = x \<or> newer x a = a"
  by (simp add: newer_def)

lemma fold_newer_mem: "fold newer xs a \<in> insert a (set xs)"
proof (induction xs arbitrary: a)
  case (Cons x xs)
  from Cons.IH [of "newer x a"] newer_mem [of x a] show ?case by auto
qed simp

lemma fold_newer_ge: "x \<in> insert a (set xs) \<Longrightarrow> snd x \<le> snd (fold newer xs a)"
proof (induction xs arbitrary: a x)
  case (Cons y xs)
  have "snd a \<le> snd (newer y a)" "snd y \<le> snd (newer y a)"
    by (auto simp: newer_def simp del: less_prod_simp)
  with Cons.IH [of "newer y a" "newer y a"] Cons.IH [of x "newer y a"] Cons.prems show ?case
    by (auto intro: order_trans)
qed simp

lemma fold_newer_unique:
  assumes "insert a (set xs) = insert b (set ys)"
    and "\<forall>x \<in> insert a (set xs). \<forall>y \<in> insert a (set xs). snd x = snd y \<longrightarrow> x = y"
  shows "fold newer xs a = fold newer ys b"
proof -
  let ?x = "fold newer xs a" and ?y = "fold newer ys b"
  have mem: "?x \<in> insert a (set xs)" "?y \<in> insert a (set xs)"
    using fold_newer_mem [of xs a] fold_newer_mem [of ys b] assms(1) by simp_all
  have "snd ?x \<le> snd ?y"
    by (rule fold_newer_ge) (use mem(1) assms(1) in simp)
  moreover have "snd ?y \<le> snd ?x"
    by (rule fold_newer_ge) (rule mem(2))
  ultimately have "snd ?x = snd ?y" by (rule order_antisym)
  with assms(2) mem show ?thesis by blast
qed

section \<open>Refinement\<close>

context register_world
begin

lemma run_messages_sec:
  assumes "good False reg w" and "\<forall>(order, msg) \<in> set msgs. set order = UNIV"
    and "run_messages E msgs reg w = Some (reg', w', effs)"
  shows "sec w' idx = fold newer (writes_to idx msgs) (sec w idx)"
  using assms
proof (induction msgs arbitrary: reg w effs)
  case Nil
  then show ?case by simp
next
  case (Cons om msgs)
  obtain order msg where om: "om = (order, msg)" by (cases om)
  then have order: "set order = UNIV" using Cons.prems(2) by simp
  obtain reg1 w1 effs1 where h: "handle_message E order msg reg w = Some (reg1, w1, effs1)"
    and good: "good False reg1 w1"
    and sec: "sec w1 = (case msg of SystemMessage cmd \<Rightarrow> sec_after cmd w | ClientMessage _ _ \<Rightarrow> sec w)"
    by (rule handle_message_total [OF Cons.prems(1) _ order]) simp_all
  from h om Cons.prems(3) obtain effs2 where "run_messages E msgs reg1 w1 = Some (reg', w', effs2)"
    by (auto split: option.splits)
  from Cons.IH [OF good _ this] Cons.prems(2)
  have "sec w' idx = fold newer (writes_to idx msgs) (sec w1 idx)" by simp
  then show ?case
    by (simp add: om writes_to_Cons sec sec_after_def Let_def
        split: WorkerMessage.split SystemRegisterCommandContent.split)
qed

end

lemma impl_sec: "sectors_manager_contract.sec impl_ops w idx = sector_of w idx"
  by (simp add: sm.sec_def sector_of_def) (simp add: impl_ops_def split_beta)

lemma run_messages_sector:
  assumes "reg_inv reg" and "sm_inv root w" and "\<forall>(order, msg) \<in> set msgs. set order = UNIV"
    and "run_messages (impl_env U B root i) msgs reg w = Some (reg', w', effs)"
  shows "sector_of w' idx = fold newer (writes_to idx msgs) (sector_of w idx)"
  using reg.run_messages_sec [where U = U and B = B and root = root and i = i and reg = reg and w = w
      and msgs = msgs and idx = idx] assms
  by (simp add: reg.good_def impl_sec split_beta)

text \<open>
  C4. Replica refinement: after any run of messages, whatever their mix and order, a sector on disk
  holds its old pair or one that some \<open>WriteProc\<close> for this sector carried, data and tag together, and
  its tag is at least the old one and at least every tag received. No acknowledged write is lost to
  an older one, and sectors do not mix.
\<close>

theorem replica_keeps_newest:
  assumes "reg_inv reg" and "sm_inv root w" and "\<forall>(order, msg) \<in> set msgs. set order = UNIV"
    and "run_messages (impl_env U B root i) msgs reg w = Some (reg', w', effs)"
  shows "sector_of w' idx \<in> insert (sector_of w idx) (set (writes_to idx msgs)) \<and>
    (\<forall>x \<in> insert (sector_of w idx) (set (writes_to idx msgs)). snd x \<le> snd (sector_of w' idx))"
  unfolding run_messages_sector [OF assms] using fold_newer_mem fold_newer_ge by blast

lemma demo_run:
  assumes "\<forall>(order, msg) \<in> set msgs. set order = UNIV"
  obtains reg' w' effs where "run_messages demo_env msgs (idle_register ident n) (demo_sm, demo_disk) = Some (reg', w', effs)"
  using reg.run_messages_total [where U = u128_uuid and B = demo_bincode and root = "[''data'']" and i = 0 and b = False
      and reg = "idle_register ident n" and w = "(demo_sm, demo_disk)" and msgs = msgs] assms demo_inv
  by (auto simp: reg.good_def)

abbreviation write_msg :: "SectorIdx \<Rightarrow> u64 \<Rightarrow> u8 \<Rightarrow> SectorVec \<Rightarrow> u8 list \<times> (u128, unit) WorkerMessage" where
  "write_msg idx ts wr d \<equiv>
     (all_ranks, SystemMessage \<lparr>s_header = SystemCommandHeader_new 1 2 3 idx, s_content = WriteProc ts wr d\<rparr>)"

lemma writes_to_write_msg [simp]:
  "writes_to idx (write_msg idx' ts wr d # ms) = (if idx' = idx then (d, ts, wr) # writes_to idx ms else writes_to idx ms)"
  by (simp add: writes_to_Cons SystemCommandHeader_new_def)

lemma demo_sector_of: "snd (sector_of (demo_sm, demo_disk) 7) = (1, 2)"
  by (simp add: sector_of_def read_metadata_iff [OF demo_rep])

theorem replica_keeps_newest_witness:
  "\<exists>reg' w' effs. run_messages demo_env [write_msg 7 5 1 [4], write_msg 7 4 9 [3], write_msg 8 6 1 [2]]
      (idle_register 1 3) (demo_sm, demo_disk) = Some (reg', w', effs) \<and> sector_of w' 7 = ([4], 5, 1)"
proof -
  let ?ms = "[write_msg 7 5 1 [4], write_msg 7 4 9 [3], write_msg 8 6 1 [2]]"
  obtain reg' w' effs where run: "run_messages demo_env ?ms (idle_register 1 3) (demo_sm, demo_disk) = Some (reg', w', effs)"
    by (rule demo_run [of ?ms 1 3]) simp_all
  have "sector_of w' 7 \<in> {sector_of (demo_sm, demo_disk) 7, ([4], 5, 1), ([3], 4, 9)} \<and> (5, 1) \<le> snd (sector_of w' 7)"
    using replica_keeps_newest [OF reg_inv_idle demo_inv _ run, of 7] by simp
  then have "sector_of w' 7 = ([4], 5, 1)" using demo_sector_of by (auto simp: word_le_nat_alt)
  with run show ?thesis by blast
qed



section \<open>Two registers of one process\<close>

text \<open>
  The \<^verbatim>\<open>WriteProc\<close> branch takes no lock across its two calls of the sectors manager, so the calls of two
  register threads may interleave. Its two halves: the comparison with the stored tag, and the write.
\<close>

definition write_proc_check ::
    "('w, 'u) register_env \<Rightarrow> SectorIdx \<Rightarrow> u64 \<Rightarrow> u8 \<Rightarrow> 'w \<Rightarrow> bool option" where
  "write_proc_check E idx timestamp write_rank w =
     map_option (\<lambda>(ts, wr). (timestamp, write_rank) > (ts, wr)) (op_read_metadata (sectors E) w idx)"

definition write_proc_commit ::
    "('w, 'u) register_env \<Rightarrow> SectorIdx \<Rightarrow> u64 \<Rightarrow> u8 \<Rightarrow> SectorVec \<Rightarrow> bool \<Rightarrow> 'w \<Rightarrow> 'w option" where
  "write_proc_commit E idx timestamp write_rank data_to_write newer_tag w =
     (if newer_tag then op_write (sectors E) idx (data_to_write, timestamp, write_rank) w else Some w)"

lemma on_write_proc_halves:
  "on_write_proc E h ts wr d reg w =
     (case write_proc_check E (s_sector_idx h) ts wr w of
        None \<Rightarrow> None
      | Some b \<Rightarrow>
          (case write_proc_commit E (s_sector_idx h) ts wr d b w of
             None \<Rightarrow> None
           | Some w \<Rightarrow>
               Some (reg, w, [Send \<lparr>s_header = SystemCommandHeader_new (self_ident reg) (msg_ident h)
                                      (read_ident h) (s_sector_idx h), s_content = Ack\<rparr>
                                (unat (process_identifier h))])))"
  by (simp add: on_write_proc_def write_proc_check_def write_proc_commit_def split: option.split)

context register_world
begin

lemma check_commit_race:
  assumes inv: "inv w" and lt: "snd (sec w idx) < (t1, r1)" "(t1, r1) < (t2, r2)"
  obtains w2 w1 where "write_proc_check E idx t1 r1 w = Some True" and "write_proc_check E idx t2 r2 w = Some True"
    and "write_proc_commit E idx t2 r2 d2 True w = Some w2" and "write_proc_commit E idx t1 r1 d1 True w2 = Some w1"
    and "inv w1" and "sec w1 = (sec w)(idx := (d1, t1, r1))"
proof -
  have m: "op_read_metadata (sectors E) w idx = Some (snd (sec w idx))"
    by (rule read_sec(2) [OF inv])
  have c: "write_proc_check E idx t1 r1 w = Some True" "write_proc_check E idx t2 r2 w = Some True"
    using m lt order.strict_trans [OF lt]
    by (simp_all add: write_proc_check_def split_beta del: less_prod_simp)
  obtain w2 where w2: "op_write (sectors E) idx (d2, t2, r2) w = Some w2" "inv w2" "sec w2 = (sec w)(idx := (d2, t2, r2))"
    by (rule write_sec [OF inv])
  obtain w1 where "op_write (sectors E) idx (d1, t1, r1) w2 = Some w1" "inv w1" "sec w1 = (sec w2)(idx := (d1, t1, r1))"
    by (rule write_sec [OF w2(2)])
  with w2 c show thesis by (intro that [of w2 w1]) (simp_all add: write_proc_commit_def)
qed

end

text \<open>
  C23. A lost update: two registers of a process handle \<open>WriteProc\<close> messages for the same sector with the
  tags \<open>(t1, r1) < (t2, r2)\<close>. When both compare before either writes, and the newer one writes first,
  the sector ends with the older pair, though the newer one is acknowledged.
\<close>

theorem concurrent_write_procs_lose_update:
  assumes "sm_inv root w" and "snd (sector_of w idx) < (t1, r1)" and "(t1, r1) < (t2, r2)"
  shows "\<exists>w2 w1. write_proc_check (impl_env U B root i) idx t1 r1 w = Some True \<and>
    write_proc_check (impl_env U B root j) idx t2 r2 w = Some True \<and>
    write_proc_commit (impl_env U B root j) idx t2 r2 d2 True w = Some w2 \<and>
    write_proc_commit (impl_env U B root i) idx t1 r1 d1 True w2 = Some w1 \<and>
    sm_inv root w1 \<and> sector_of w1 idx = (d1, t1, r1)"
proof -
  have same: "write_proc_check (impl_env U B root j) = write_proc_check (impl_env U B root i)"
    "write_proc_commit (impl_env U B root j) = write_proc_commit (impl_env U B root i)"
    by (intro ext; simp add: write_proc_check_def write_proc_commit_def)+
  show ?thesis unfolding same
    by (rule reg.check_commit_race [where U = U and B = B and root = root and i = i and w = w and idx = idx and
        ?t1.0 = t1 and ?r1.0 = r1 and ?t2.0 = t2 and ?r2.0 = r2 and ?d1.0 = d1 and ?d2.0 = d2])
      (use assms in \<open>auto simp: impl_sec simp del: less_prod_simp, metis fun_upd_same impl_sec\<close>)
qed

theorem concurrent_write_procs_lose_update_witness:
  "\<exists>w2 w1. write_proc_commit demo_env 7 6 1 [2] True (demo_sm, demo_disk) = Some w2 \<and>
    write_proc_commit demo_env 7 5 1 [1] True w2 = Some w1 \<and> sector_of w1 7 = ([1], 5, 1)"
proof -
  have "snd (sector_of (demo_sm, demo_disk) 7) < (5, 1)" "((5 :: u64), (1 :: u8)) < (6, 1)"
    by (simp_all add: demo_sector_of)
  from concurrent_write_procs_lose_update [OF demo_inv this, of u128_uuid demo_bincode 0 0 "[2]" "[1]"]
  show ?thesis by blast
qed

section \<open>Registers do not disturb each other\<close>

context register_world
begin

text \<open>What neither a write of a sector nor a stored state of this register changes is the same after a run.\<close>

lemma handle_message_view:
  fixes reg :: "'cb AtomicRegisterImplementation"
  assumes put: "\<And>k v w. inv w \<Longrightarrow> f (snd (op_put (storage E) k v w)) = f w"
    and wkeep: "\<And>idx s w w'. inv w \<Longrightarrow> op_write (sectors E) idx s w = Some w' \<Longrightarrow> f w' = f w"
    and good: "good False reg w" and order: "set order = UNIV" and run: "handle_message E order msg reg w = Some (reg', w', effs)"
  shows "f w' = f w"
proof -
  have inv: "reg_inv reg" "inv w" using good by (simp_all add: good_def)
  have store: "f (store_state E r w) = f w" for r :: "'cb AtomicRegisterImplementation"
    using put [OF inv(2)] by (simp add: store_state_def)
  show ?thesis
  proof (cases msg)
    case (ClientMessage cmd cb)
    with run store show ?thesis
      by (auto simp: handle_message_def client_command_def Let_def)
  next
    case (SystemMessage cmd)
    then have sys: "system_command E order cmd reg w = Some (reg', w', effs)" using run by (simp add: handle_message_def)
    show ?thesis
    proof (cases "s_content cmd")
      case ReadProc
      with sys inv(2) show ?thesis by (simp add: system_command_def on_read_proc_spec)
    next
      case (WriteProc ts wr d)
      with sys wkeep [OF inv(2)] show ?thesis
        by (auto simp: system_command_def on_write_proc_def Let_def split: option.splits if_splits)
    next
      case (Value ts wr d)
      from inv(1) order show ?thesis
        by (cases rule: on_value_cases [where E = E and h = "s_header cmd" and ts = ts and wr = wr and d = d and w = w])
          (use sys Value store in \<open>auto simp: system_command_def\<close>)
    next
      case Ack
      from inv(1) show ?thesis
        by (cases rule: on_ack_cases [where E = E and h = "s_header cmd" and w = w])
          (use sys Ack store in \<open>auto simp: system_command_def split: if_splits\<close>)
    qed
  qed
qed

lemma run_messages_view:
  assumes put: "\<And>k v w. inv w \<Longrightarrow> f (snd (op_put (storage E) k v w)) = f w"
    and wkeep: "\<And>idx s w w'. inv w \<Longrightarrow> op_write (sectors E) idx s w = Some w' \<Longrightarrow> f w' = f w"
    and "good False reg w" and "\<forall>(order, msg) \<in> set msgs. set order = UNIV" and "run_messages E msgs reg w = Some (reg', w', effs)"
  shows "f w' = f w"
  using assms(3-5)
proof (induction msgs arbitrary: reg w effs)
  case (Cons om msgs)
  obtain order msg where om: "om = (order, msg)" by (cases om)
  then have order: "set order = UNIV" using Cons.prems(2) by simp
  obtain reg1 w1 effs1 where h: "handle_message E order msg reg w = Some (reg1, w1, effs1)" and good: "good False reg1 w1"
    by (rule handle_message_total [OF Cons.prems(1) _ order]) simp_all
  from h om Cons.prems(3) obtain effs2 where "run_messages E msgs reg1 w1 = Some (reg', w', effs2)"
    by (auto split: option.splits)
  from Cons.IH [OF good _ this] Cons.prems(2) handle_message_view [OF put wkeep Cons.prems(1) order h] show ?case by simp
qed simp

end

lemma register_dir_inject: "register_dir root i = register_dir root j \<longleftrightarrow> i = j"
  by (simp add: register_dir_def to_string_inject)

text \<open>The stored state of one register and the runs of another.\<close>

lemma load_state_other:
  assumes "i \<noteq> j" and "reg_inv reg" and "sm_inv root w" and "\<forall>(order, msg) \<in> set msgs. set order = UNIV"
    and "run_messages (impl_env U B root j) msgs reg w = Some (reg', w', effs)"
  shows "load_state (impl_env U B root i) w' = load_state (impl_env U B root i) w"
proof (rule reg.run_messages_view [where f = "load_state (impl_env U B root i)", OF _ _ _ assms(4,5)])
  fix k v w
  assume inv: "sm_inv root w"
  then obtain es where rep: "sm_rep root es (fst w, snd w)" by (auto simp: sm_inv_def)
  obtain r d' where wr: "write_file (register_dir root j) k v (snd w) = (r, d')" by (metis surj_pair)
  have "join (register_dir root i) k' \<noteq> join (register_dir root j) k" for k'
    using assms(1) register_dir_inject [of root i j] by (auto simp: register_dir_def)
  then have "read_file (register_dir root i) k' d' = read_file (register_dir root i) k' (snd w)" for k'
    by (intro read_file_write_other [OF wr sm_repD(3) [OF rep]]) simp_all
  then show "load_state (impl_env U B root i) (snd (op_put (storage (impl_env U B root j)) k v w)) = load_state (impl_env U B root i) w"
    using wr by (simp add: load_state_def impl_env_def impl_storage_def put_def get_def split_beta)
next
  fix idx s w w'
  assume inv: "sm_inv root w" and "op_write (sectors (impl_env U B root j)) idx s w = Some w'"
  then have wr: "sm_write idx s (fst w, snd w) = Some (fst w', snd w')" by (simp add: impl_ops_def)
  from inv obtain es where rep: "sm_rep root es (fst w, snd w)" by (auto simp: sm_inv_def)
  from sm_write_outside [OF wr rep, of "register_dir root i"]
  show "load_state (impl_env U B root i) w' = load_state (impl_env U B root i) w"
    by (simp add: load_state_def impl_env_def impl_storage_def get_def split_beta)
qed (use assms(2,3) in \<open>simp add: reg.good_def\<close>)

end
