(* ===== verification/Process.thy ===== *)
theory Process
  imports Connection Executor_Properties Replicas
begin

text \<open>
  A whole process: how \<^verbatim>\<open>get_commands_executor_and_pending_cmd\<close> (\<^verbatim>\<open>solution/src/run_register_process.rs\<close>)
  and \<^verbatim>\<open>run_register_process\<close> (\<^verbatim>\<open>solution/src/lib.rs\<close>) build it from its configuration and its disk, how
  the requests of a connection become calls of the executor, and what the two do to each other. The
  outer option of a construction is \<open>None\<close> when it does not return, the inner one when it panics.
\<close>

section \<open>Construction\<close>

definition REGISTERS_NUMBER :: nat where
  "REGISTERS_NUMBER = 256"

text \<open>\<open>mkdir\<close> says whether \<^verbatim>\<open>create_dir_all\<close> succeeds on a path.\<close>

definition build_sectors_manager ::
    "(path \<Rightarrow> bool) \<Rightarrow> path \<Rightarrow> disk \<Rightarrow> SectorsManagerImplementation option option" where
  "build_sectors_manager mkdir p d =
     (if mkdir p \<and> mkdir (join p METADATA) then SectorsManagerImplementation_new p d else Some None)"

text \<open>The other constructors under the names of \<^verbatim>\<open>lib.rs\<close>.\<close>

definition build_stable_storage :: "(path \<Rightarrow> bool) \<Rightarrow> path \<Rightarrow> StableStorageImplementation option" where
  [simp]: "build_stable_storage mkdir p = StableStorageImplementation_new mkdir p"

definition build_atomic_register ::
    "('w, 'u) register_env \<Rightarrow> u8 \<Rightarrow> nat \<Rightarrow> 'w \<Rightarrow> ('cb AtomicRegisterImplementation \<times> ClientRegisterCommand option) option" where
  [simp]: "build_atomic_register E ident n w = AtomicRegisterImplementation_new E ident n w"

definition build_register_client ::
    "u8 \<Rightarrow> bytes \<Rightarrow> (string \<times> 16 word) list \<Rightarrow> 'u PendingCommandsManager \<Rightarrow> 'u RegisterClientImplementation" where
  [simp]: "build_register_client ident key locations pm = RegisterClientImplementation_new ident key locations pm"

definition build_commands_executor ::
    "'cb AtomicRegisterImplementation list \<Rightarrow> u64 \<Rightarrow> 'w \<Rightarrow> ('w, 'u, 'cb) exec_state" where
  [simp]: "build_commands_executor regs max_sector_idx w = exec_init regs (unat max_sector_idx) w"

text \<open>The loop over the registers: each has its own storage and shares the sectors manager.\<close>

fun build_registers ::
    "'u uuid_crate \<Rightarrow> bincode_crate \<Rightarrow> (path \<Rightarrow> bool) \<Rightarrow> path \<Rightarrow> u8 \<Rightarrow> nat \<Rightarrow> nat list
     \<Rightarrow> SectorsManagerImplementation \<times> disk
     \<Rightarrow> ('cb AtomicRegisterImplementation list \<times> ClientRegisterCommand list) option" where
  "build_registers U B mkdir dir ident n [] w = Some ([], [])"
| "build_registers U B mkdir dir ident n (i # is) w =
     (case build_stable_storage mkdir (register_dir dir i) of
        None \<Rightarrow> None
      | Some st \<Rightarrow>
          (case build_atomic_register \<lparr>uuid = U, bincode = B, sectors = impl_ops, storage = impl_storage st\<rparr> ident n w of
             None \<Rightarrow> None
           | Some (register, pending_cmd) \<Rightarrow>
               (case build_registers U B mkdir dir ident n is w of
                  None \<Rightarrow> None
                | Some (regs, cmds) \<Rightarrow>
                    Some (register # regs, (case pending_cmd of None \<Rightarrow> [] | Some c \<Rightarrow> [c]) @ cmds))))"

text \<open>The parts of a process.\<close>

record ('u, 'cb) process =
  p_exec :: "(SectorsManagerImplementation \<times> disk, 'u, 'cb) exec_state"
  p_client :: "'u RegisterClientImplementation"

definition get_commands_executor_and_pending_cmd ::
    "'u uuid_crate \<Rightarrow> bincode_crate \<Rightarrow> (path \<Rightarrow> bool) \<Rightarrow> Configuration \<Rightarrow> nat \<Rightarrow> disk
     \<Rightarrow> (('u, 'cb) process \<times> ClientRegisterCommand list) option option" where
  "get_commands_executor_and_pending_cmd U B mkdir config registers_number d =
     (let processes_count = length (tcp_locations (public config));
          ident = self_rank (public config);
          dir = storage_dir (public config);
          rc = build_register_client ident (hmac_system_key config) (tcp_locations (public config))
                 PendingCommandsManager_new
      in case build_sectors_manager mkdir dir d of
           None \<Rightarrow> None
         | Some None \<Rightarrow> Some None
         | Some (Some sm) \<Rightarrow>
             Some (map_option (\<lambda>(regs, cmds).
                 (\<lparr>p_exec = build_commands_executor regs (max_sector (public config)) (sm, d), p_client = rc\<rparr>, cmds))
               (build_registers U B mkdir dir ident processes_count [0..<registers_number] (sm, d))))"

section \<open>run_register_process\<close>

text \<open>
  The two callbacks of client commands: one responds on a connection, with the type byte of the request,
  the other belongs to a write found unfinished at start and only finishes the command.
\<close>

datatype process_callback = Reply nat u8 | Recovered

text \<open>
  The beginning of \<^verbatim>\<open>run_register_process\<close>: the process finds its own address (\<open>binds\<close> says whether the
  address can be bound), builds its parts, and calls \<^verbatim>\<open>execute_client_command\<close> for each unfinished write.
  After that it only serves connections.
\<close>

definition run_register_process ::
    "'u uuid_crate \<Rightarrow> bincode_crate \<Rightarrow> (path \<Rightarrow> bool) \<Rightarrow> bool \<Rightarrow> Configuration \<Rightarrow> disk
     \<Rightarrow> (('u, process_callback) process \<times> ('u, process_callback) action list) option option" where
  "run_register_process U B mkdir binds config d =
     (let ident = unat (self_rank (public config)) in
      if ident = 0 \<or> length (tcp_locations (public config)) < ident \<or> \<not> binds then Some None
      else
        map_option (map_option (\<lambda>(p, cmds).
            (p, map (\<lambda>(t, cmd). ClientCall t cmd Recovered) (enumerate 0 cmds))))
          (get_commands_executor_and_pending_cmd U B mkdir config REGISTERS_NUMBER d))"

text \<open>
  What the requests of connection \<open>c\<close> and the callbacks make of the executor; \<open>t\<close> names the new task.
\<close>

fun request_action :: "nat \<Rightarrow> nat \<Rightarrow> 'u request_effect \<Rightarrow> ('u, process_callback) action" where
  "request_action c t (RunSystem cmd) = SystemCall t cmd"
| "request_action c t (RunClient cmd msg_type) = ClientCall t cmd (Reply c msg_type)"
| "request_action c t (FinishClient rid) = Finish rid"

definition run_callback ::
    "'u uuid_crate \<Rightarrow> hmac_crate \<Rightarrow> bytes \<Rightarrow> process_callback \<Rightarrow> OperationComplete \<Rightarrow> 'u PendingCommandsManager \<Rightarrow> writer
     \<Rightarrow> 'u PendingCommandsManager \<times> writer \<times> 'u request_effect list" where
  "run_callback U H key cb op_complete pm w =
     (case cb of
        Reply c msg_type \<Rightarrow> complete_request U H key msg_type op_complete pm w
      | Recovered \<Rightarrow> (pm, w, [FinishClient (op_request_identifier op_complete)]))"

text \<open>\<^verbatim>\<open>handle_internal_commands\<close> passes the messages of the internal channel on, in order.\<close>

definition handle_internal_commands :: "nat \<Rightarrow> 'u RegisterClientImplementation \<Rightarrow> ('u, process_callback) action list" where
  "handle_internal_commands t rc = map (\<lambda>(t, cmd). SystemCall t cmd) (enumerate t (self_sender rc))"

text \<open>
  The end of \<^verbatim>\<open>run_register_process\<close>: the loop over what \<^verbatim>\<open>accept\<close> returns, connections (what will arrive on
  them and their write half) and errors, which are only logged. Each connection is served by a task
  of its own with the keys and the bound of the configuration.
\<close>

definition server_of :: "Configuration \<Rightarrow> server" where
  "server_of config = \<lparr>system_key = hmac_system_key config, client_key = hmac_client_key config,
     sector_bound = max_sector (public config)\<rparr>"

fun accept_loop ::
    "'u uuid_crate \<Rightarrow> hmac_crate \<Rightarrow> Configuration \<Rightarrow> (chunk list \<times> writer) io list \<Rightarrow> (writer \<times> 'u request_effect list) list" where
  "accept_loop U H config [] = []"
| "accept_loop U H config (Inl e # accepted) = accept_loop U H config accepted"
| "accept_loop U H config (Inr (read_stream, write_stream) # accepted) =
     handle_external_command U H (server_of config) read_stream write_stream # accept_loop U H config accepted"

section \<open>Starting\<close>

text \<open>A stored state from which a register can be built.\<close>

definition stored_ok :: "'u uuid_crate \<Rightarrow> bincode_crate \<Rightarrow> path \<Rightarrow> SectorsManagerImplementation \<times> disk \<Rightarrow> nat \<Rightarrow> bool" where
  "stored_ok U B dir w i \<longleftrightarrow> (let st = load_state (impl_env U B dir i) w in writing st \<longrightarrow> writeval st \<noteq> None)"

text \<open>The unfinished writes on disk, in the order of the registers.\<close>

definition unfinished :: "'u uuid_crate \<Rightarrow> bincode_crate \<Rightarrow> path \<Rightarrow> nat list \<Rightarrow> SectorsManagerImplementation \<times> disk \<Rightarrow> ClientRegisterCommand list" where
  "unfinished U B dir is w = List.map_filter (\<lambda>i.
     let st = load_state (impl_env U B dir i) w
     in if writing st
        then map_option (\<lambda>wv. \<lparr>c_header = wv_header wv, c_content = Write (wv_data wv)\<rparr>) (writeval st) else None) is"

lemma build_registers_ok:
  assumes "\<forall>i \<in> set is. mkdir (register_dir dir i) \<and> stored_ok U B dir w i"
  shows "\<exists>regs :: 'cb AtomicRegisterImplementation list. build_registers U B mkdir dir ident n is w = Some (regs, unfinished U B dir is w) \<and>
    length regs = length is \<and>
    (\<forall>r \<in> set regs. reg_inv r \<and> \<not> reading r \<and> \<not> writing (state r) \<and> self_ident r = ident \<and> processes_count r = n \<and> callback r = None)"
  using assms
proof (induction "is")
  case Nil
  then show ?case by (simp add: unfinished_def map_filter_def)
next
  case (Cons i "is")
  then obtain regs :: "'cb AtomicRegisterImplementation list" where IH: "build_registers U B mkdir dir ident n is w = Some (regs, unfinished U B dir is w)"
    "length regs = length is"
    "\<forall>r \<in> set regs. reg_inv r \<and> \<not> reading r \<and> \<not> writing (state r) \<and> self_ident r = ident \<and> processes_count r = n \<and> callback r = None"
    by auto
  have env: "\<lparr>uuid = U, bincode = B, sectors = impl_ops, storage = impl_storage \<lparr>ss_dir = register_dir dir i\<rparr>\<rparr> = impl_env U B dir i"
    by (simp add: impl_env_def)
  let ?st = "load_state (impl_env U B dir i) w"
  have ok: "mkdir (register_dir dir i)" "writing ?st \<longrightarrow> writeval ?st \<noteq> None"
    using Cons.prems by (simp_all add: stored_ok_def Let_def)
  define pc where "pc = (if writing ?st
    then map_option (\<lambda>wv. \<lparr>c_header = wv_header wv, c_content = Write (wv_data wv)\<rparr>) (writeval ?st) else None)"
  have "\<exists>r :: 'cb AtomicRegisterImplementation. AtomicRegisterImplementation_new (impl_env U B dir i) ident n w = Some (r, pc) \<and>
      reg_inv r \<and> \<not> reading r \<and> \<not> writing (state r) \<and> self_ident r = ident \<and> processes_count r = n \<and> callback r = None"
    using ok(2) by (cases "writing ?st") (auto simp: AtomicRegisterImplementation_new_def reg_inv_def Let_def pc_def)
  then obtain r :: "'cb AtomicRegisterImplementation" where
    r: "AtomicRegisterImplementation_new (impl_env U B dir i) ident n w = Some (r, pc)"
    and inv: "reg_inv r \<and> \<not> reading r \<and> \<not> writing (state r) \<and> self_ident r = ident \<and> processes_count r = n \<and> callback r = None"
    by blast
  have "unfinished U B dir (i # is) w = (case pc of None \<Rightarrow> [] | Some c \<Rightarrow> [c]) @ unfinished U B dir is w"
    by (simp add: unfinished_def pc_def Let_def split: option.split)
  with IH r inv ok(1) env show ?case
    by (simp add: StableStorageImplementation_new_def)
qed

text \<open>The registers of a process that finds no unfinished write: the stored states, and nothing else.\<close>

lemma build_registers_nth:
  assumes "build_registers U B mkdir dir ident n is w = Some (regs, [])" and "k < length is"
  shows "length regs = length is \<and> \<not> writing (load_state (impl_env U B dir (is ! k)) w) \<and>
    regs ! k = \<lparr>self_ident = ident, processes_count = n, readlist = Map.empty, acks = {}, reading = False, readval = None,
      state = load_state (impl_env U B dir (is ! k)) w, callback = None\<rparr>"
  using assms
proof (induction "is" arbitrary: regs k)
  case (Cons i "is")
  have env: "\<lparr>uuid = U, bincode = B, sectors = impl_ops, storage = impl_storage \<lparr>ss_dir = register_dir dir i\<rparr>\<rparr> = impl_env U B dir i"
    by (simp add: impl_env_def)
  from Cons.prems(1) obtain r regs' where r: "AtomicRegisterImplementation_new (impl_env U B dir i) ident n w = Some (r, None)"
    "build_registers U B mkdir dir ident n is w = Some (regs', [])" "regs = r # regs'"
    by (auto simp: StableStorageImplementation_new_def env split: option.splits prod.splits if_splits)
  have first: "\<not> writing (load_state (impl_env U B dir i) w)"
    "r = \<lparr>self_ident = ident, processes_count = n, readlist = Map.empty, acks = {}, reading = False, readval = None,
      state = load_state (impl_env U B dir i) w, callback = None\<rparr>"
    using r(1) by (auto simp: AtomicRegisterImplementation_new_def Let_def split: if_splits option.splits)
  show ?case
  proof (cases k)
    case 0
    have "length regs' = length is"
      using Cons.IH [OF r(2), of 0] r(2) by (cases "is") auto
    with 0 first r(3) show ?thesis by simp
  next
    case (Suc k')
    with Cons.IH [OF r(2), of k'] Cons.prems(2) r(3) show ?thesis by simp
  qed
qed simp

lemma recovered_manager:
  assumes "sm_inv root (sm, d)"
  shows "SectorsManagerImplementation_new root d = Some (Some sm)"
  using assms new_rep by (auto simp: sm_inv_def)


abbreviation demo_config :: Configuration where
  "demo_config \<equiv> \<lparr>hmac_system_key = [1], hmac_client_key = [2], public = \<lparr>storage_dir = [''data''],
     tcp_locations = [(''a'', 1), (''b'', 2), (''c'', 3)], self_rank = 1, max_sector = 10\<rparr>\<rparr>"

lemma demo_load_state_all: "load_state (impl_env u128_uuid demo_bincode [''data''] i) (demo_sm, demo_disk) = empty_state"
proof -
  have "register_dir [''data''] i \<noteq> [''data'', METADATA]" "length (register_dir [''data''] i) = 2"
    by (simp_all add: register_dir_def METADATA_def)
  then show ?thesis
    by (simp add: load_state_def impl_env_def impl_storage_def get_def read_file_def ATOMIC_REGISTER_STATE_KEY_def
        demo_disk_def calm_disk_def register_dir_def METADATA_def)
qed


section \<open>Restarting again\<close>


abbreviation old_write :: ClientRegisterCommand where
  "old_write \<equiv> \<lparr>c_header = \<lparr>request_identifier = 4, c_sector_idx = 7\<rparr>, c_content = Write [1]\<rparr>"

abbreviation new_write :: ClientRegisterCommand where
  "new_write \<equiv> \<lparr>c_header = \<lparr>request_identifier = 5, c_sector_idx = 7\<rparr>, c_content = Write [2]\<rparr>"


end
