(* ===== verification/Quorum_Protocol.thy ===== *)
theory Quorum_Protocol
  imports Atomic_Register
begin

text \<open>
  The abstract protocol that the registers of all processes run together, and its correctness. An
  operation asks the replicas of its sector for their pairs of data and tag, chooses a pair from a
  majority of answers (for a read the highest one, for a write its own data under a greater tag), makes
  the replicas adopt it, and completes when a majority has acknowledged. Messages do not appear: an
  answer or an acknowledgement once given may be used at any later time or never. The main result is that the
  log of invocations and responses is linearizable, sector by sector.
\<close>

section \<open>Linearizability\<close>

text \<open>An operation is named by its process and the request number of the client.\<close>

type_synonym opid = "u8 \<times> u64"

datatype log_event =
    Inv opid SectorIdx ClientRegisterCommandContent
  | Res opid OperationReturn

text \<open>The response to one operation comes before the invocation of another.\<close>

definition precedes :: "log_event list \<Rightarrow> opid \<Rightarrow> opid \<Rightarrow> bool" where
  "precedes L x y \<longleftrightarrow> (\<exists>i j r idx c. i < j \<and> j < length L \<and> L ! i = Res x r \<and> L ! j = Inv y idx c)"

text \<open>
  A sequence of operations is legal for a register with value \<open>d\<close> when each read that has a response in
  the log returned the value of the last write before it.
\<close>

fun legal :: "log_event list \<Rightarrow> SectorVec \<Rightarrow> (opid \<times> ClientRegisterCommandContent) list \<Rightarrow> bool" where
  "legal L d [] = True"
| "legal L d ((x, Read) # xs) = ((\<forall>r. Res x r \<in> set L \<longrightarrow> r = ReadReturn (Some d)) \<and> legal L d xs)"
| "legal L d ((x, Write v) # xs) = ((\<forall>r. Res x r \<in> set L \<longrightarrow> r = WriteReturn) \<and> legal L v xs)"

text \<open>
  The operations of one sector are linearizable: there is a sequence of them, each at most once, that
  contains every operation with a response (and maybe some without), respects the order of operations
  that do not overlap, and is legal for a register.
\<close>

definition linearizable :: "log_event list \<Rightarrow> SectorIdx \<Rightarrow> SectorVec \<Rightarrow> bool" where
  "linearizable L idx d \<longleftrightarrow> (\<exists>lin.
     distinct (map fst lin) \<and>
     (\<forall>(x, c) \<in> set lin. Inv x idx c \<in> set L) \<and>
     (\<forall>x c r. Inv x idx c \<in> set L \<and> Res x r \<in> set L \<longrightarrow> (x, c) \<in> set lin) \<and>
     (\<forall>i j. i < j \<and> j < length lin \<longrightarrow> \<not> precedes L (fst (lin ! j)) (fst (lin ! i))) \<and>
     legal L d lin)"

text \<open>The definition at work: a read after a write returns what was written.\<close>

lemma linearizable_write_read:
  assumes "linearizable [Inv x idx (Write d), Res x r, Inv y idx Read, Res y r'] idx d0" and "x \<noteq> y"
  shows "r' = ReadReturn (Some d)"
proof -
  let ?L = "[Inv x idx (Write d), Res x r, Inv y idx Read, Res y r']"
  obtain lin where lin: "distinct (map fst lin)" "\<forall>(z, c) \<in> set lin. Inv z idx c \<in> set ?L"
    "\<forall>z c r. Inv z idx c \<in> set ?L \<and> Res z r \<in> set ?L \<longrightarrow> (z, c) \<in> set lin"
    "\<forall>i j. i < j \<and> j < length lin \<longrightarrow> \<not> precedes ?L (fst (lin ! j)) (fst (lin ! i))" "legal ?L d0 lin"
    using assms(1) unfolding linearizable_def by blast
  have "(x, Write d) \<in> set lin" "(y, Read) \<in> set lin"
    using lin(3) [rule_format, of x "Write d" r] lin(3) [rule_format, of y Read r'] by simp_all
  moreover have "set lin \<subseteq> {(x, Write d), (y, Read)}" using lin(2) by (auto split: prod.splits)
  ultimately have set: "set lin = {(x, Write d), (y, Read)}" by blast
  have "distinct lin" using lin(1) by (simp add: distinct_map)
  then have "length lin = 2" using set distinct_card [of lin] assms(2) by simp
  then obtain u v where uv: "lin = [u, v]" by (auto simp: numeral_2_eq_2 length_Suc_conv)
  have "precedes ?L x y" unfolding precedes_def
    by (rule exI [of _ 1], rule exI [of _ 2]) simp
  then have "lin \<noteq> [(y, Read), (x, Write d)]" using lin(4) [rule_format, of 0 1] by auto
  then have "lin = [(x, Write d), (y, Read)]" using set uv assms(2) by (auto simp: doubleton_eq_iff)
  with lin(5) show ?thesis by simp
qed

section \<open>The protocol\<close>

type_synonym stamped = "SectorVec \<times> u64 \<times> u8"

text \<open>
  What is known of an operation: its sector and command, the register that handles it and the read identifier of
  its first phase, the length of the log and the completed operations when it was invoked, the pair it
  has chosen, and the majority that acknowledged it.
\<close>

record operation =
  o_sector :: SectorIdx
  o_content :: ClientRegisterCommandContent
  o_handler :: nat
  o_ident :: u64
  o_time :: nat
  o_before :: "opid set"
  o_pair :: "stamped option"
  o_quorum :: "u8 set option"

record protocol =
  a_ops :: "opid \<rightharpoonup> operation"
  a_replica :: "u8 \<Rightarrow> SectorIdx \<Rightarrow> stamped"
  a_answers :: "(opid \<times> u8 \<times> stamped) set"
  a_acks :: "(opid \<times> u8) set"
  a_log :: "log_event list"

definition processes :: "nat \<Rightarrow> u8 set" where
  "processes n = {p. 1 \<le> unat p \<and> unat p \<le> n}"

definition majority :: "nat \<Rightarrow> u8 set \<Rightarrow> bool" where
  "majority n Q \<longleftrightarrow> Q \<subseteq> processes n \<and> n < 2 * card Q"

text \<open>The pair an operation propagates when \<open>(d, t, r)\<close> is the highest answer, and the result it reports.\<close>

definition chosen_pair :: "opid \<Rightarrow> ClientRegisterCommandContent \<Rightarrow> stamped \<Rightarrow> stamped" where
  "chosen_pair x c v = (case c of Read \<Rightarrow> v | Write d \<Rightarrow> (d, fst (snd v) + 1, fst x))"

definition result_of :: "ClientRegisterCommandContent \<Rightarrow> stamped \<Rightarrow> OperationReturn" where
  "result_of c v = (case c of Read \<Rightarrow> ReadReturn (Some (fst v)) | Write d \<Rightarrow> WriteReturn)"

definition completed :: "protocol \<Rightarrow> opid set" where
  "completed a = {x. \<exists>b. a_ops a x = Some b \<and> o_quorum b \<noteq> None}"

inductive a_step :: "nat \<Rightarrow> protocol \<Rightarrow> protocol \<Rightarrow> bool" for n where
  invoke: "a_ops a x = None \<Longrightarrow>
    (c \<noteq> Read \<longrightarrow> (\<forall>y b. a_ops a y = Some b \<and> fst y = fst x \<and> o_sector b = idx \<and> o_content b \<noteq> Read \<longrightarrow> y \<in> completed a)) \<Longrightarrow>
    a_step n a (a\<lparr>a_ops := (a_ops a)(x \<mapsto> \<lparr>o_sector = idx, o_content = c, o_handler = i, o_ident = k,
        o_time = length (a_log a), o_before = completed a, o_pair = None, o_quorum = None\<rparr>),
      a_log := a_log a @ [Inv x idx c]\<rparr>)"
| answer: "a_ops a x = Some b \<Longrightarrow> q \<in> processes n \<Longrightarrow>
    a_step n a (a\<lparr>a_answers := insert (x, q, a_replica a q (o_sector b)) (a_answers a)\<rparr>)"
| choose: "a_ops a x = Some b \<Longrightarrow> o_pair b = None \<Longrightarrow> majority n Q \<Longrightarrow>
    (\<forall>q \<in> Q. \<exists>w. (x, q, w) \<in> a_answers a \<and> snd w \<le> snd v) \<Longrightarrow> q \<in> Q \<Longrightarrow> (x, q, v) \<in> a_answers a \<Longrightarrow>
    (o_content b \<noteq> Read \<longrightarrow> fst (snd v) < fst (snd v) + 1) \<Longrightarrow>
    a_step n a (a\<lparr>a_ops := (a_ops a)(x \<mapsto> b\<lparr>o_pair := Some (chosen_pair x (o_content b) v)\<rparr>)\<rparr>)"
| adopt: "a_ops a x = Some b \<Longrightarrow> o_pair b = Some v \<Longrightarrow> q \<in> processes n \<Longrightarrow>
    a_step n a (a\<lparr>a_replica := (a_replica a)(q := (a_replica a q)(o_sector b := newer v (a_replica a q (o_sector b)))),
      a_acks := insert (x, q) (a_acks a)\<rparr>)"
| complete: "a_ops a x = Some b \<Longrightarrow> o_pair b = Some v \<Longrightarrow> o_quorum b = None \<Longrightarrow> majority n Q \<Longrightarrow>
    (\<forall>q \<in> Q. (x, q) \<in> a_acks a) \<Longrightarrow>
    a_step n a (a\<lparr>a_ops := (a_ops a)(x \<mapsto> b\<lparr>o_quorum := Some Q\<rparr>),
      a_log := a_log a @ [Res x (result_of (o_content b) v)]\<rparr>)"

definition a_start :: "(SectorIdx \<Rightarrow> stamped) \<Rightarrow> protocol" where
  "a_start v0 = \<lparr>a_ops = Map.empty, a_replica = (\<lambda>_. v0), a_answers = {}, a_acks = {}, a_log = []\<rparr>"

text \<open>Operations are pairs that are never taken apart.\<close>

declare split_paired_All [simp del] split_paired_Ex [simp del]

section \<open>Invariant: where pairs come from\<close>

text \<open>A pair of a sector is the initial one or was chosen by a write.\<close>

definition known :: "(SectorIdx \<Rightarrow> stamped) \<Rightarrow> protocol \<Rightarrow> SectorIdx \<Rightarrow> stamped \<Rightarrow> bool" where
  "known v0 a idx v \<longleftrightarrow> v = v0 idx \<or>
     (\<exists>x b. a_ops a x = Some b \<and> o_sector b = idx \<and> o_content b \<noteq> Read \<and> o_pair b = Some v)"

definition answers_ok :: "nat \<Rightarrow> (SectorIdx \<Rightarrow> stamped) \<Rightarrow> protocol \<Rightarrow> bool" where
  "answers_ok n v0 a \<longleftrightarrow> (\<forall>x q v. (x, q, v) \<in> a_answers a \<longrightarrow> (\<exists>b. a_ops a x = Some b \<and>
     known v0 a (o_sector b) v \<and> snd v \<le> snd (a_replica a q (o_sector b))))"

definition acks_ok :: "protocol \<Rightarrow> bool" where
  "acks_ok a \<longleftrightarrow> (\<forall>x q. (x, q) \<in> a_acks a \<longrightarrow> (\<exists>b v. a_ops a x = Some b \<and> o_pair b = Some v \<and>
     snd v \<le> snd (a_replica a q (o_sector b))))"

definition replicas_ok :: "(SectorIdx \<Rightarrow> stamped) \<Rightarrow> protocol \<Rightarrow> bool" where
  "replicas_ok v0 a \<longleftrightarrow> (\<forall>q idx. known v0 a idx (a_replica a q idx))"

text \<open>Writes propagate their own data, with their process as rank and a tag above the initial one.\<close>

definition pairs_ok :: "(SectorIdx \<Rightarrow> stamped) \<Rightarrow> protocol \<Rightarrow> bool" where
  "pairs_ok v0 a \<longleftrightarrow> (\<forall>x b v. a_ops a x = Some b \<and> o_pair b = Some v \<longrightarrow> known v0 a (o_sector b) v \<and>
     (\<forall>d. o_content b = Write d \<longrightarrow> fst v = d \<and> snd (snd v) = fst x \<and> snd (v0 (o_sector b)) < snd v))"

definition quorums_ok :: "nat \<Rightarrow> protocol \<Rightarrow> bool" where
  "quorums_ok n a \<longleftrightarrow> (\<forall>x b Q. a_ops a x = Some b \<and> o_quorum b = Some Q \<longrightarrow> majority n Q \<and> o_pair b \<noteq> None \<and>
     (\<forall>q \<in> Q. (x, q) \<in> a_acks a))"

definition data_inv :: "nat \<Rightarrow> (SectorIdx \<Rightarrow> stamped) \<Rightarrow> protocol \<Rightarrow> bool" where
  "data_inv n v0 a \<longleftrightarrow> answers_ok n v0 a \<and> acks_ok a \<and> replicas_ok v0 a \<and> pairs_ok v0 a \<and> quorums_ok n a"

text \<open>Updates that keep what has been chosen.\<close>

definition extends :: "protocol \<Rightarrow> protocol \<Rightarrow> bool" where
  "extends a a' \<longleftrightarrow> (\<forall>x b. a_ops a x = Some b \<longrightarrow> (\<exists>b'. a_ops a' x = Some b' \<and>
     o_sector b' = o_sector b \<and> o_content b' = o_content b \<and> (o_pair b \<noteq> None \<longrightarrow> o_pair b' = o_pair b)))"

lemma extends_known: "extends a a' \<Longrightarrow> known v0 a idx v \<Longrightarrow> known v0 a' idx v"
  unfolding extends_def known_def by (metis option.distinct(1))

lemma extends_keeps:
  assumes "extends a a'" and "a_replica a' = a_replica a"
  shows "answers_ok n v0 a \<Longrightarrow> a_answers a' = a_answers a \<Longrightarrow> answers_ok n v0 a'"
    and "acks_ok a \<Longrightarrow> a_acks a' = a_acks a \<Longrightarrow> acks_ok a'" and "replicas_ok v0 a \<Longrightarrow> replicas_ok v0 a'"
proof -
  assume "answers_ok n v0 a" "a_answers a' = a_answers a"
  then show "answers_ok n v0 a'"
    using assms extends_known [OF assms(1)] unfolding answers_ok_def extends_def by metis
next
  assume "acks_ok a" "a_acks a' = a_acks a"
  then show "acks_ok a'"
    using assms unfolding acks_ok_def extends_def by (metis option.distinct(1))
next
  assume "replicas_ok v0 a"
  then show "replicas_ok v0 a'"
    using assms extends_known [OF assms(1)] by (simp add: replicas_ok_def)
qed

lemma known_ge:
  assumes "pairs_ok v0 a" and "known v0 a idx v"
  shows "snd (v0 idx) \<le> snd v"
  using assms(2) unfolding known_def
proof (elim disjE exE conjE)
  fix x b
  assume b: "a_ops a x = Some b" "o_sector b = idx" "o_content b \<noteq> Read" "o_pair b = Some v"
  then obtain d where "o_content b = Write d" by (cases "o_content b") auto
  with assms(1) b show ?thesis unfolding pairs_ok_def by (metis order_less_imp_le)
qed simp

lemma newer_ge: "snd old \<le> snd (newer new old)" "snd new \<le> snd (newer new old)"
  by (auto simp: newer_def simp del: less_prod_simp)

lemma next_tag_less: "t < t + 1 \<Longrightarrow> (t, r) < (t + 1, r' :: u8)" for t :: u64
  by simp

lemma a_start_data_inv: "data_inv n v0 (a_start v0)"
  by (simp add: data_inv_def answers_ok_def acks_ok_def replicas_ok_def pairs_ok_def quorums_ok_def a_start_def known_def)

lemma a_step_extends: "a_step n a a' \<Longrightarrow> extends a a'"
  by (erule a_step.cases) (auto simp: extends_def)

lemma extends_pairs:
  assumes "extends a a'" and "pairs_ok v0 a"
    and "\<And>x b' v. a_ops a' x = Some b' \<Longrightarrow> o_pair b' = Some v \<Longrightarrow>
      \<exists>b. a_ops a x = Some b \<and> o_pair b = Some v \<and> o_sector b' = o_sector b \<and> o_content b' = o_content b"
  shows "pairs_ok v0 a'"
  unfolding pairs_ok_def
proof (intro allI impI)
  fix x b' v
  assume "a_ops a' x = Some b' \<and> o_pair b' = Some v"
  then obtain b where "a_ops a x = Some b" "o_pair b = Some v" "o_sector b' = o_sector b" "o_content b' = o_content b"
    using assms(3) by blast
  with assms(2) extends_known [OF assms(1)] show "known v0 a' (o_sector b') v \<and>
     (\<forall>d. o_content b' = Write d \<longrightarrow> fst v = d \<and> snd (snd v) = fst x \<and> snd (v0 (o_sector b')) < snd v)"
    unfolding pairs_ok_def by metis
qed

lemma a_step_data_inv:
  assumes step: "a_step n a a'" and inv: "data_inv n v0 a"
  shows "data_inv n v0 a'"
proof -
  from inv have A: "answers_ok n v0 a" and B: "acks_ok a" and C: "replicas_ok v0 a" and D: "pairs_ok v0 a" and E: "quorums_ok n a"
    by (simp_all add: data_inv_def)
  note ext = a_step_extends [OF step]
  note K = extends_known [OF ext]
  from step show ?thesis
  proof cases
    case (invoke x c idx i k)
    have "quorums_ok n a'" using E invoke(1) unfolding quorums_ok_def by auto
    moreover have "pairs_ok v0 a'"
      by (rule extends_pairs [OF ext D]) (use invoke(1) in \<open>auto split: if_splits\<close>)
    ultimately show ?thesis using A B C extends_keeps [OF ext] invoke(1) by (simp add: data_inv_def)
  next
    case (answer x b q)
    have "known v0 a' = known v0 a" using answer(1) by (simp add: known_def fun_eq_iff)
    moreover have "answers_ok n v0 a'"
      using A C answer calculation unfolding answers_ok_def replicas_ok_def by auto
    moreover have "pairs_ok v0 a'" by (rule extends_pairs [OF ext D]) (use answer(1) in auto)
    moreover have "quorums_ok n a'" using E answer(1) unfolding quorums_ok_def by auto
    ultimately show ?thesis
      using B C extends_keeps [OF ext] answer(1) by (simp add: data_inv_def)
  next
    case (choose x b Q v q)
    have v: "known v0 a (o_sector b) v" using A choose(2,7) unfolding answers_ok_def by fastforce
    have "snd (v0 (o_sector b)) \<le> snd v" by (rule known_ge [OF D v])
    then have above: "o_content b = Write d \<Longrightarrow> snd (v0 (o_sector b)) < snd (chosen_pair x (o_content b) v)" for d
      using choose(8) next_tag_less [of "fst (snd v)" "snd (snd v)" "fst x"]
      by (simp add: chosen_pair_def del: less_prod_simp)
    have mine: "known v0 a' (o_sector b) (chosen_pair x (o_content b) v)"
    proof (cases "o_content b")
      case Read
      with K [OF v] show ?thesis by (simp add: chosen_pair_def)
    next
      case (Write d)
      with choose(1) show ?thesis by (auto simp: known_def)
    qed
    have "pairs_ok v0 a'"
      using D K mine above choose(1) unfolding pairs_ok_def
      by (auto simp: chosen_pair_def simp del: less_prod_simp)
    moreover have "quorums_ok n a'" using E choose(1-3) unfolding quorums_ok_def by auto
    ultimately show ?thesis using A B C extends_keeps [OF ext] choose(1) by (simp add: data_inv_def)
  next
    case (adopt x b v q)
    have K': "known v0 a' = known v0 a" using adopt(1) by (simp add: known_def fun_eq_iff)
    have up: "snd (a_replica a p idx) \<le> snd (a_replica a' p idx)" for p idx
      using adopt(1) newer_ge by simp
    have v: "known v0 a (o_sector b) v" using D adopt(2,3) unfolding pairs_ok_def by blast
    have same: "a_ops a' = a_ops a" "a_answers a' = a_answers a" using adopt(1) by simp_all
    have "answers_ok n v0 a'" using A up unfolding answers_ok_def K' same by (meson order_trans)
    moreover have "acks_ok a'"
      unfolding acks_ok_def
    proof (intro allI impI)
      fix y p
      assume "(y, p) \<in> a_acks a'"
      then consider "(y, p) \<in> a_acks a" | "y = x" "p = q" using adopt(1) by auto
      then show "\<exists>b v. a_ops a' y = Some b \<and> o_pair b = Some v \<and> snd v \<le> snd (a_replica a' p (o_sector b))"
      proof cases
        case 1
        then show ?thesis using B up unfolding acks_ok_def same by (meson order_trans)
      next
        case 2
        then show ?thesis using adopt newer_ge(2) by auto
      qed
    qed
    moreover have "replicas_ok v0 a'" using C v adopt(1) unfolding replicas_ok_def K' by (simp add: newer_def)
    moreover have "pairs_ok v0 a'" by (rule extends_pairs [OF ext D]) (use adopt(1) in auto)
    moreover have "quorums_ok n a'" using E adopt(1) unfolding quorums_ok_def by auto
    ultimately show ?thesis by (simp add: data_inv_def)
  next
    case (complete x b v Q)
    have "quorums_ok n a'" using E complete unfolding quorums_ok_def by auto
    moreover have "pairs_ok v0 a'"
      by (rule extends_pairs [OF ext D]) (use complete(1,2) in \<open>auto split: if_splits\<close>)
    ultimately show ?thesis using A B C extends_keeps [OF ext] complete(1) by (simp add: data_inv_def)
  qed
qed

section \<open>Invariant: operations in order\<close>

text \<open>The majorities of two operations have a process in common.\<close>

lemma card_processes: "card (processes n) \<le> n"
proof -
  have "inj_on unat (processes n)" by (rule inj_onI) (rule unsigned_word_eqI)
  then have "card (processes n) = card (unat ` processes n)" by (simp add: card_image)
  also have "\<dots> \<le> card {1..n}" by (rule card_mono) (auto simp: processes_def)
  finally show ?thesis by simp
qed

lemma majorities_meet:
  assumes "majority n Q" and "majority n Q'"
  shows "\<exists>q. q \<in> Q \<and> q \<in> Q'"
proof (rule ccontr)
  assume "\<not> ?thesis"
  then have "card Q + card Q' = card (Q \<union> Q')" by (intro card_Un_disjoint [symmetric]) auto
  also have "\<dots> \<le> card (processes n)" using assms by (intro card_mono) (auto simp: majority_def)
  also have "\<dots> \<le> n" by (rule card_processes)
  finally show False using assms by (simp add: majority_def)
qed

definition times_ok :: "protocol \<Rightarrow> bool" where
  "times_ok a \<longleftrightarrow> (\<forall>x b. a_ops a x = Some b \<longrightarrow>
     o_time b < length (a_log a) \<and> a_log a ! o_time b = Inv x (o_sector b) (o_content b))"

text \<open>
  What operation \<open>x\<close> owes to an operation \<open>y\<close> that was complete when \<open>x\<close> was invoked: the majority of \<open>y\<close>
  answers with tags at least that of \<open>y\<close>, and \<open>x\<close> chooses such a tag, a write a greater one.
\<close>

definition sees :: "protocol \<Rightarrow> opid \<Rightarrow> operation \<Rightarrow> opid \<Rightarrow> bool" where
  "sees a x b y \<longleftrightarrow> (\<exists>b' v Q. a_ops a y = Some b' \<and> o_pair b' = Some v \<and> o_quorum b' = Some Q \<and>
     o_time b' < o_time b \<and>
     (o_sector b' = o_sector b \<longrightarrow>
        (\<forall>q \<in> Q. \<forall>w. (x, q, w) \<in> a_answers a \<longrightarrow> snd v \<le> snd w) \<and>
        (\<forall>w. o_pair b = Some w \<longrightarrow> snd v \<le> snd w \<and> (o_content b \<noteq> Read \<longrightarrow> snd v < snd w))))"

definition before_ok :: "protocol \<Rightarrow> bool" where
  "before_ok a \<longleftrightarrow> (\<forall>x b. a_ops a x = Some b \<longrightarrow> (\<forall>y \<in> o_before b. sees a x b y))"

text \<open>The writes of one process on one sector do not overlap.\<close>

definition serial_ok :: "protocol \<Rightarrow> bool" where
  "serial_ok a \<longleftrightarrow> (\<forall>x y b b'. a_ops a x = Some b \<and> a_ops a y = Some b' \<and> x \<noteq> y \<and> fst x = fst y \<and>
     o_sector b = o_sector b' \<and> o_content b \<noteq> Read \<and> o_content b' \<noteq> Read \<longrightarrow> x \<in> o_before b' \<or> y \<in> o_before b)"

definition order_inv :: "protocol \<Rightarrow> bool" where
  "order_inv a \<longleftrightarrow> finite (dom (a_ops a)) \<and> times_ok a \<and> before_ok a \<and> serial_ok a"

lemma a_start_order_inv: "order_inv (a_start v0)"
  by (simp add: order_inv_def times_ok_def before_ok_def serial_ok_def a_start_def)

lemma times_ok_append:
  assumes "times_ok a" and "a_log a' = a_log a @ L"
    and "\<And>x b'. a_ops a' x = Some b' \<Longrightarrow>
      (\<exists>b. a_ops a x = Some b \<and> o_time b' = o_time b \<and> o_sector b' = o_sector b \<and> o_content b' = o_content b) \<or>
      (o_time b' = length (a_log a) \<and> L = [Inv x (o_sector b') (o_content b')])"
  shows "times_ok a'"
  unfolding times_ok_def
proof (intro allI impI)
  fix x b'
  assume "a_ops a' x = Some b'"
  from assms(3) [OF this] show "o_time b' < length (a_log a') \<and> a_log a' ! o_time b' = Inv x (o_sector b') (o_content b')"
    using assms(1) unfolding times_ok_def assms(2) by (auto simp: nth_append)
qed

lemma completed_stable:
  assumes "a_step n a a'" and "quorums_ok n a" and "a_ops a y = Some c" and "o_quorum c \<noteq> None"
  shows "a_ops a' y = Some c"
proof -
  have "o_pair c \<noteq> None" using assms(2-4) unfolding quorums_ok_def by blast
  with assms(1,3,4) show ?thesis by (cases rule: a_step.cases) (auto simp: fun_upd_def)
qed

lemma sees_keep:
  assumes "sees a x b y" and "\<And>c. a_ops a y = Some c \<Longrightarrow> o_quorum c \<noteq> None \<Longrightarrow> a_ops a' y = Some c"
    and "o_time b' = o_time b" "o_sector b' = o_sector b" "o_content b' = o_content b" "o_pair b' = o_pair b"
    and "\<And>q w. (x, q, w) \<in> a_answers a' \<Longrightarrow> (x, q, w) \<in> a_answers a"
  shows "sees a' x b' y"
proof -
  from assms(1) obtain c v Q where c: "a_ops a y = Some c" "o_pair c = Some v" "o_quorum c = Some Q" "o_time c < o_time b"
    "o_sector c = o_sector b \<Longrightarrow> (\<forall>q \<in> Q. \<forall>w. (x, q, w) \<in> a_answers a \<longrightarrow> snd v \<le> snd w)"
    "o_sector c = o_sector b \<Longrightarrow> (\<forall>w. o_pair b = Some w \<longrightarrow> snd v \<le> snd w \<and> (o_content b \<noteq> Read \<longrightarrow> snd v < snd w))"
    unfolding sees_def by auto
  have "a_ops a' y = Some c" using assms(2) c(1,3) by simp
  with c assms(3-7) show ?thesis
    unfolding sees_def by (intro exI [of _ c] exI [of _ v] exI [of _ Q]) (auto simp del: less_eq_prod_simp less_prod_simp)
qed

lemma a_step_before_ok:
  assumes step: "a_step n a a'" and data: "data_inv n v0 a" and ord: "order_inv a"
  shows "before_ok a'"
  unfolding before_ok_def
proof (intro allI impI ballI)
  fix x b y
  assume b: "a_ops a' x = Some b" and y: "y \<in> o_before b"
  from data have A: "answers_ok n v0 a" and B: "acks_ok a" and E: "quorums_ok n a"
    by (simp_all add: data_inv_def)
  from ord have T: "times_ok a" and P: "before_ok a" by (simp_all add: order_inv_def)
  note stable = completed_stable [OF step E]
  from step show "sees a' x b y"
  proof cases
    case (invoke z c idx i k)
    show ?thesis
    proof (cases "x = z")
      case True
      then have "y \<in> completed a" and pair: "o_pair b = None" and time: "o_time b = length (a_log a)"
        using invoke(1) b y by auto
      then obtain c Q where c: "a_ops a y = Some c" "o_quorum c = Some Q" unfolding completed_def by auto
      then obtain v where "o_pair c = Some v" "o_time c < length (a_log a)"
        using E T unfolding quorums_ok_def times_ok_def by blast
      moreover have "(x, q, w) \<notin> a_answers a'" for q w
        using A invoke(1,2) True unfolding answers_ok_def by fastforce
      moreover have "a_ops a' y = Some c" by (rule stable) (use c in auto)
      ultimately show ?thesis using c pair time by (simp add: sees_def)
    next
      case False
      then have "a_ops a x = Some b" using b invoke(1) by simp
      with P y have "sees a x b y" unfolding before_ok_def by blast
      then show ?thesis by (rule sees_keep) (use stable invoke(1) in simp_all)
    qed
  next
    case (answer z c q)
    have "a_ops a x = Some b" using b answer(1) by simp
    with P y have old: "sees a x b y" unfolding before_ok_def by blast
    then obtain c' v Q where c': "a_ops a y = Some c'" "o_pair c' = Some v" "o_quorum c' = Some Q" "o_time c' < o_time b"
      "o_sector c' = o_sector b \<Longrightarrow> (\<forall>q \<in> Q. \<forall>w. (x, q, w) \<in> a_answers a \<longrightarrow> snd v \<le> snd w)"
      "o_sector c' = o_sector b \<Longrightarrow> (\<forall>w. o_pair b = Some w \<longrightarrow> snd v \<le> snd w \<and> (o_content b \<noteq> Read \<longrightarrow> snd v < snd w))"
      unfolding sees_def by auto
    have "q \<in> Q \<Longrightarrow> snd v \<le> snd (a_replica a q (o_sector c'))"
      using E B c'(1-3) unfolding quorums_ok_def acks_ok_def by fastforce
    then have "\<forall>p \<in> Q. \<forall>w. (x, p, w) \<in> a_answers a' \<longrightarrow> snd v \<le> snd w" if "o_sector c' = o_sector b"
      using c'(5) [OF that] answer(1,2) \<open>a_ops a x = Some b\<close> that by (auto simp del: less_eq_prod_simp)
    with c' answer(1) show ?thesis
      unfolding sees_def by (intro exI [of _ c'] exI [of _ v] exI [of _ Q]) (auto simp del: less_eq_prod_simp less_prod_simp)
  next
    case (choose z c Q v q)
    show ?thesis
    proof (cases "x = z")
      case True
      then have bc: "b = c\<lparr>o_pair := Some (chosen_pair z (o_content c) v)\<rparr>" and "y \<in> o_before c" using b y choose(1) by auto
      with P choose(2) have "sees a z c y" unfolding before_ok_def by blast
      then obtain c' u Q' where c': "a_ops a y = Some c'" "o_pair c' = Some u" "o_quorum c' = Some Q'" "o_time c' < o_time c"
        "o_sector c' = o_sector c \<Longrightarrow> (\<forall>q \<in> Q'. \<forall>w. (z, q, w) \<in> a_answers a \<longrightarrow> snd u \<le> snd w)"
        unfolding sees_def by auto
      have "snd u \<le> snd v" if same: "o_sector c' = o_sector c"
      proof -
        have "majority n Q'" using E c'(1,3) unfolding quorums_ok_def by blast
        then obtain p where p: "p \<in> Q" "p \<in> Q'" using majorities_meet [OF choose(4)] by blast
        then obtain w where "(z, p, w) \<in> a_answers a" "snd w \<le> snd v" using choose(5) by blast
        with c'(5) [OF same] p(2) show ?thesis by (meson order_trans)
      qed
      moreover have "snd v \<le> snd (chosen_pair z (o_content c) v) \<and>
          (o_content c \<noteq> Read \<longrightarrow> snd v < snd (chosen_pair z (o_content c) v))"
        using choose(8) next_tag_less [of "fst (snd v)" "snd (snd v)" "fst z"]
        by (cases "o_content c") (simp_all add: chosen_pair_def less_imp_le del: less_prod_simp less_eq_prod_simp)
      moreover have "a_ops a' y = Some c'" by (rule stable) (use c' in auto)
      ultimately show ?thesis
        using c' bc choose(1) True unfolding sees_def
        by (intro exI [of _ c'] exI [of _ u] exI [of _ Q'])
          (auto simp del: less_eq_prod_simp less_prod_simp intro: order_trans order_le_less_trans)
    next
      case False
      then have "a_ops a x = Some b" using b choose(1) by simp
      with P y have "sees a x b y" unfolding before_ok_def by blast
      then show ?thesis by (rule sees_keep) (use stable choose(1) in simp_all)
    qed
  next
    case (adopt z c v q)
    then have "a_ops a x = Some b" using b by simp
    with P y have "sees a x b y" unfolding before_ok_def by blast
    then show ?thesis by (rule sees_keep) (use stable adopt(1) in simp_all)
  next
    case (complete z c v Q)
    obtain b0 where b0: "a_ops a x = Some b0" "o_before b = o_before b0" "o_time b = o_time b0" "o_sector b = o_sector b0"
      "o_content b = o_content b0" "o_pair b = o_pair b0"
      using b complete(1,2) by (auto split: if_splits)
    with P y have "sees a x b0 y" unfolding before_ok_def by auto
    then show ?thesis by (rule sees_keep) (use stable complete(1) b0 in simp_all)
  qed
qed

lemma a_step_serial_ok:
  assumes "a_step n a a'" and "serial_ok a"
  shows "serial_ok a'"
  using assms(1)
proof cases
  case (invoke z c idx i k)
  with assms(2) show ?thesis unfolding serial_ok_def by auto
qed (use assms(2) in \<open>auto simp: serial_ok_def\<close>)

lemma a_step_order_inv:
  assumes step: "a_step n a a'" and data: "data_inv n v0 a" and ord: "order_inv a"
  shows "order_inv a'"
proof -
  have "finite (dom (a_ops a'))" using step ord by cases (auto simp: order_inv_def)
  moreover have "times_ok a'"
  proof -
    note app = times_ok_append [where a = a and a' = a']
    have T: "times_ok a" using ord by (simp add: order_inv_def)
    from step show ?thesis
    proof cases
      case (invoke x c idx i k)
      with T show ?thesis by (intro app [of "[Inv x idx c]"]) (auto split: if_splits)
    next
      case (complete x b v Q)
      with T show ?thesis by (intro app [of "[Res x (result_of (o_content b) v)]"]) (auto split: if_splits)
    next
      case (choose x b Q v q)
      with T show ?thesis by (intro app [of "[]"]) (auto split: if_splits)
    qed (use T in \<open>simp_all add: times_ok_def\<close>)
  qed
  ultimately show ?thesis
    using a_step_before_ok [OF assms] a_step_serial_ok [OF step] ord by (simp add: order_inv_def)
qed

section \<open>Invariant: the log\<close>

lemma precedes_snoc:
  "precedes (L @ [e]) x y \<longleftrightarrow> precedes L x y \<or> ((\<exists>r. Res x r \<in> set L) \<and> (\<exists>idx c. e = Inv y idx c))"
proof
  assume "precedes (L @ [e]) x y"
  then obtain i j r idx c where ij: "i < j" "j < length (L @ [e])" "(L @ [e]) ! i = Res x r" "(L @ [e]) ! j = Inv y idx c"
    unfolding precedes_def by blast
  have r: "L ! i = Res x r" "i < length L" using ij by (auto simp: nth_append)
  show "precedes L x y \<or> ((\<exists>r. Res x r \<in> set L) \<and> (\<exists>idx c. e = Inv y idx c))"
  proof (cases "j < length L")
    case True
    with ij have "L ! j = Inv y idx c" by (simp add: nth_append)
    with ij(1) r(1) True have "precedes L x y" unfolding precedes_def by blast
    then show ?thesis ..
  next
    case False
    with ij have "e = Inv y idx c" by (simp add: nth_append)
    with r show ?thesis by (metis nth_mem)
  qed
next
  assume "precedes L x y \<or> ((\<exists>r. Res x r \<in> set L) \<and> (\<exists>idx c. e = Inv y idx c))"
  then show "precedes (L @ [e]) x y"
  proof (elim disjE conjE exE)
    assume "precedes L x y"
    then obtain i j r idx c where "i < j" "j < length L" "L ! i = Res x r" "L ! j = Inv y idx c"
      unfolding precedes_def by blast
    then show ?thesis unfolding precedes_def by (intro exI [of _ i] exI [of _ j]) (auto simp: nth_append)
  next
    fix r idx c
    assume "Res x r \<in> set L" "e = Inv y idx c"
    then obtain i where "i < length L" "L ! i = Res x r" by (auto simp: in_set_conv_nth)
    with \<open>e = Inv y idx c\<close> show ?thesis
      unfolding precedes_def by (intro exI [of _ i] exI [of _ "length L"]) (auto simp: nth_append)
  qed
qed

lemma precedes_invoked: "precedes L x y \<Longrightarrow> \<exists>idx c. Inv y idx c \<in> set L"
  unfolding precedes_def by (metis nth_mem)

definition log_ok :: "protocol \<Rightarrow> bool" where
  "log_ok a \<longleftrightarrow>
     (\<forall>x idx c. Inv x idx c \<in> set (a_log a) \<longrightarrow> (\<exists>b. a_ops a x = Some b \<and> o_sector b = idx \<and> o_content b = c)) \<and>
     (\<forall>x r. Res x r \<in> set (a_log a) \<longrightarrow> (\<exists>b v. a_ops a x = Some b \<and> o_quorum b \<noteq> None \<and> o_pair b = Some v \<and>
        r = result_of (o_content b) v))"

definition real_time_ok :: "protocol \<Rightarrow> bool" where
  "real_time_ok a \<longleftrightarrow> (\<forall>x y b. precedes (a_log a) x y \<and> a_ops a y = Some b \<longrightarrow> x \<in> o_before b)"

definition a_inv :: "nat \<Rightarrow> (SectorIdx \<Rightarrow> stamped) \<Rightarrow> protocol \<Rightarrow> bool" where
  "a_inv n v0 a \<longleftrightarrow> data_inv n v0 a \<and> order_inv a \<and> log_ok a \<and> real_time_ok a"

lemma a_step_log_ok:
  assumes step: "a_step n a a'" and E: "quorums_ok n a" and ok: "log_ok a"
  shows "log_ok a'"
proof -
  have I: "\<exists>b. a_ops a' x = Some b \<and> o_sector b = idx \<and> o_content b = c" if "Inv x idx c \<in> set (a_log a)" for x idx c
    using that ok a_step_extends [OF step] unfolding log_ok_def extends_def by metis
  have R: "\<exists>b v. a_ops a' x = Some b \<and> o_quorum b \<noteq> None \<and> o_pair b = Some v \<and> r = result_of (o_content b) v"
    if "Res x r \<in> set (a_log a)" for x r
    using that ok completed_stable [OF step E] unfolding log_ok_def by metis
  from step show ?thesis
    by cases (use I R in \<open>auto simp: log_ok_def\<close>)
qed

lemma a_step_real_time_ok:
  assumes step: "a_step n a a'" and log: "log_ok a" and ok: "real_time_ok a"
  shows "real_time_ok a'"
  using step
proof cases
  case (invoke z c idx i k)
  have fresh: "\<not> precedes (a_log a) x z" for x
    using precedes_invoked [of "a_log a" x z] log invoke(2) unfolding log_ok_def by fastforce
  have finished: "Res x r \<in> set (a_log a) \<Longrightarrow> x \<in> completed a" for x r
    using log unfolding log_ok_def completed_def by blast
  show ?thesis
    unfolding real_time_ok_def
  proof (intro allI impI)
    fix x y b
    assume "precedes (a_log a') x y \<and> a_ops a' y = Some b"
    then have p: "precedes (a_log a) x y \<or> ((\<exists>r. Res x r \<in> set (a_log a)) \<and> y = z)" and b: "a_ops a' y = Some b"
      using invoke(1) by (auto simp: precedes_snoc)
    show "x \<in> o_before b"
    proof (cases "y = z")
      case True
      then obtain r where "Res x r \<in> set (a_log a)" using p fresh by blast
      then show ?thesis using finished [of x r] True b invoke(1) by auto
    next
      case False
      with p b invoke(1) ok show ?thesis unfolding real_time_ok_def by auto
    qed
  qed
next
  case (complete z b v Q)
  with ok show ?thesis unfolding real_time_ok_def by (auto simp: precedes_snoc split: if_splits)
qed (use ok in \<open>auto simp: real_time_ok_def split: if_splits\<close>)

lemma a_start_inv: "a_inv n v0 (a_start v0)"
  unfolding a_inv_def using a_start_data_inv a_start_order_inv
  by (simp add: log_ok_def real_time_ok_def precedes_def) (simp add: a_start_def)

lemma a_step_inv:
  assumes "a_step n a a'" and "a_inv n v0 a"
  shows "a_inv n v0 a'"
  using assms a_step_data_inv a_step_order_inv a_step_log_ok a_step_real_time_ok
  unfolding a_inv_def data_inv_def by blast

section \<open>The protocol is linearizable\<close>

text \<open>The value of a register after a sequence of operations.\<close>

definition value_after :: "SectorVec \<Rightarrow> (opid \<times> ClientRegisterCommandContent) list \<Rightarrow> SectorVec" where
  "value_after d xs = fold (\<lambda>(x, c) d. case c of Read \<Rightarrow> d | Write v \<Rightarrow> v) xs d"

lemma value_after_simps [simp]:
  "value_after d [] = d" "value_after d ((x, Read) # xs) = value_after d xs"
  "value_after d ((x, Write v) # xs) = value_after v xs"
  by (simp_all add: value_after_def)

lemma legalI:
  assumes "\<And>as x c bs r. lin = as @ (x, c) # bs \<Longrightarrow> Res x r \<in> set L \<Longrightarrow>
    r = (case c of Read \<Rightarrow> ReadReturn (Some (value_after d as)) | Write v \<Rightarrow> WriteReturn)"
  shows "legal L d lin"
  using assms
proof (induction L d lin rule: legal.induct)
  case (2 L d x xs)
  have "r = ReadReturn (Some d)" if "Res x r \<in> set L" for r
    using "2.prems" [of "[]" x Read xs r] that by simp
  moreover have "legal L d xs"
  proof (rule "2.IH")
    fix as y c bs r
    assume "xs = as @ (y, c) # bs" "Res y r \<in> set L"
    with "2.prems" [of "(x, Read) # as" y c bs r]
    show "r = (case c of Read \<Rightarrow> ReadReturn (Some (value_after d as)) | Write v \<Rightarrow> WriteReturn)"
      by (cases c) simp_all
  qed
  ultimately show ?case by simp
next
  case (3 L d x v xs)
  have "r = WriteReturn" if "Res x r \<in> set L" for r
    using "3.prems" [of "[]" x "Write v" xs r] that by simp
  moreover have "legal L v xs"
  proof (rule "3.IH")
    fix as y c bs r
    assume "xs = as @ (y, c) # bs" "Res y r \<in> set L"
    with "3.prems" [of "(x, Write v) # as" y c bs r]
    show "r = (case c of Read \<Rightarrow> ReadReturn (Some (value_after v as)) | Write v \<Rightarrow> WriteReturn)"
      by (cases c) simp_all
  qed
  ultimately show ?case by simp
qed simp

lemma value_after_reads: "(\<And>x c. (x, c) \<in> set xs \<Longrightarrow> c = Read) \<Longrightarrow> value_after d xs = d"
  unfolding value_after_def by (induction xs arbitrary: d) fastforce+

lemma value_after_write:
  assumes "\<And>x c. (x, c) \<in> set ys \<Longrightarrow> c = Read"
  shows "value_after d (xs @ (y, Write v) # ys) = v"
  using value_after_reads [OF assms] by (simp add: value_after_def)

text \<open>The place of an operation: by the tag it propagates, writes before reads, then by the time of invocation.\<close>

definition place :: "protocol \<Rightarrow> opid \<Rightarrow> (u64 \<times> u8) \<times> bool \<times> nat" where
  "place a x = (let b = the (a_ops a x) in (snd (the (o_pair b)), o_content b = Read, o_time b))"

definition placed_ops :: "protocol \<Rightarrow> SectorIdx \<Rightarrow> opid set" where
  "placed_ops a idx = {x. \<exists>b v. a_ops a x = Some b \<and> o_sector b = idx \<and> o_pair b = Some v}"

lemma place_eq: "a_ops a x = Some b \<Longrightarrow> o_pair b = Some v \<Longrightarrow> place a x = (snd v, o_content b = Read, o_time b)"
  by (simp add: place_def)

lemma place_inj: "times_ok a \<Longrightarrow> inj_on (place a) (placed_ops a idx)"
proof (rule inj_onI)
  fix x y
  assume T: "times_ok a" and "x \<in> placed_ops a idx" "y \<in> placed_ops a idx" and eq: "place a x = place a y"
  then obtain b b' where b: "a_ops a x = Some b" "a_ops a y = Some b'" "o_time b = o_time b'"
    by (auto simp: placed_ops_def place_def)
  then have "a_log a ! o_time b = Inv x (o_sector b) (o_content b)" "a_log a ! o_time b = Inv y (o_sector b') (o_content b')"
    using T unfolding times_ok_def by metis+
  then show "x = y" by simp
qed

lemma unique_tags:
  assumes D: "pairs_ok v0 a" and P: "before_ok a" and S: "serial_ok a"
    and x: "a_ops a x = Some b" "o_content b \<noteq> Read" "o_pair b = Some v"
    and y: "a_ops a y = Some b'" "o_content b' \<noteq> Read" "o_pair b' = Some w"
    and eq: "o_sector b = o_sector b'" "snd v = snd w"
  shows "x = y"
proof (rule ccontr)
  assume "x \<noteq> y"
  obtain d d' where "o_content b = Write d" "o_content b' = Write d'"
    using x(2) y(2) by (cases "o_content b"; cases "o_content b'") auto
  then have "fst x = fst y" using D x y eq(2) unfolding pairs_ok_def by metis
  with S x(1,2) y(1,2) eq(1) \<open>x \<noteq> y\<close> have "x \<in> o_before b' \<or> y \<in> o_before b"
    unfolding serial_ok_def by blast
  then have "sees a y b' x \<or> sees a x b y" using P x(1) y(1) unfolding before_ok_def by blast
  then show False
    using x y eq unfolding sees_def by auto
qed

lemma real_time_place:
  assumes P: "before_ok a" and R: "real_time_ok a" and pre: "precedes (a_log a) x y"
    and "x \<in> placed_ops a idx" and "y \<in> placed_ops a idx"
  shows "place a x < place a y"
proof -
  obtain b v where x: "a_ops a x = Some b" "o_sector b = idx" "o_pair b = Some v"
    using assms(4) by (auto simp: placed_ops_def)
  obtain b' w where y: "a_ops a y = Some b'" "o_sector b' = idx" "o_pair b' = Some w"
    using assms(5) by (auto simp: placed_ops_def)
  have "sees a y b' x" using P R pre y(1) unfolding before_ok_def real_time_ok_def by blast
  then have "o_time b < o_time b'" "snd v \<le> snd w" "o_content b' \<noteq> Read \<longrightarrow> snd v < snd w"
    using x y unfolding sees_def by auto
  then show ?thesis
    unfolding place_eq [OF x(1,3)] place_eq [OF y(1,3)]
    by (cases "snd v = snd w") (auto simp: less_le)
qed

lemma sorted_split:
  assumes "sorted (map f xs)" and "distinct xs" and "inj_on f (set xs)" and "xs = as @ x # bs"
  shows "y \<in> set as \<longleftrightarrow> y \<in> set xs \<and> f y < f x"
proof -
  have "f y < f x" if "y \<in> set as" for y
    using assms that by (force simp: sorted_append inj_on_def less_le)
  moreover have "f x \<le> f y" if "y \<in> set (x # bs)" for y
    using assms that by (auto simp: sorted_append)
  ultimately show ?thesis using assms(4) by (auto simp: not_less [symmetric])
qed

text \<open>What a read with a response returned is the value of the last write placed before it.\<close>

lemma read_value:
  assumes inv: "a_inv n v0 a" and ys: "sorted (map (place a) ys)" "distinct ys" "set ys = placed_ops a idx"
    and split: "ys = as @ x # bs" and x: "a_ops a x = Some b" "o_content b = Read" "o_pair b = Some v"
  shows "fst v = value_after (fst (v0 idx)) (map (\<lambda>y. (y, o_content (the (a_ops a y)))) as)"
proof -
  let ?op = "\<lambda>y. (y, o_content (the (a_ops a y)))"
  from inv have D: "pairs_ok v0 a" and P: "before_ok a" and S: "serial_ok a" and T: "times_ok a"
    by (simp_all add: a_inv_def data_inv_def order_inv_def)
  note inj = place_inj [OF T, of idx]
  have as: "y \<in> set as \<longleftrightarrow> y \<in> placed_ops a idx \<and> place a y < place a x" for y
    using sorted_split [OF ys(1,2) _ split, of y] inj ys(3) by simp
  have "x \<in> placed_ops a idx" using split ys(3) by auto
  then have sec: "o_sector b = idx" using x(1) by (auto simp: placed_ops_def)
  have px: "place a x = (snd v, True, o_time b)" using place_eq [OF x(1,3)] x(2) by simp
  have "known v0 a idx v" using D x(1,3) sec unfolding pairs_ok_def by blast
  then consider (initial) "v = v0 idx"
    | (written) y c where "a_ops a y = Some c" "o_sector c = idx" "o_content c \<noteq> Read" "o_pair c = Some v"
    unfolding known_def by blast
  then show ?thesis
  proof cases
    case initial
    have "o_content (the (a_ops a y)) = Read" if y: "y \<in> set as" for y
    proof (rule ccontr)
      assume w: "o_content (the (a_ops a y)) \<noteq> Read"
      obtain c u where c: "a_ops a y = Some c" "o_sector c = idx" "o_pair c = Some u"
        using y as by (auto simp: placed_ops_def)
      then obtain d where "o_content c = Write d" using w by (cases "o_content c") auto
      then have "snd v < snd u" using D c initial unfolding pairs_ok_def by blast
      with y as px place_eq [OF c(1,3)] show False by auto
    qed
    then have "value_after (fst (v0 idx)) (map ?op as) = fst (v0 idx)"
      by (intro value_after_reads) (auto simp del: split_paired_all)
    then show ?thesis using initial by simp
  next
    case (written y c)
    then obtain d where d: "o_content c = Write d" by (cases "o_content c") auto
    have py: "place a y = (snd v, False, o_time c)" using place_eq [OF written(1,4)] written(3) by simp
    have "y \<in> set as" using as written py px by (auto simp: placed_ops_def)
    then obtain as1 as2 where as12: "as = as1 @ y # as2" by (auto simp: in_set_conv_decomp)
    have "o_content (the (a_ops a z)) = Read" if z: "z \<in> set as2" for z
    proof (rule ccontr)
      assume w: "o_content (the (a_ops a z)) \<noteq> Read"
      have zp: "z \<in> placed_ops a idx" "place a z < place a x" using z as12 as [of z] by auto
      then obtain e u where e: "a_ops a z = Some e" "o_sector e = idx" "o_pair e = Some u"
        by (auto simp: placed_ops_def)
      have y_split: "ys = as1 @ y # (as2 @ x # bs)" using split as12 by simp
      have "z \<notin> set as1" "z \<in> set ys" using ys(2) z y_split by auto
      with sorted_split [OF ys(1,2) _ y_split, of z] inj ys(3) have "\<not> place a z < place a y" by simp
      then have "snd v = snd u"
        using zp(2) py px place_eq [OF e(1,3)] w e(1) by (auto simp: less_le)
      then have "z = y"
        using unique_tags [OF D P S e(1) _ e(3) written(1,3,4)] e w written(2) by simp
      with z as12 ys(2) split show False by auto
    qed
    then have "value_after (fst (v0 idx)) (map ?op as) = d"
      using value_after_write [of "map ?op as2" "fst (v0 idx)" "map ?op as1" y d] as12 written(1) d by auto
    then show ?thesis using D written(1,4) d unfolding pairs_ok_def by metis
  qed
qed

lemma a_inv_linearizable:
  assumes inv: "a_inv n v0 a"
  shows "linearizable (a_log a) idx (fst (v0 idx))"
proof -
  let ?op = "\<lambda>y. (y, o_content (the (a_ops a y)))"
  from inv have P: "before_ok a" and T: "times_ok a" and L: "log_ok a" and R: "real_time_ok a" and fin: "finite (dom (a_ops a))"
    by (simp_all add: a_inv_def order_inv_def)
  have "finite (placed_ops a idx)" by (rule finite_subset [OF _ fin]) (auto simp: placed_ops_def)
  then obtain xs where xs: "set xs = placed_ops a idx" "distinct xs" using finite_distinct_list by blast
  define ys where "ys = sort_key (place a) xs"
  have ys: "sorted (map (place a) ys)" "distinct ys" "set ys = placed_ops a idx"
    using xs by (simp_all add: ys_def)
  have mem: "Inv x idx (o_content (the (a_ops a x))) \<in> set (a_log a)" if "x \<in> set ys" for x
    using that T unfolding ys(3) placed_ops_def times_ok_def by (auto intro: nth_mem) (metis nth_mem)
  have "\<not> precedes (a_log a) (ys ! j) (ys ! i)" if ij: "i < j" "j < length ys" for i j
  proof
    assume pre: "precedes (a_log a) (ys ! j) (ys ! i)"
    have "ys ! j \<in> placed_ops a idx" "ys ! i \<in> placed_ops a idx" using ij ys(3) by (metis nth_mem order_less_trans)+
    from real_time_place [OF P R pre this] sorted_nth_mono [OF ys(1), of i j] ij show False by simp
  qed
  moreover have "legal (a_log a) (fst (v0 idx)) (map ?op ys)"
  proof (rule legalI)
    fix as x c bs r
    assume eq: "map ?op ys = as @ (x, c) # bs" and res: "Res x r \<in> set (a_log a)"
    obtain as' bs' where split: "ys = as' @ x # bs'" "as = map ?op as'" and c: "c = o_content (the (a_ops a x))"
      using eq by (auto simp: map_eq_append_conv)
    obtain b v where b: "a_ops a x = Some b" "o_pair b = Some v" "r = result_of (o_content b) v"
      using L res unfolding log_ok_def by blast
    show "r = (case c of Read \<Rightarrow> ReadReturn (Some (value_after (fst (v0 idx)) as)) | Write v \<Rightarrow> WriteReturn)"
      using read_value [OF inv ys split(1) b(1) _ b(2)] b c split(2)
      by (simp add: result_of_def split: ClientRegisterCommandContent.split)
  qed
  moreover have "(x, c) \<in> set (map ?op ys)" if "Inv x idx c \<in> set (a_log a)" "Res x r \<in> set (a_log a)" for x c r
    using that L ys(3) unfolding log_ok_def placed_ops_def by force
  ultimately show ?thesis
    unfolding linearizable_def using ys(2) mem
    by (intro exI [of _ "map ?op ys"]) (auto simp: comp_def)
qed

section \<open>Answers, acknowledgements and the size of timestamps\<close>

definition senders_ok :: "nat \<Rightarrow> protocol \<Rightarrow> bool" where
  "senders_ok n a \<longleftrightarrow> (\<forall>x q v. (x, q, v) \<in> a_answers a \<longrightarrow> q \<in> processes n) \<and> (\<forall>x q. (x, q) \<in> a_acks a \<longrightarrow> q \<in> processes n)"

lemma a_start_senders_ok: "senders_ok n (a_start v0)"
  by (simp add: senders_ok_def a_start_def)

lemma a_step_senders_ok: "a_step n a a' \<Longrightarrow> senders_ok n a \<Longrightarrow> senders_ok n a'"
  by (erule a_step.cases) (auto simp: senders_ok_def)

text \<open>Only writes make timestamps grow, each by one: \<open>m\<close> bounds the initial timestamps.\<close>

definition paired :: "protocol \<Rightarrow> opid set" where
  "paired a = {x. \<exists>b v. a_ops a x = Some b \<and> o_pair b = Some v}"

definition stamps_ok :: "nat \<Rightarrow> protocol \<Rightarrow> bool" where
  "stamps_ok m a \<longleftrightarrow> (\<forall>x b v. a_ops a x = Some b \<and> o_pair b = Some v \<longrightarrow> unat (fst (snd v)) \<le> m + card (paired a))"

lemma paired_log:
  assumes "order_inv a"
  shows "finite (paired a)" and "card (paired a) \<le> length (a_log a)"
proof -
  from assms have T: "times_ok a" and fin: "finite (dom (a_ops a))" by (simp_all add: order_inv_def)
  show "finite (paired a)" by (rule finite_subset [OF _ fin]) (auto simp: paired_def)
  let ?t = "\<lambda>x. o_time (the (a_ops a x))"
  have "inj_on ?t (paired a)"
  proof (rule inj_onI)
    fix x y
    assume "x \<in> paired a" "y \<in> paired a" "?t x = ?t y"
    then obtain b b' where "a_ops a x = Some b" "a_ops a y = Some b'" "o_time b = o_time b'" by (auto simp: paired_def)
    with T have "a_log a ! o_time b = Inv x (o_sector b) (o_content b)" "a_log a ! o_time b = Inv y (o_sector b') (o_content b')"
      unfolding times_ok_def by metis+
    then show "x = y" by simp
  qed
  then have "card (paired a) = card (?t ` paired a)" by (simp add: card_image)
  also have "\<dots> \<le> card {0..<length (a_log a)}"
    using T by (intro card_mono) (auto simp: paired_def times_ok_def)
  finally show "card (paired a) \<le> length (a_log a)" by simp
qed

lemma known_stamp:
  assumes "stamps_ok m a" and "\<And>idx. unat (fst (snd (v0 idx))) \<le> m" and "known v0 a idx v"
  shows "unat (fst (snd v)) \<le> m + card (paired a)"
  using assms(3) unfolding known_def
proof (elim disjE exE conjE)
  assume "v = v0 idx"
  with assms(2) [of idx] show ?thesis by simp
qed (use assms(1) in \<open>auto simp: stamps_ok_def\<close>)

lemma a_step_stamps_ok:
  assumes step: "a_step n a a'" and inv: "a_inv n v0 a" and small: "\<And>idx. unat (fst (snd (v0 idx))) \<le> m"
    and ok: "stamps_ok m a"
  shows "stamps_ok m a'"
  using step
proof cases
  case (choose x b Q v q)
  have fin: "finite (paired a)" using inv paired_log(1) by (simp add: a_inv_def)
  have new: "paired a' = insert x (paired a)" using choose(1,2) by (auto simp: paired_def)
  have "x \<notin> paired a" using choose(2,3) by (simp add: paired_def)
  then have card: "card (paired a') = Suc (card (paired a))" using fin new by simp
  have "known v0 a (o_sector b) v"
    using inv choose(2,7) unfolding a_inv_def data_inv_def answers_ok_def by fastforce
  then have v: "unat (fst (snd v)) \<le> m + card (paired a)" by (rule known_stamp [OF ok small])
  have "unat (fst (snd v) + 1) \<le> Suc (unat (fst (snd v)))"
    by (metis add.commute plus_1_eq_Suc unat_plus_if' unsigned_1 le_refl nat_le_linear le_add_diff_inverse2 diff_le_self)
  with v have "unat (fst (snd (chosen_pair x (o_content b) v))) \<le> m + card (paired a')"
    by (auto simp: chosen_pair_def card split: ClientRegisterCommandContent.split)
  with ok choose(1) card show ?thesis unfolding stamps_ok_def by (auto simp: le_SucI)
next
  case (invoke x c idx i k)
  then have "paired a' = paired a" by (auto simp: paired_def)
  with ok invoke(1) show ?thesis unfolding stamps_ok_def by auto
next
  case (complete x b v Q)
  then have "paired a' = paired a" by (auto simp: paired_def split: if_splits)
  with ok complete(1,2) show ?thesis unfolding stamps_ok_def by auto
qed (use ok in \<open>simp_all add: stamps_ok_def paired_def\<close>)

lemma answer_stamp:
  assumes "a_inv n v0 a" and "stamps_ok m a" and "\<And>idx. unat (fst (snd (v0 idx))) \<le> m"
    and "(x, q, v) \<in> a_answers a"
  shows "unat (fst (snd v)) \<le> m + length (a_log a)"
proof -
  obtain b :: operation where "known v0 a (o_sector b) v"
    using assms(1,4) unfolding a_inv_def data_inv_def answers_ok_def by blast
  with known_stamp [where ?v0.0 = v0, OF assms(2,3)] have "unat (fst (snd v)) \<le> m + card (paired a)" by blast
  moreover have "card (paired a) \<le> length (a_log a)" using assms(1) paired_log(2) by (simp add: a_inv_def)
  ultimately show ?thesis by simp
qed

end
