(* ===== verification/Cluster.thy ===== *)
theory Cluster
  imports Quorum_Protocol Process
begin

text \<open>
  All processes of the system together: the registers of \<^verbatim>\<open>solution/src/atomic_register.rs\<close> on the disks of
  their processes, connected by a network. A step is one run of a handler of one register. Messages are
  never taken from the network, so they may be delayed, reordered, repeated and lost (a message that is
  never delivered). A process that stops is one that makes no more steps; it may be started again from
  its disk, with the messages on their way still in the network. Requests of other processes go
  to any register, answers to the register the executor recorded for their message identifier
  (\<^verbatim>\<open>solution/src/commands_executor.rs\<close>). The system refines the abstract protocol, so its log is linearizable.
\<close>

section \<open>The system\<close>

record 'u cluster_config =
  cl_uuid :: "'u uuid_crate"
  cl_bincode :: bincode_crate
  cl_root :: "u8 \<Rightarrow> path"
  cl_procs :: nat

record 'u cluster =
  c_regs :: "u8 \<Rightarrow> nat \<Rightarrow> unit AtomicRegisterImplementation"
  c_world :: "u8 \<Rightarrow> SectorsManagerImplementation \<times> disk"
  c_net :: "(nat \<times> 'u SystemRegisterCommand) list"
  c_route :: "u8 \<Rightarrow> 'u \<rightharpoonup> nat"
  c_log :: "log_event list"

datatype 'u cluster_event =
    Invoke u8 nat ClientRegisterCommand
  | Deliver u8 nat "u8 list" "'u SystemRegisterCommand"
  | Restart u8

definition cluster_env :: "'u cluster_config \<Rightarrow> u8 \<Rightarrow> nat \<Rightarrow> (SectorsManagerImplementation \<times> disk, 'u) register_env" where
  "cluster_env C p i = impl_env (cl_uuid C) (cl_bincode C) (cl_root C p) i"

text \<open>What the effects of a handler put on the network and report to clients.\<close>

fun posted :: "nat \<Rightarrow> ('u, unit) effect \<Rightarrow> (nat \<times> 'u SystemRegisterCommand) list" where
  "posted n (Broadcast m) = map (\<lambda>t. (t, m)) [1..<Suc n]"
| "posted n (Send m t) = [(t, m)]"
| "posted n (Callback cb op) = []"

fun reported :: "u8 \<Rightarrow> ('u, unit) effect \<Rightarrow> log_event list" where
  "reported p (Callback cb op) = [Res (p, op_request_identifier op) (op_return op)]"
| "reported p _ = []"

definition outcome_of ::
    "'u cluster_config \<Rightarrow> u8 \<Rightarrow> nat \<Rightarrow> (SectorsManagerImplementation \<times> disk, 'u, unit) outcome \<Rightarrow> 'u cluster \<Rightarrow> 'u cluster" where
  "outcome_of C p i out s = (case out of (reg, w, effs) \<Rightarrow>
     s\<lparr>c_regs := (c_regs s)(p := (c_regs s p)(i := reg)), c_world := (c_world s)(p := w),
       c_net := c_net s @ concat (map (posted (cl_procs C)) effs),
       c_log := c_log s @ concat (map (reported p) effs)\<rparr>)"

text \<open>
  When the executor of process \<open>p\<close> may hand a client command to register \<open>i\<close>: the register is idle, the
  request number is new, and for a write every earlier write of the process to the sector has been answered.
  (The executor orders the commands of a sector completely while the process runs.)
\<close>

definition may_invoke :: "u8 \<Rightarrow> nat \<Rightarrow> ClientRegisterCommand \<Rightarrow> 'u cluster \<Rightarrow> bool" where
  "may_invoke p i cmd s \<longleftrightarrow>
     i < REGISTERS_NUMBER \<and> \<not> reading (c_regs s p i) \<and> \<not> writing (state (c_regs s p i)) \<and>
     (\<forall>e \<in> set (c_log s). case e of
        Inv x idx c \<Rightarrow> x \<noteq> (p, request_identifier (c_header cmd)) \<and>
          (fst x = p \<and> idx = c_sector_idx (c_header cmd) \<and> c \<noteq> Read \<and> c_content cmd \<noteq> Read \<longrightarrow>
             (\<exists>e' \<in> set (c_log s). case e' of Res y r \<Rightarrow> y = x | Inv y i c \<Rightarrow> False))
      | Res x r \<Rightarrow> True)"

text \<open>
  Process \<open>p\<close> starts again from its disk (\<^verbatim>\<open>get_commands_executor_and_pending_cmd\<close> in
  \<^verbatim>\<open>solution/src/run_register_process.rs\<close>): the sectors manager and the registers are built anew and nothing else
  of its memory is left. The system is considered up to the first process that finds an unfinished write.
\<close>

definition restarted :: "'u cluster_config \<Rightarrow> u8 \<Rightarrow> 'u cluster \<Rightarrow> 'u cluster option" where
  "restarted C p s =
     (let d = snd (c_world s p) in
      case build_sectors_manager (\<lambda>_. True) (cl_root C p) d of
        Some (Some sm) \<Rightarrow>
          (case build_registers (cl_uuid C) (cl_bincode C) (\<lambda>_. True) (cl_root C p) p (cl_procs C) [0..<REGISTERS_NUMBER] (sm, d) of
             Some (regs, []) \<Rightarrow>
               Some (s\<lparr>c_regs := (c_regs s)(p := \<lambda>i. if i < length regs then regs ! i else c_regs s p i),
                       c_world := (c_world s)(p := (sm, d)), c_route := (c_route s)(p := Map.empty)\<rparr>)
           | _ \<Rightarrow> None)
      | _ \<Rightarrow> None)"

definition cluster_step :: "'u cluster_config \<Rightarrow> 'u cluster_event \<Rightarrow> 'u cluster \<Rightarrow> 'u cluster option" where
  "cluster_step C ev s =
     (case ev of
        Invoke p i cmd \<Rightarrow>
          (if 1 \<le> unat p \<and> unat p \<le> cl_procs C \<and> may_invoke p i cmd s then
             Some (outcome_of C p i (client_command (cluster_env C p i) cmd () (c_regs s p i) (c_world s p))
               (s\<lparr>c_route := (c_route s)(p := (c_route s p)(request_uuid (cl_uuid C) (request_identifier (c_header cmd)) \<mapsto> i)),
                  c_log := c_log s @ [Inv (p, request_identifier (c_header cmd)) (c_sector_idx (c_header cmd)) (c_content cmd)]\<rparr>))
           else None)
      | Deliver p i order cmd \<Rightarrow>
          (if 1 \<le> unat p \<and> unat p \<le> cl_procs C \<and> (unat p, cmd) \<in> set (c_net s) \<and> set order = UNIV \<and> i < REGISTERS_NUMBER \<and>
              (is_request (s_content cmd) \<or> c_route s p (msg_ident (s_header cmd)) = Some i) then
             map_option (\<lambda>out. outcome_of C p i out s)
               (system_command (cluster_env C p i) order cmd (c_regs s p i) (c_world s p))
           else None)
      | Restart p \<Rightarrow> (if 1 \<le> unat p \<and> unat p \<le> cl_procs C then restarted C p s else None))"

fun cluster_run :: "'u cluster_config \<Rightarrow> 'u cluster_event list \<Rightarrow> 'u cluster \<Rightarrow> 'u cluster option" where
  "cluster_run C [] s = Some s"
| "cluster_run C (ev # evs) s = (case cluster_step C ev s of None \<Rightarrow> None | Some s \<Rightarrow> cluster_run C evs s)"

definition cluster_start :: "'u cluster_config \<Rightarrow> (u8 \<Rightarrow> SectorsManagerImplementation \<times> disk) \<Rightarrow> 'u cluster" where
  "cluster_start C W = \<lparr>c_regs = (\<lambda>p i. idle_register p (cl_procs C)), c_world = W, c_net = [],
     c_route = (\<lambda>p. Map.empty), c_log = []\<rparr>"

section \<open>Abstraction\<close>

text \<open>What a message says about the operation it belongs to.\<close>

definition msg_ok :: "'u uuid_crate \<Rightarrow> protocol \<Rightarrow> nat \<Rightarrow> 'u SystemRegisterCommand \<Rightarrow> bool" where
  "msg_ok U a t m \<longleftrightarrow> (\<exists>p rid b. a_ops a (p, rid) = Some b \<and> msg_ident (s_header m) = request_uuid U rid \<and>
     s_sector_idx (s_header m) = o_sector b \<and>
     (case s_content m of
        ReadProc \<Rightarrow> process_identifier (s_header m) = p \<and> read_ident (s_header m) = o_ident b
      | Value ts wr d \<Rightarrow> t = unat p \<and> read_ident (s_header m) = o_ident b \<and>
          ((p, rid), process_identifier (s_header m), (d, ts, wr)) \<in> a_answers a
      | WriteProc ts wr d \<Rightarrow> process_identifier (s_header m) = p \<and> read_ident (s_header m) = o_ident b + 1 \<and>
          o_pair b = Some (d, ts, wr)
      | Ack \<Rightarrow> t = unat p \<and> read_ident (s_header m) = o_ident b + 1 \<and>
          ((p, rid), process_identifier (s_header m)) \<in> a_acks a))"

text \<open>The operations that register \<open>i\<close> of process \<open>p\<close> has handled.\<close>

definition ops_at :: "protocol \<Rightarrow> u8 \<Rightarrow> nat \<Rightarrow> (u64 \<times> operation) set" where
  "ops_at a p i = {(rid, b). a_ops a (p, rid) = Some b \<and> o_handler b = i}"

text \<open>The greatest read identifier an operation has used.\<close>

definition o_last :: "operation \<Rightarrow> nat" where
  "o_last b = (if o_pair b = None then unat (o_ident b) else unat (o_ident b) + 1)"

lemma o_last_ge: "unat (o_ident b) \<le> o_last b"
  by (simp add: o_last_def)

definition idle_ok :: "(u64 \<times> operation) set \<Rightarrow> nat \<Rightarrow> unit AtomicRegisterImplementation \<Rightarrow> bool" where
  "idle_ok A m reg \<longleftrightarrow> \<not> reading reg \<and> \<not> writing (state reg) \<and> unat (st_read_ident (state reg)) \<le> 2 * m \<and>
     (\<forall>(rid, b) \<in> A. o_last b \<le> unat (st_read_ident (state reg)))"

text \<open>The command a busy register works on.\<close>

definition command_at :: "u64 \<Rightarrow> ClientRegisterCommandContent \<Rightarrow> unit AtomicRegisterImplementation \<Rightarrow> bool" where
  "command_at rid c reg \<longleftrightarrow> callback reg = Some () \<and>
     (case c of
        Read \<Rightarrow> reading reg \<and> \<not> writing (state reg) \<and> map_option rv_request_identifier (readval reg) = Some rid
      | Write d \<Rightarrow> \<not> reading reg \<and> writing (state reg) \<and>
          map_option (\<lambda>wv. (request_identifier (wv_header wv), wv_data wv)) (writeval (state reg)) = Some (rid, d))"

definition query_ok :: "(opid \<times> u8 \<times> stamped) set \<Rightarrow> nat \<Rightarrow> opid \<Rightarrow> operation \<Rightarrow> unit AtomicRegisterImplementation \<Rightarrow> bool" where
  "query_ok ans m x b reg \<longleftrightarrow> o_pair b = None \<and> st_read_ident (state reg) = o_ident b \<and>
     unat (o_ident b) < 2 * m \<and>
     (\<forall>q ts wr d. readlist reg q = Some (ts, wr, d) \<longrightarrow> (x, q, (d, ts, wr)) \<in> ans)"

definition propagate_ok :: "(opid \<times> u8) set \<Rightarrow> nat \<Rightarrow> opid \<Rightarrow> operation \<Rightarrow> unit AtomicRegisterImplementation \<Rightarrow> bool" where
  "propagate_ok ak m x b reg \<longleftrightarrow> (\<exists>v. o_pair b = Some v \<and> st_read_ident (state reg) = o_ident b + 1 \<and>
     unat (o_ident b) < 2 * m \<and> (\<forall>q \<in> acks reg. (x, q) \<in> ak) \<and>
     (reading reg \<longrightarrow> map_option rv_data (readval reg) = Some (fst v)))"

definition busy_ok :: "protocol \<Rightarrow> u8 \<Rightarrow> nat \<Rightarrow> unit AtomicRegisterImplementation \<Rightarrow> bool" where
  "busy_ok a p i reg \<longleftrightarrow> (\<exists>rid b. (rid, b) \<in> ops_at a p i \<and> o_quorum b = None \<and> command_at rid (o_content b) reg \<and>
     (\<forall>(rid', b') \<in> ops_at a p i. rid' \<noteq> rid \<longrightarrow> o_last b' < unat (o_ident b)) \<and>
     (query_ok (a_answers a) (length (a_log a)) (p, rid) b reg \<or>
      propagate_ok (a_acks a) (length (a_log a)) (p, rid) b reg))"

definition reg_ok :: "nat \<Rightarrow> protocol \<Rightarrow> u8 \<Rightarrow> nat \<Rightarrow> unit AtomicRegisterImplementation \<Rightarrow> bool" where
  "reg_ok n a p i reg \<longleftrightarrow> reg_inv reg \<and> self_ident reg = p \<and> processes_count reg = n \<and>
     (idle_ok (ops_at a p i) (length (a_log a)) reg \<or> busy_ok a p i reg)"

definition refines :: "'u cluster_config \<Rightarrow> 'u cluster \<Rightarrow> protocol \<Rightarrow> bool" where
  "refines C s a \<longleftrightarrow> a_log a = c_log s \<and>
     (\<forall>p \<in> processes (cl_procs C). sm_inv (cl_root C p) (c_world s p) \<and> a_replica a p = sector_of (c_world s p) \<and>
        (\<forall>i. reg_ok (cl_procs C) a p i (c_regs s p i))) \<and>
     (\<forall>(t, m) \<in> set (c_net s). msg_ok (cl_uuid C) a t m) \<and>
     (\<forall>p rid b. a_ops a (p, rid) = Some b \<longrightarrow> p \<in> processes (cl_procs C) \<and>
        (\<forall>i. c_route s p (request_uuid (cl_uuid C) rid) = Some i \<longrightarrow> o_handler b = i))"

section \<open>What protocol steps keep\<close>

definition grows :: "protocol \<Rightarrow> protocol \<Rightarrow> bool" where
  "grows a a' \<longleftrightarrow> a_answers a \<subseteq> a_answers a' \<and> a_acks a \<subseteq> a_acks a' \<and> length (a_log a) \<le> length (a_log a') \<and>
     (\<forall>x b. a_ops a x = Some b \<longrightarrow> (\<exists>b'. a_ops a' x = Some b' \<and> o_sector b' = o_sector b \<and> o_ident b' = o_ident b \<and>
        o_handler b' = o_handler b \<and> (o_pair b \<noteq> None \<longrightarrow> o_pair b' = o_pair b)))"

lemma grows_refl [simp]: "grows a a"
  by (simp add: grows_def)

lemma a_step_grows: "a_step n a a' \<Longrightarrow> grows a a'"
  by (erule a_step.cases) (auto simp: grows_def)

lemma msg_ok_grows:
  assumes "msg_ok U a t m" and "grows a a'"
  shows "msg_ok U a' t m"
proof -
  from assms(1) obtain p rid b where b: "a_ops a (p, rid) = Some b" "msg_ident (s_header m) = request_uuid U rid"
    "s_sector_idx (s_header m) = o_sector b" and m: "(case s_content m of
        ReadProc \<Rightarrow> process_identifier (s_header m) = p \<and> read_ident (s_header m) = o_ident b
      | Value ts wr d \<Rightarrow> t = unat p \<and> read_ident (s_header m) = o_ident b \<and>
          ((p, rid), process_identifier (s_header m), (d, ts, wr)) \<in> a_answers a
      | WriteProc ts wr d \<Rightarrow> process_identifier (s_header m) = p \<and> read_ident (s_header m) = o_ident b + 1 \<and>
          o_pair b = Some (d, ts, wr)
      | Ack \<Rightarrow> t = unat p \<and> read_ident (s_header m) = o_ident b + 1 \<and>
          ((p, rid), process_identifier (s_header m)) \<in> a_acks a)"
    unfolding msg_ok_def by blast
  obtain b' where b': "a_ops a' (p, rid) = Some b'" "o_sector b' = o_sector b" "o_ident b' = o_ident b"
    "o_pair b \<noteq> None \<longrightarrow> o_pair b' = o_pair b"
    using assms(2) b(1) unfolding grows_def by blast
  have sub: "a_answers a \<subseteq> a_answers a'" "a_acks a \<subseteq> a_acks a'" using assms(2) by (simp_all add: grows_def)
  show ?thesis
    unfolding msg_ok_def using b b' m sub
    by (intro exI [of _ p] exI [of _ rid] exI [of _ b']) (auto split: SystemRegisterCommandContent.splits)
qed

lemma reg_ok_grows:
  assumes ok: "reg_ok n a p i reg" and g: "grows a a'" and same: "ops_at a' p i = ops_at a p i"
  shows "reg_ok n a' p i reg"
proof -
  have sub: "a_answers a \<subseteq> a_answers a'" "a_acks a \<subseteq> a_acks a'" "length (a_log a) \<le> length (a_log a')"
    using g by (simp_all add: grows_def)
  have "idle_ok (ops_at a p i) (length (a_log a')) reg" if "idle_ok (ops_at a p i) (length (a_log a)) reg"
    using that sub(3) by (auto simp: idle_ok_def)
  moreover have "query_ok (a_answers a') (length (a_log a')) x b reg" if "query_ok (a_answers a) (length (a_log a)) x b reg" for x b
    using that sub by (auto simp: query_ok_def)
  moreover have "propagate_ok (a_acks a') (length (a_log a')) x b reg"
    if "propagate_ok (a_acks a) (length (a_log a)) x b reg" for x b
    using that sub unfolding propagate_ok_def by (meson le_less_trans less_le_trans mult_le_mono2 subsetD)
  ultimately show ?thesis using ok unfolding reg_ok_def busy_ok_def same by blast
qed

text \<open>One register of one process makes a step.\<close>

lemma refines_outcome:
  assumes R: "refines C s a" and p: "p \<in> processes (cl_procs C)" and g: "grows a a'"
    and w: "sm_inv (cl_root C p) w'" "a_replica a' = (a_replica a)(p := sector_of w')"
    and log: "a_log a' = L @ concat (map (reported p) effs)"
    and reg: "reg_ok (cl_procs C) a' p i reg'"
    and other: "\<And>p' i'. (p', i') \<noteq> (p, i) \<Longrightarrow> ops_at a' p' i' = ops_at a p' i'"
    and msgs: "\<And>e t m. e \<in> set effs \<Longrightarrow> (t, m) \<in> set (posted (cl_procs C) e) \<Longrightarrow> msg_ok (cl_uuid C) a' t m"
    and routes: "\<And>q rid b. a_ops a' (q, rid) = Some b \<Longrightarrow> q \<in> processes (cl_procs C) \<and>
      (\<forall>i. rt q (request_uuid (cl_uuid C) rid) = Some i \<longrightarrow> o_handler b = i)"
  shows "refines C (outcome_of C p i (reg', w', effs) (s\<lparr>c_route := rt, c_log := L\<rparr>)) a'"
proof -
  let ?s = "outcome_of C p i (reg', w', effs) (s\<lparr>c_route := rt, c_log := L\<rparr>)"
  have "sm_inv (cl_root C q) (c_world ?s q) \<and> a_replica a' q = sector_of (c_world ?s q) \<and>
      (\<forall>j. reg_ok (cl_procs C) a' q j (c_regs ?s q j))" if q: "q \<in> processes (cl_procs C)" for q
  proof -
    have old: "sm_inv (cl_root C q) (c_world s q)" "a_replica a q = sector_of (c_world s q)"
      "\<And>j. reg_ok (cl_procs C) a q j (c_regs s q j)"
      using R q unfolding refines_def by blast+
    have "reg_ok (cl_procs C) a' q j (c_regs ?s q j)" for j
    proof (cases "(q, j) = (p, i)")
      case True
      with reg show ?thesis by (simp add: outcome_of_def)
    next
      case False
      then have "c_regs ?s q j = c_regs s q j" by (auto simp: outcome_of_def)
      with reg_ok_grows [OF old(3) g other [OF False]] show ?thesis by simp
    qed
    with old w show ?thesis by (auto simp: outcome_of_def)
  qed
  moreover have "msg_ok (cl_uuid C) a' t m" if "(t, m) \<in> set (c_net ?s)" for t m
  proof -
    from that consider "(t, m) \<in> set (c_net s)" | e where "e \<in> set effs" "(t, m) \<in> set (posted (cl_procs C) e)"
      by (auto simp: outcome_of_def)
    then show ?thesis
    proof cases
      case 1
      then have "msg_ok (cl_uuid C) a t m" using R unfolding refines_def by blast
      then show ?thesis using g by (rule msg_ok_grows)
    qed (rule msgs)
  qed
  moreover have "c_route ?s = rt" "c_log ?s = a_log a'" using log by (simp_all add: outcome_of_def)
  ultimately show ?thesis using routes unfolding refines_def by auto
qed

section \<open>Requests are answered as the protocol answers\<close>

lemma refines_at:
  assumes "refines C s a" and "p \<in> processes (cl_procs C)"
  shows "sm_inv (cl_root C p) (c_world s p)" and "a_replica a p = sector_of (c_world s p)"
    and "reg_ok (cl_procs C) a p i (c_regs s p i)"
  using assms unfolding refines_def by blast+

lemma refines_msg: "refines C s a \<Longrightarrow> (t, m) \<in> set (c_net s) \<Longrightarrow> msg_ok (cl_uuid C) a t m"
  unfolding refines_def by blast

lemma refines_route:
  "refines C s a \<Longrightarrow> a_ops a (p, rid) = Some b \<Longrightarrow> p \<in> processes (cl_procs C) \<and> (\<forall>i. c_route s p (request_uuid (cl_uuid C) rid) = Some i \<longrightarrow> o_handler b = i)"
  unfolding refines_def by blast

lemma impl_sec_eq: "sectors_manager_contract.sec impl_ops = sector_of"
  by (intro ext) (rule impl_sec)

lemma write_proc_sector:
  assumes "sm_inv root w"
  obtains w' where "on_write_proc (impl_env U B root i) h ts wr d reg w = Some (reg, w',
      [Send \<lparr>s_header = SystemCommandHeader_new (self_ident reg) (msg_ident h) (read_ident h) (s_sector_idx h),
             s_content = Ack\<rparr> (unat (process_identifier h))])"
    and "sm_inv root w'" and "sector_of w' = (sector_of w)(s_sector_idx h := newer (d, ts, wr) (sector_of w (s_sector_idx h)))"
  by (rule reg.on_write_proc_spec [OF assms, of U B i h ts wr d reg]) (simp add: impl_sec_eq)

lemma deliver_read_proc:
  assumes R: "refines C s a" and p: "p \<in> processes (cl_procs C)" and m: "(unat p, m) \<in> set (c_net s)" "s_content m = ReadProc"
  shows "\<exists>a' out. system_command (cluster_env C p i) order m (c_regs s p i) (c_world s p) = Some out \<and>
    a_step (cl_procs C) a a' \<and> refines C (outcome_of C p i out s) a'"
proof -
  let ?h = "s_header m" and ?w = "c_world s p"
  note at = refines_at [OF R p]
  from refines_msg [OF R m(1)] m(2) obtain rid b where b: "a_ops a (process_identifier ?h, rid) = Some b"
    "msg_ident ?h = request_uuid (cl_uuid C) rid" "s_sector_idx ?h = o_sector b" "read_ident ?h = o_ident b"
    by (auto simp: msg_ok_def)
  let ?v = "sector_of ?w (o_sector b)" and ?x = "(process_identifier ?h, rid)"
  let ?a = "a\<lparr>a_answers := insert (?x, p, ?v) (a_answers a)\<rparr>"
  let ?e = "Send \<lparr>s_header = SystemCommandHeader_new p (msg_ident ?h) (read_ident ?h) (s_sector_idx ?h),
      s_content = Value (fst (snd ?v)) (snd (snd ?v)) (fst ?v)\<rparr> (unat (process_identifier ?h)) :: ('a, unit) effect"
  have step: "a_step (cl_procs C) a ?a"
    using a_step.answer [OF b(1) p] at(2) by simp
  have run: "system_command (cluster_env C p i) order m (c_regs s p i) ?w = Some (c_regs s p i, ?w, [?e])"
    using reg.on_read_proc_spec [OF at(1), of "cl_uuid C" "cl_bincode C" i ?h "c_regs s p i"] at(3) [of i] m(2) b(3)
    by (simp add: system_command_def cluster_env_def impl_sec reg_ok_def)
  have msg: "msg_ok (cl_uuid C) ?a (unat (process_identifier ?h))
      \<lparr>s_header = SystemCommandHeader_new p (msg_ident ?h) (read_ident ?h) (s_sector_idx ?h),
       s_content = Value (fst (snd ?v)) (snd (snd ?v)) (fst ?v)\<rparr>"
    using b unfolding msg_ok_def
    by (intro exI [of _ "process_identifier ?h"] exI [of _ rid] exI [of _ b]) (simp add: SystemCommandHeader_new_def)
  have "refines C (outcome_of C p i (c_regs s p i, ?w, [?e]) (s\<lparr>c_route := c_route s, c_log := c_log s\<rparr>)) ?a"
  proof (rule refines_outcome [OF R p a_step_grows [OF step] at(1)])
    show "reg_ok (cl_procs C) ?a p i (c_regs s p i)"
      by (rule reg_ok_grows [OF at(3) a_step_grows [OF step]]) (simp add: ops_at_def)
  qed (use R at(2) msg refines_route [OF R] in \<open>auto simp: refines_def ops_at_def\<close>)
  with run step show ?thesis by auto
qed

lemma deliver_write_proc:
  assumes R: "refines C s a" and p: "p \<in> processes (cl_procs C)" and m: "(unat p, m) \<in> set (c_net s)" "s_content m = WriteProc ts wr d"
  shows "\<exists>a' out. system_command (cluster_env C p i) order m (c_regs s p i) (c_world s p) = Some out \<and>
    a_step (cl_procs C) a a' \<and> refines C (outcome_of C p i out s) a'"
proof -
  let ?h = "s_header m" and ?w = "c_world s p"
  note at = refines_at [OF R p]
  from refines_msg [OF R m(1)] m(2) obtain rid b where b: "a_ops a (process_identifier ?h, rid) = Some b"
    "msg_ident ?h = request_uuid (cl_uuid C) rid" "s_sector_idx ?h = o_sector b" "read_ident ?h = o_ident b + 1"
    "o_pair b = Some (d, ts, wr)"
    by (auto simp: msg_ok_def)
  let ?x = "(process_identifier ?h, rid)"
  let ?a = "a\<lparr>a_replica := (a_replica a)(p := (a_replica a p)(o_sector b := newer (d, ts, wr) (a_replica a p (o_sector b)))),
      a_acks := insert (?x, p) (a_acks a)\<rparr>"
  let ?m = "\<lparr>s_header = SystemCommandHeader_new p (msg_ident ?h) (read_ident ?h) (s_sector_idx ?h), s_content = Ack\<rparr>"
  let ?e = "Send ?m (unat (process_identifier ?h)) :: ('a, unit) effect"
  have step: "a_step (cl_procs C) a ?a" by (rule a_step.adopt [OF b(1,5) p])
  obtain w' where w': "on_write_proc (cluster_env C p i) ?h ts wr d (c_regs s p i) ?w = Some (c_regs s p i, w', [?e])"
    "sm_inv (cl_root C p) w'" "sector_of w' = (sector_of ?w)(o_sector b := newer (d, ts, wr) (sector_of ?w (o_sector b)))"
    by (rule write_proc_sector [OF at(1), where U = "cl_uuid C" and B = "cl_bincode C" and i = i and h = ?h and
        ts = ts and wr = wr and d = d and reg = "c_regs s p i"])
      (use at(3) [of i] b(3) in \<open>simp add: cluster_env_def reg_ok_def\<close>)
  have msg: "msg_ok (cl_uuid C) ?a (unat (process_identifier ?h)) ?m"
    using b unfolding msg_ok_def
    by (intro exI [of _ "process_identifier ?h"] exI [of _ rid] exI [of _ b]) (simp add: SystemCommandHeader_new_def)
  have "refines C (outcome_of C p i (c_regs s p i, w', [?e]) (s\<lparr>c_route := c_route s, c_log := c_log s\<rparr>)) ?a"
  proof (rule refines_outcome [OF R p a_step_grows [OF step] w'(2)])
    show "reg_ok (cl_procs C) ?a p i (c_regs s p i)"
      by (rule reg_ok_grows [OF at(3) a_step_grows [OF step]]) (simp add: ops_at_def)
  qed (use R at(2) w'(3) msg refines_route [OF R] in \<open>auto simp: refines_def ops_at_def\<close>)
  with w'(1) m(2) step show ?thesis by (auto simp: system_command_def)
qed

section \<open>Answers and acknowledgements\<close>

lemma unat_plus_one: "unat k + 1 < 2 ^ 64 \<Longrightarrow> unat (k + 1) = unat k + 1" for k :: u64
  by (simp add: unat_plus_if')

text \<open>A busy register and its operation.\<close>

lemma busyE:
  assumes "reg_ok n a p i reg" and "reading reg \<or> writing (state reg)"
  obtains rid b where "a_ops a (p, rid) = Some b" and "o_handler b = i" and "o_quorum b = None" and "command_at rid (o_content b) reg"
    and "\<And>rid' b'. a_ops a (p, rid') = Some b' \<Longrightarrow> o_handler b' = i \<Longrightarrow> rid' \<noteq> rid \<Longrightarrow>
      o_last b' < unat (o_ident b)"
    and "query_ok (a_answers a) (length (a_log a)) (p, rid) b reg \<or> propagate_ok (a_acks a) (length (a_log a)) (p, rid) b reg"
proof -
  have "busy_ok a p i reg" using assms by (auto simp: reg_ok_def idle_ok_def)
  then show thesis unfolding busy_ok_def ops_at_def using that by blast
qed

lemma busyI:
  assumes "reg_inv reg" "self_ident reg = p" "processes_count reg = n"
    and "a_ops a (p, rid) = Some b" and "o_handler b = i" and "o_quorum b = None" and "command_at rid (o_content b) reg"
    and "\<And>rid' b'. a_ops a (p, rid') = Some b' \<Longrightarrow> o_handler b' = i \<Longrightarrow> rid' \<noteq> rid \<Longrightarrow>
      o_last b' < unat (o_ident b)"
    and "query_ok (a_answers a) (length (a_log a)) (p, rid) b reg \<or> propagate_ok (a_acks a) (length (a_log a)) (p, rid) b reg"
  shows "reg_ok n a p i reg"
  using assms unfolding reg_ok_def busy_ok_def ops_at_def by blast

text \<open>Nothing but the fields of a register that collect answers changes.\<close>

lemma command_at_busy: "command_at rid c reg \<Longrightarrow> reading reg \<or> writing (state reg)"
  by (cases c) (simp_all add: command_at_def)

lemma reg_ok_collect:
  assumes ok: "reg_ok n a p i reg"
    and "self_ident reg' = self_ident reg" "processes_count reg' = processes_count reg" "reading reg' = reading reg"
      "readval reg' = readval reg" "state reg' = state reg" "callback reg' = callback reg"
    and query: "\<And>rid b. a_ops a (p, rid) = Some b \<Longrightarrow> o_handler b = i \<Longrightarrow> query_ok (a_answers a) (length (a_log a)) (p, rid) b reg \<Longrightarrow>
      (\<And>rid' b'. a_ops a (p, rid') = Some b' \<Longrightarrow> o_handler b' = i \<Longrightarrow> rid' \<noteq> rid \<Longrightarrow> o_last b' < unat (o_ident b)) \<Longrightarrow>
      query_ok (a_answers a) (length (a_log a)) (p, rid) b reg'"
    and propagate: "\<And>rid b. a_ops a (p, rid) = Some b \<Longrightarrow> o_handler b = i \<Longrightarrow> propagate_ok (a_acks a) (length (a_log a)) (p, rid) b reg \<Longrightarrow>
      (\<And>rid' b'. a_ops a (p, rid') = Some b' \<Longrightarrow> o_handler b' = i \<Longrightarrow> rid' \<noteq> rid \<Longrightarrow> o_last b' < unat (o_ident b)) \<Longrightarrow>
      propagate_ok (a_acks a) (length (a_log a)) (p, rid) b reg'"
  shows "reg_ok n a p i reg'"
proof (cases "reading reg \<or> writing (state reg)")
  case False
  then have "idle_ok (ops_at a p i) (length (a_log a)) reg"
    using ok command_at_busy by (auto simp: reg_ok_def busy_ok_def)
  then show ?thesis using ok assms(2-7) by (simp add: reg_ok_def reg_inv_def idle_ok_def)
next
  case True
  from ok True obtain rid b where b: "a_ops a (p, rid) = Some b" "o_handler b = i" "o_quorum b = None" "command_at rid (o_content b) reg"
    and others: "\<And>rid' b'. a_ops a (p, rid') = Some b' \<Longrightarrow> o_handler b' = i \<Longrightarrow> rid' \<noteq> rid \<Longrightarrow>
      o_last b' < unat (o_ident b)"
    and phase: "query_ok (a_answers a) (length (a_log a)) (p, rid) b reg \<or> propagate_ok (a_acks a) (length (a_log a)) (p, rid) b reg"
    by (rule busyE) blast
  show ?thesis
  proof (rule busyI [OF _ _ _ b(1-3)])
    show "reg_inv reg'" "self_ident reg' = p" "processes_count reg' = n"
      using ok assms(2-6) by (simp_all add: reg_ok_def reg_inv_def)
    show "command_at rid (o_content b) reg'" 
      using b(4) assms(2-7) by (cases "o_content b") (simp_all add: command_at_def)
    show "query_ok (a_answers a) (length (a_log a)) (p, rid) b reg' \<or> propagate_ok (a_acks a) (length (a_log a)) (p, rid) b reg'"
      using phase query [OF b(1,2)] propagate [OF b(1,2)] others by blast
  qed (rule others)
qed

text \<open>The operation an answer belongs to.\<close>

lemma answer_of:
  assumes R: "refines C s a" and m: "(unat p, m) \<in> set (c_net s)" and route: "c_route s p (msg_ident (s_header m)) = Some i"
  shows "s_content m = Value ts wr d \<Longrightarrow> \<exists>rid b. a_ops a (p, rid) = Some b \<and> o_handler b = i \<and>
      msg_ident (s_header m) = request_uuid (cl_uuid C) rid \<and> s_sector_idx (s_header m) = o_sector b \<and>
      read_ident (s_header m) = o_ident b \<and> ((p, rid), process_identifier (s_header m), (d, ts, wr)) \<in> a_answers a"
    and "s_content m = Ack \<Longrightarrow> \<exists>rid b. a_ops a (p, rid) = Some b \<and> o_handler b = i \<and>
      read_ident (s_header m) = o_ident b + 1 \<and> ((p, rid), process_identifier (s_header m)) \<in> a_acks a"
proof -
  from refines_msg [OF R m] obtain q rid b where b: "a_ops a (q, rid) = Some b" "msg_ident (s_header m) = request_uuid (cl_uuid C) rid"
    and rest: "s_sector_idx (s_header m) = o_sector b" "(case s_content m of
        ReadProc \<Rightarrow> process_identifier (s_header m) = q \<and> read_ident (s_header m) = o_ident b
      | Value ts wr d \<Rightarrow> unat p = unat q \<and> read_ident (s_header m) = o_ident b \<and>
          ((q, rid), process_identifier (s_header m), (d, ts, wr)) \<in> a_answers a
      | WriteProc ts wr d \<Rightarrow> process_identifier (s_header m) = q \<and> read_ident (s_header m) = o_ident b + 1 \<and>
          o_pair b = Some (d, ts, wr)
      | Ack \<Rightarrow> unat p = unat q \<and> read_ident (s_header m) = o_ident b + 1 \<and>
          ((q, rid), process_identifier (s_header m)) \<in> a_acks a)"
    unfolding msg_ok_def by blast
  have i: "unat p = unat q \<Longrightarrow> p = q \<and> o_handler b = i"
    using refines_route [OF R b(1)] route b(2) by (auto dest: unsigned_word_eqI)
  show "\<exists>rid b. a_ops a (p, rid) = Some b \<and> o_handler b = i \<and>
      msg_ident (s_header m) = request_uuid (cl_uuid C) rid \<and> s_sector_idx (s_header m) = o_sector b \<and>
      read_ident (s_header m) = o_ident b \<and> ((p, rid), process_identifier (s_header m), (d, ts, wr)) \<in> a_answers a"
    if "s_content m = Value ts wr d"
    using that b rest i by auto
  show "\<exists>rid b. a_ops a (p, rid) = Some b \<and> o_handler b = i \<and>
      read_ident (s_header m) = o_ident b + 1 \<and> ((p, rid), process_identifier (s_header m)) \<in> a_acks a"
    if "s_content m = Ack"
    using that b rest i by auto
qed

text \<open>A register changes without a message or a result.\<close>

lemma refines_quiet:
  assumes R: "refines C s a" and p: "p \<in> processes (cl_procs C)" and reg: "reg_ok (cl_procs C) a p i reg'"
  shows "refines C (outcome_of C p i (reg', c_world s p, []) s) a"
proof -
  have "refines C (outcome_of C p i (reg', c_world s p, []) (s\<lparr>c_route := c_route s, c_log := c_log s\<rparr>)) a"
    by (rule refines_outcome [OF R p grows_refl refines_at(1) [OF R p] _ _ reg])
      (use R refines_at(2) [OF R p] refines_route [OF R] in \<open>auto simp: refines_def\<close>)
  then show ?thesis by simp
qed

lemma stored_sectors:
  assumes "sm_inv root w"
  shows "sm_inv root (store_state (impl_env U B root i) reg w)"
    and "sector_of (store_state (impl_env U B root i) reg w) = sector_of w"
  using reg.store_state_spec(1,2) [OF assms, of U B i reg] by (simp_all add: impl_sec_eq)

lemma command_at_readlist: "command_at rid c (reg\<lparr>readlist := rl\<rparr>) = command_at rid c reg"
  by (cases c) (simp_all add: command_at_def)

lemma command_at_quorum: "command_at rid c reg \<Longrightarrow> command_at rid c (quorum_next reg d)"
  by (cases c) (auto simp: command_at_def quorum_next_def)

lemma quorum_content_chosen:
  assumes "command_at rid c reg"
  shows "quorum_content reg t r d = (case chosen_pair (self_ident reg, rid) c (d, t, r) of (d', t', r') \<Rightarrow> WriteProc t' r' d')"
  using assms by (cases c) (auto simp: command_at_def quorum_content_def chosen_pair_def)

lemma deliver_value:
  assumes R: "refines C s a" and inv: "a_inv (cl_procs C) v0 a" "senders_ok (cl_procs C) a" "stamps_ok k a"
    and small: "\<And>idx. unat (fst (snd (v0 idx))) \<le> k" "k + 2 * length (a_log a) + 1 < 2 ^ 64"
    and p: "p \<in> processes (cl_procs C)" and m: "(unat p, m) \<in> set (c_net s)" "s_content m = Value ts wr d"
    and route: "c_route s p (msg_ident (s_header m)) = Some i" and order: "set order = UNIV"
  shows "\<exists>a' out. system_command (cluster_env C p i) order m (c_regs s p i) (c_world s p) = Some out \<and>
    (a' = a \<or> a_step (cl_procs C) a a') \<and> refines C (outcome_of C p i out s) a'"
proof -
  let ?h = "s_header m" and ?w = "c_world s p" and ?reg = "c_regs s p i" and ?E = "cluster_env C p i" and ?n = "cl_procs C"
  have ok: "reg_ok ?n a p i ?reg" by (rule refines_at(3) [OF R p])
  have reg: "reg_inv ?reg" "self_ident ?reg = p" "processes_count ?reg = ?n" using ok by (simp_all add: reg_ok_def)
  obtain rid' b' where b': "a_ops a (p, rid') = Some b'" "o_handler b' = i" "msg_ident ?h = request_uuid (cl_uuid C) rid'"
    "s_sector_idx ?h = o_sector b'" "read_ident ?h = o_ident b'" "((p, rid'), process_identifier ?h, (d, ts, wr)) \<in> a_answers a"
    using answer_of(1) [OF R m(1) route m(2)] by blast
  have run: "system_command ?E order m ?reg ?w = on_value ?E order ?h ts wr d ?reg ?w"
    using m(2) by (simp add: system_command_def)
  text \<open>In its first phase the register hears only answers to its own operation.\<close>
  have current: "rid = rid'" if "a_ops a (p, rid) = Some b" "read_ident ?h = o_ident b"
      "\<And>rid' b'. a_ops a (p, rid') = Some b' \<Longrightarrow> o_handler b' = i \<Longrightarrow> rid' \<noteq> rid \<Longrightarrow> o_last b' < unat (o_ident b)" for rid b
    using that(3) [OF b'(1,2)] that(2) b'(5) o_last_ge [of b'] by fastforce
  from reg(1) order show ?thesis
  proof (cases rule: on_value_cases [where E = ?E and h = ?h and ts = ts and wr = wr and d = d and w = ?w])
    case stale
    with run refines_quiet [OF R p ok] show ?thesis by auto
  next
    case (collect reg')
    have "reg_ok ?n a p i reg'"
    proof (rule reg_ok_collect [OF ok])
      fix rid b
      assume "a_ops a (p, rid) = Some b" and q: "query_ok (a_answers a) (length (a_log a)) (p, rid) b ?reg"
        and "\<And>rid' b'. a_ops a (p, rid') = Some b' \<Longrightarrow> o_handler b' = i \<Longrightarrow> rid' \<noteq> rid \<Longrightarrow> o_last b' < unat (o_ident b)"
      then have "rid = rid'" using current collect(2) by (simp add: query_ok_def)
      with q b'(6) collect(1) show "query_ok (a_answers a) (length (a_log a)) (p, rid) b reg'"
        by (auto simp: query_ok_def)
    qed (use collect(1) in \<open>simp_all add: propagate_ok_def\<close>)
    with collect run refines_quiet [OF R p, of i reg'] show ?thesis by auto
  next
    case (quorum reg' t r v)
    from ok quorum(3) obtain rid b where b: "a_ops a (p, rid) = Some b" "o_handler b = i" "o_quorum b = None"
      "command_at rid (o_content b) ?reg"
      and others: "\<And>rid' b'. a_ops a (p, rid') = Some b' \<Longrightarrow> o_handler b' = i \<Longrightarrow> rid' \<noteq> rid \<Longrightarrow>
        o_last b' < unat (o_ident b)"
      and phase: "query_ok (a_answers a) (length (a_log a)) (p, rid) b ?reg \<or> propagate_ok (a_acks a) (length (a_log a)) (p, rid) b ?reg"
      by (rule busyE) blast
    have query: "query_ok (a_answers a) (length (a_log a)) (p, rid) b ?reg"
    proof (rule ccontr)
      assume "\<not> ?thesis"
      with phase have "st_read_ident (state ?reg) = o_ident b + 1" "unat (o_ident b) < 2 * length (a_log a)"
        by (auto simp: propagate_ok_def)
      then have succ: "unat (o_ident b') = unat (o_ident b) + 1"
        using quorum(2) b'(5) small(2) unat_plus_one [of "o_ident b"] by simp
      then have "rid' \<noteq> rid" using b'(1) b(1) by auto
      from others [OF b'(1,2) this] succ o_last_ge [of b'] show False by simp
    qed
    then have rid: "rid = rid'" using current [OF b(1)] others quorum(2) by (auto simp: query_ok_def)
    then have bb: "b = b'" using b(1) b'(1) by simp
    let ?x = "(p, rid)" and ?v = "chosen_pair (p, rid) (o_content b) (v, t, r)"
    let ?b = "b\<lparr>o_pair := Some ?v\<rparr>"
    let ?a = "a\<lparr>a_ops := (a_ops a)(?x \<mapsto> ?b)\<rparr>"
    have rl: "readlist reg' q = Some (t', r', d') \<Longrightarrow> (?x, q, (d', t', r')) \<in> a_answers a" for q t' r' d'
      using query b'(6) rid quorum(1) by (auto simp: query_ok_def split: if_splits)
    have maj: "majority ?n (dom (readlist reg'))"
      using quorum(1,4) reg(3) rl inv(2) unfolding majority_def senders_ok_def by fastforce
    obtain q where q: "readlist reg' q = Some (t, r, v)" using highestD(1) [OF quorum(5)] by blast
    have "unat t + 1 < 2 ^ 64"
      using answer_stamp [OF inv(1,3) small(1) rl [OF q]] small(2) by simp
    then have "t < t + 1" by (simp add: word_less_nat_alt unat_plus_one)
    have step: "a_step ?n a ?a"
    proof (rule a_step.choose [OF b(1) _ maj])
      show "\<forall>q \<in> dom (readlist reg'). \<exists>w. (?x, q, w) \<in> a_answers a \<and> snd w \<le> snd (v, t, r)"
        using rl highestD(2) [OF quorum(5)] by fastforce
      show "q \<in> dom (readlist reg')" "(?x, q, (v, t, r)) \<in> a_answers a" using q rl by auto
    qed (use query \<open>t < t + 1\<close> in \<open>simp_all add: query_ok_def\<close>)
    let ?reg' = "quorum_next reg' v" and ?w' = "store_state ?E (quorum_next reg' v) ?w"
    let ?m = "\<lparr>s_header = SystemCommandHeader_new (self_ident ?reg) (msg_ident ?h) (st_read_ident (state ?reg) + 1) (s_sector_idx ?h),
        s_content = quorum_content reg' t r v\<rparr>"
    have w': "sm_inv (cl_root C p) ?w'" "sector_of ?w' = sector_of ?w"
      using stored_sectors [OF refines_at(1) [OF R p]] by (simp_all add: cluster_env_def)
    obtain d1 t1 r1 where v1: "?v = (d1, t1, r1)" by (metis prod_cases3)
    then have cnt: "quorum_content reg' t r v = WriteProc t1 r1 d1"
      using quorum_content_chosen [of rid "o_content b" reg' t r v] b(4) quorum(1) reg(2) by (simp add: command_at_readlist)
    have ident: "st_read_ident (state ?reg) = o_ident b" using query by (simp add: query_ok_def)
    have msg: "msg_ok (cl_uuid C) ?a t' ?m" for t'
      unfolding msg_ok_def cnt v1 ident reg(2) SystemCommandHeader_new_def
      by (intro exI [of _ p] exI [of _ rid] exI [of _ "b\<lparr>o_pair := Some (d1, t1, r1)\<rparr>"]) (use b'(3,4) bb rid in simp)
    have ok': "reg_ok ?n ?a p i ?reg'"
    proof (rule busyI [of _ _ _ _ rid ?b])
      show "command_at rid (o_content ?b) ?reg'"
        using b(4) quorum(1) by (simp add: command_at_quorum command_at_readlist)
      show "query_ok (a_answers ?a) (length (a_log ?a)) (p, rid) ?b ?reg' \<or> propagate_ok (a_acks ?a) (length (a_log ?a)) (p, rid) ?b ?reg'"
        using query b(4) quorum(1) by (auto simp: propagate_ok_def quorum_next_def query_ok_def chosen_pair_def command_at_def
            split: ClientRegisterCommandContent.splits)
    qed (use reg quorum(1) b others in \<open>auto simp: quorum_next_def reg_inv_def\<close>)
    have "refines C (outcome_of C p i (?reg', ?w', [Broadcast ?m]) (s\<lparr>c_route := c_route s, c_log := c_log s\<rparr>)) ?a"
      by (rule refines_outcome [OF R p a_step_grows [OF step] w'(1) _ _ ok'])
        (use R refines_at(2) [OF R p] refines_route [OF R] w'(2) msg b in \<open>auto simp: refines_def ops_at_def split: if_splits\<close>)
    with run quorum(6) step show ?thesis by auto
  qed
qed

lemma ack_result_of:
  assumes "command_at rid c reg" and "reading reg \<longrightarrow> map_option rv_data (readval reg) = Some (fst v)"
  shows "op_request_identifier (ack_result reg) = rid" and "op_return (ack_result reg) = result_of c v"
    and "\<not> reading (ack_next reg)" and "\<not> writing (state (ack_next reg))" and "callback reg = Some ()"
  using assms by (cases c; auto simp: command_at_def ack_result_def ack_next_def result_of_def)+

lemma command_at_acks: "command_at rid c (reg\<lparr>acks := A\<rparr>) = command_at rid c reg"
  by (cases c) (simp_all add: command_at_def)

lemma deliver_ack:
  assumes R: "refines C s a" and inv: "senders_ok (cl_procs C) a" and acks: "acks_ok a" and small: "2 * length (a_log a) + 1 < 2 ^ 64"
    and p: "p \<in> processes (cl_procs C)" and m: "(unat p, m) \<in> set (c_net s)" "s_content m = Ack"
    and route: "c_route s p (msg_ident (s_header m)) = Some i"
  shows "\<exists>a' out. system_command (cluster_env C p i) order m (c_regs s p i) (c_world s p) = Some out \<and>
    (a' = a \<or> a_step (cl_procs C) a a') \<and> refines C (outcome_of C p i out s) a'"
proof -
  let ?h = "s_header m" and ?w = "c_world s p" and ?reg = "c_regs s p i" and ?E = "cluster_env C p i" and ?n = "cl_procs C"
  have ok: "reg_ok ?n a p i ?reg" by (rule refines_at(3) [OF R p])
  have reg: "reg_inv ?reg" "self_ident ?reg = p" "processes_count ?reg = ?n" using ok by (simp_all add: reg_ok_def)
  obtain rid' b' where b': "a_ops a (p, rid') = Some b'" "o_handler b' = i"
    "read_ident ?h = o_ident b' + 1" "((p, rid'), process_identifier ?h) \<in> a_acks a"
    using answer_of(2) [OF R m(1) route m(2)] by blast
  have last': "o_last b' = unat (o_ident b') + 1" using acks b'(1,4) unfolding acks_ok_def o_last_def by fastforce
  have run: "system_command ?E order m ?reg ?w = on_ack ?E ?h ?reg ?w"
    using m(2) by (simp add: system_command_def)
  text \<open>In its second phase the register hears only acknowledgements of its own operation.\<close>
  have current: "rid = rid'" if "a_ops a (p, rid) = Some b" "read_ident ?h = o_ident b + 1"
      "\<And>rid' b'. a_ops a (p, rid') = Some b' \<Longrightarrow> o_handler b' = i \<Longrightarrow> rid' \<noteq> rid \<Longrightarrow> o_last b' < unat (o_ident b)" for rid b
    using that(3) [OF b'(1,2)] that(2) b'(3) last' by fastforce
  from reg(1) show ?thesis
  proof (cases rule: on_ack_cases [where E = ?E and h = ?h and w = ?w])
    case stale
    with run refines_quiet [OF R p ok] show ?thesis by auto
  next
    case (collect reg')
    have "reg_ok ?n a p i reg'"
    proof (rule reg_ok_collect [OF ok])
      fix rid b
      assume "a_ops a (p, rid) = Some b" and q: "propagate_ok (a_acks a) (length (a_log a)) (p, rid) b ?reg"
        and "\<And>rid' b'. a_ops a (p, rid') = Some b' \<Longrightarrow> o_handler b' = i \<Longrightarrow> rid' \<noteq> rid \<Longrightarrow> o_last b' < unat (o_ident b)"
      then have "rid = rid'" using current collect(2) by (auto simp: propagate_ok_def)
      with q b'(4) collect(1) show "propagate_ok (a_acks a) (length (a_log a)) (p, rid) b reg'"
        by (auto simp: propagate_ok_def)
    qed (use collect(1) in \<open>simp_all add: query_ok_def\<close>)
    with collect run refines_quiet [OF R p, of i reg'] show ?thesis by auto
  next
    case (quorum reg')
    from ok quorum(3) obtain rid b where b: "a_ops a (p, rid) = Some b" "o_handler b = i" "o_quorum b = None"
      "command_at rid (o_content b) ?reg"
      and others: "\<And>rid' b'. a_ops a (p, rid') = Some b' \<Longrightarrow> o_handler b' = i \<Longrightarrow> rid' \<noteq> rid \<Longrightarrow>
        o_last b' < unat (o_ident b)"
      and phase: "query_ok (a_answers a) (length (a_log a)) (p, rid) b ?reg \<or> propagate_ok (a_acks a) (length (a_log a)) (p, rid) b ?reg"
      by (rule busyE) blast
    have "propagate_ok (a_acks a) (length (a_log a)) (p, rid) b ?reg"
    proof (rule ccontr)
      assume "\<not> ?thesis"
      with phase have eq: "o_ident b = o_ident b' + 1" "unat (o_ident b) < 2 * length (a_log a)"
        using quorum(2) b'(3) by (auto simp: query_ok_def)
      then have "rid' \<noteq> rid" using b(1) b'(1) by auto
      from others [OF b'(1,2) this] have "unat (o_ident b') + 1 < unat (o_ident b' + 1)" using eq last' by simp
      then show False by (simp add: unat_plus_if' split: if_splits)
    qed
    then obtain v where v: "o_pair b = Some v" "st_read_ident (state ?reg) = o_ident b + 1" "unat (o_ident b) < 2 * length (a_log a)"
      "\<forall>q \<in> acks ?reg. ((p, rid), q) \<in> a_acks a" "reading ?reg \<longrightarrow> map_option rv_data (readval ?reg) = Some (fst v)"
      unfolding propagate_ok_def by blast
    have rid: "rid = rid'" using current [OF b(1)] others quorum(2) v(2) by auto
    let ?x = "(p, rid)" and ?b = "b\<lparr>o_quorum := Some (acks reg')\<rparr>"
    let ?a = "a\<lparr>a_ops := (a_ops a)(?x \<mapsto> ?b), a_log := a_log a @ [Res ?x (result_of (o_content b) v)]\<rparr>"
    have acked: "\<forall>q \<in> acks reg'. (?x, q) \<in> a_acks a" using v(4) b'(4) rid quorum(1) by auto
    have "majority ?n (acks reg')"
      using quorum(1,4) reg(3) acked inv unfolding majority_def senders_ok_def by fastforce
    from a_step.complete [OF b(1) v(1) b(3) this acked] have step: "a_step ?n a ?a" .
    have cmd: "command_at rid (o_content b) reg'" "reading reg' \<longrightarrow> map_option rv_data (readval reg') = Some (fst v)"
      using b(4) v(5) quorum(1) by (simp_all add: command_at_acks)
    note res = ack_result_of [OF cmd]
    let ?w' = "if reading ?reg then ?w else store_state ?E (ack_next reg') ?w"
    have w': "sm_inv (cl_root C p) ?w'" "sector_of ?w' = sector_of ?w"
      using refines_at(1) [OF R p] by (simp_all add: cluster_env_def stored_sectors)
    have st: "unat (st_read_ident (state reg')) = unat (o_ident b) + 1"
      using v(2,3) quorum(1) small unat_plus_one [of "o_ident b"] by simp
    have "idle_ok (ops_at ?a p i) (length (a_log ?a)) (ack_next reg')"
      unfolding idle_ok_def
    proof (intro conjI res(3,4) ballI)
      show "unat (st_read_ident (state (ack_next reg'))) \<le> 2 * length (a_log ?a)"
        using st v(3) by (simp add: ack_next_def)
      fix y
      assume "y \<in> ops_at ?a p i"
      then obtain rid2 b2 where y: "y = (rid2, b2)" "a_ops ?a (p, rid2) = Some b2" "o_handler b2 = i" by (auto simp: ops_at_def)
      have "st_read_ident (state (ack_next reg')) = st_read_ident (state reg')" by (simp add: ack_next_def)
      then show "case y of (rid, b) \<Rightarrow> o_last b \<le> unat (st_read_ident (state (ack_next reg')))"
        using y st others [of rid2 b2] v(1) by (cases "rid2 = rid") (auto simp: o_last_def)
    qed
    then have ok': "reg_ok ?n ?a p i (ack_next reg')"
      using reg quorum(1) by (simp add: reg_ok_def ack_next_def reg_inv_def)
    have "refines C (outcome_of C p i (ack_next reg', ?w', [Callback () (ack_result reg')]) (s\<lparr>c_route := c_route s, c_log := c_log s\<rparr>)) ?a"
      by (rule refines_outcome [OF R p a_step_grows [OF step] w'(1) _ _ ok'])
        (use R refines_at(2) [OF R p] refines_route [OF R] w'(2) b res in \<open>auto simp: refines_def ops_at_def split: if_splits\<close>)
    with run quorum(1,5) step res(5) show ?thesis by auto
  qed
qed

section \<open>Invocations\<close>

lemma client_command_at:
  obtains reg' where "client_command E cmd () reg w = (reg', store_state E reg' w,
      [Broadcast \<lparr>s_header = SystemCommandHeader_new (self_ident reg) (request_uuid (uuid E) (request_identifier (c_header cmd)))
         (st_read_ident (state reg) + 1) (c_sector_idx (c_header cmd)), s_content = ReadProc\<rparr>])"
    and "self_ident reg' = self_ident reg" and "processes_count reg' = processes_count reg" and "readlist reg' = Map.empty"
    and "st_read_ident (state reg') = st_read_ident (state reg) + 1"
    and "\<not> reading reg \<Longrightarrow> \<not> writing (state reg) \<Longrightarrow>
      reg_inv reg' \<and> command_at (request_identifier (c_header cmd)) (c_content cmd) reg'"
  by (cases "c_content cmd") (simp_all add: client_command_def Let_def command_at_def reg_inv_def)

lemma invoke_refines:
  assumes R: "refines C s a" and inv: "a_inv (cl_procs C) v0 a" and U: "uuid_laws (cl_uuid C)"
    and small: "2 * length (a_log a) + 2 < 2 ^ 64" and p: "p \<in> processes (cl_procs C)" and may: "may_invoke p i cmd s"
  shows "\<exists>a'. a_step (cl_procs C) a a' \<and>
    refines C (outcome_of C p i (client_command (cluster_env C p i) cmd () (c_regs s p i) (c_world s p))
      (s\<lparr>c_route := (c_route s)(p := (c_route s p)(request_uuid (cl_uuid C) (request_identifier (c_header cmd)) \<mapsto> i)),
         c_log := c_log s @ [Inv (p, request_identifier (c_header cmd)) (c_sector_idx (c_header cmd)) (c_content cmd)]\<rparr>)) a'"
proof -
  let ?reg = "c_regs s p i" and ?n = "cl_procs C" and ?E = "cluster_env C p i" and ?w = "c_world s p"
  let ?rid = "request_identifier (c_header cmd)" and ?idx = "c_sector_idx (c_header cmd)"
  let ?x = "(p, ?rid)"
  from inv have T: "times_ok a" and L: "log_ok a" by (simp_all add: a_inv_def order_inv_def)
  have log: "a_log a = c_log s" using R by (simp add: refines_def)
  have logged: "Inv y (o_sector b) (o_content b) \<in> set (c_log s)" if "a_ops a y = Some b" for y b
    using that T log unfolding times_ok_def by (metis nth_mem)
  have fresh: "a_ops a ?x = None"
    using logged [of ?x] may by (cases "a_ops a ?x") (auto simp: may_invoke_def)
  have free: "c_content cmd \<noteq> Read \<longrightarrow>
      (\<forall>y b. a_ops a y = Some b \<and> fst y = fst ?x \<and> o_sector b = ?idx \<and> o_content b \<noteq> Read \<longrightarrow> y \<in> completed a)"
  proof (intro allI impI)
    fix y b
    assume "c_content cmd \<noteq> Read" and y: "a_ops a y = Some b \<and> fst y = fst ?x \<and> o_sector b = ?idx \<and> o_content b \<noteq> Read"
    with logged [of y b] may obtain e where e: "e \<in> set (c_log s)" "case e of Res z r \<Rightarrow> z = y | Inv z j c \<Rightarrow> False"
      unfolding may_invoke_def by fastforce
    from e(2) obtain r where "e = Res y r" by (cases e) simp_all
    then have "Res y r \<in> set (a_log a)" using e(1) log by simp
    with L show "y \<in> completed a" unfolding log_ok_def completed_def by blast
  qed
  have idle: "\<not> reading ?reg" "\<not> writing (state ?reg)" using may by (simp_all add: may_invoke_def)
  have ok: "reg_ok ?n a p i ?reg" by (rule refines_at(3) [OF R p])
  have idle_ok: "idle_ok (ops_at a p i) (length (a_log a)) ?reg"
    using ok idle command_at_busy unfolding reg_ok_def busy_ok_def by blast
  have reg: "self_ident ?reg = p" "processes_count ?reg = ?n" using ok by (simp_all add: reg_ok_def)
  let ?k = "st_read_ident (state ?reg) + 1"
  have k: "unat ?k = unat (st_read_ident (state ?reg)) + 1" "unat (st_read_ident (state ?reg)) \<le> 2 * length (a_log a)"
    using idle_ok small unat_plus_one [of "st_read_ident (state ?reg)"] by (simp_all add: idle_ok_def)
  let ?b = "\<lparr>o_sector = ?idx, o_content = c_content cmd, o_handler = i, o_ident = ?k,
      o_time = length (a_log a), o_before = completed a, o_pair = None, o_quorum = None\<rparr>"
  let ?a = "a\<lparr>a_ops := (a_ops a)(?x \<mapsto> ?b), a_log := a_log a @ [Inv ?x ?idx (c_content cmd)]\<rparr>"
  have step: "a_step ?n a ?a" by (rule a_step.invoke [OF fresh free])
  let ?m = "\<lparr>s_header = SystemCommandHeader_new p (request_uuid (cl_uuid C) ?rid) ?k ?idx, s_content = ReadProc\<rparr>"
  obtain reg' where c: "client_command ?E cmd () ?reg ?w = (reg', store_state ?E reg' ?w, [Broadcast ?m])"
    "self_ident reg' = p" "processes_count reg' = ?n" "readlist reg' = Map.empty" "st_read_ident (state reg') = ?k"
    "reg_inv reg'" "command_at ?rid (c_content cmd) reg'"
    by (rule client_command_at [of ?E cmd ?reg ?w]) (use reg idle in \<open>simp add: cluster_env_def\<close>)
  have w': "sm_inv (cl_root C p) (store_state ?E reg' ?w)" "sector_of (store_state ?E reg' ?w) = sector_of ?w"
    using refines_at(1) [OF R p] by (simp_all add: cluster_env_def stored_sectors)
  have ok': "reg_ok ?n ?a p i reg'"
  proof (rule busyI [of _ _ _ _ ?rid ?b])
    fix rid2 b2
    assume "a_ops ?a (p, rid2) = Some b2" "o_handler b2 = i" "rid2 \<noteq> ?rid"
    then have "(rid2, b2) \<in> ops_at a p i" by (simp add: ops_at_def)
    with idle_ok k(1) show "o_last b2 < unat (o_ident ?b)"
      by (fastforce simp: idle_ok_def)
  qed (use c k in \<open>simp_all add: query_ok_def\<close>)
  have msg: "msg_ok (cl_uuid C) ?a t ?m" for t
    unfolding msg_ok_def
    by (intro exI [of _ p] exI [of _ ?rid] exI [of _ ?b]) (simp add: SystemCommandHeader_new_def)
  have "refines C (outcome_of C p i (reg', store_state ?E reg' ?w, [Broadcast ?m])
      (s\<lparr>c_route := (c_route s)(p := (c_route s p)(request_uuid (cl_uuid C) ?rid \<mapsto> i)),
         c_log := c_log s @ [Inv ?x ?idx (c_content cmd)]\<rparr>)) ?a"
    by (rule refines_outcome [OF R p a_step_grows [OF step] w'(1) _ _ ok'])
      (use log refines_at(2) [OF R p] refines_route [OF R] w'(2) msg fresh p in
        \<open>auto simp: ops_at_def request_uuid_inject [OF U] split: if_splits\<close>)
  with step c(1) show ?thesis by auto
qed

section \<open>Restarts\<close>

text \<open>What is on the disk of a process is the state of its registers.\<close>

definition stored :: "'u cluster_config \<Rightarrow> 'u cluster \<Rightarrow> bool" where
  "stored C s \<longleftrightarrow> (\<forall>p \<in> processes (cl_procs C). \<forall>i < REGISTERS_NUMBER.
     load_state (cluster_env C p i) (c_world s p) = state (c_regs s p i))"

lemma storedD:
  "stored C s \<Longrightarrow> p \<in> processes (cl_procs C) \<Longrightarrow> i < REGISTERS_NUMBER \<Longrightarrow>
    load_state (impl_env (cl_uuid C) (cl_bincode C) (cl_root C p) i) (c_world s p) = state (c_regs s p i)"
  by (simp add: stored_def cluster_env_def)

lemma handler_stored:
  assumes "reg_inv reg" and "sm_inv root w" and "bincode_laws B" and "load_state (impl_env U B root i) w = state reg"
    and order: "set order = UNIV" and run: "handle_message (impl_env U B root i) order msg reg w = Some (reg', w', effs)"
  shows "load_state (impl_env U B root i) w' = state reg'"
    and "j \<noteq> i \<Longrightarrow> load_state (impl_env U B root j) w' = load_state (impl_env U B root j) w"
proof -
  show "load_state (impl_env U B root i) w' = state reg'"
    using reg.handle_message_total [where U = U and B = B and root = root and i = i and b = True and reg = reg and w = w and
        order = order and msg = msg] assms by (auto simp: reg.good_def)
  show "load_state (impl_env U B root j) w' = load_state (impl_env U B root j) w" if "j \<noteq> i"
    by (rule load_state_other [OF that assms(1,2), of "[(order, msg)]"]) (use order run in simp_all)
qed

lemma stored_outcome:
  assumes S: "stored C s" and R: "refines C s a" and B: "bincode_laws (cl_bincode C)" and p: "p \<in> processes (cl_procs C)" "i < REGISTERS_NUMBER"
    and "set order = UNIV" "handle_message (cluster_env C p i) order msg (c_regs s p i) (c_world s p) = Some out"
  shows "stored C (outcome_of C p i out (s\<lparr>c_route := rt, c_log := L\<rparr>))"
proof -
  obtain reg' w' effs where out: "out = (reg', w', effs)" by (cases out)
  have "reg_inv (c_regs s p i)" using refines_at(3) [OF R p(1)] by (simp add: reg_ok_def)
  moreover have "load_state (cluster_env C p i) (c_world s p) = state (c_regs s p i)" using S p by (simp add: stored_def)
  ultimately have
    "load_state (cluster_env C p i) w' = state reg'" "j \<noteq> i \<Longrightarrow> load_state (cluster_env C p j) w' = load_state (cluster_env C p j) (c_world s p)" for j
    using handler_stored [OF _ refines_at(1) [OF R p(1)] B _ assms(6)] assms(7) unfolding out cluster_env_def by blast+
  then show ?thesis using S by (auto simp: stored_def outcome_of_def out)
qed

text \<open>A register built from its stored state is idle; a read it was working on is forgotten.\<close>

lemma reg_ok_rebuilt:
  assumes ok: "reg_ok n a p i reg" and "\<not> writing (state reg)" and small: "2 * length (a_log a) + 1 < 2 ^ 64"
  shows "reg_ok n a p i \<lparr>self_ident = p, processes_count = n, readlist = Map.empty, acks = {}, reading = False, readval = None,
    state = state reg, callback = None\<rparr>"
proof -
  let ?m = "length (a_log a)"
  have "unat (st_read_ident (state reg)) \<le> 2 * ?m \<and> (\<forall>(rid, b) \<in> ops_at a p i. o_last b \<le> unat (st_read_ident (state reg)))"
  proof (cases "reading reg")
    case True
    then have busy: "reading reg \<or> writing (state reg)" by simp
    obtain rid b where b: "a_ops a (p, rid) = Some b"
      and others: "\<And>rid' b'. a_ops a (p, rid') = Some b' \<Longrightarrow> o_handler b' = i \<Longrightarrow> rid' \<noteq> rid \<Longrightarrow> o_last b' < unat (o_ident b)"
      and phase: "query_ok (a_answers a) ?m (p, rid) b reg \<or> propagate_ok (a_acks a) ?m (p, rid) b reg"
      by (rule busyE [OF ok busy]) blast
    from phase have "unat (st_read_ident (state reg)) = o_last b" "unat (o_ident b) < 2 * ?m"
      using small unat_plus_one [of "o_ident b"] by (auto simp: query_ok_def propagate_ok_def o_last_def)
    moreover have "o_last b' \<le> o_last b" if "(rid', b') \<in> ops_at a p i" for rid' b'
      using that others [of rid' b'] o_last_ge [of b] b by (cases "rid' = rid") (auto simp: ops_at_def)
    moreover have "o_last b \<le> 2 * ?m" using calculation(2) by (simp add: o_last_def)
    ultimately show ?thesis by auto
  next
    case False
    with ok assms(2) show ?thesis using command_at_busy by (auto simp: reg_ok_def idle_ok_def busy_ok_def)
  qed
  with ok assms(2) show ?thesis by (simp add: reg_ok_def idle_ok_def reg_inv_def)
qed

lemma restart_refines:
  assumes R: "refines C s a" and S: "stored C s" and p: "p \<in> processes (cl_procs C)" and small: "2 * length (a_log a) + 1 < 2 ^ 64"
    and run: "restarted C p s = Some s'"
  shows "refines C s' a" and "stored C s'"
proof -
  obtain sm d where w: "c_world s p = (sm, d)" by (cases "c_world s p")
  have "SectorsManagerImplementation_new (cl_root C p) d = Some (Some sm)"
    using refines_at(1) [OF R p] w by (simp add: recovered_manager)
  with run w obtain regs where regs: "build_registers (cl_uuid C) (cl_bincode C) (\<lambda>_. True) (cl_root C p) p (cl_procs C)
      [0..<REGISTERS_NUMBER] (sm, d) = Some (regs, [])"
    and s': "s' = s\<lparr>c_regs := (c_regs s)(p := \<lambda>i. if i < length regs then regs ! i else c_regs s p i),
      c_world := (c_world s)(p := (sm, d)), c_route := (c_route s)(p := Map.empty)\<rparr>"
    by (auto simp: restarted_def build_sectors_manager_def Let_def split: option.splits prod.splits list.splits)
  have same: "c_world s' = c_world s" using s' w by (simp add: fun_upd_idem)
  have len: "length regs = REGISTERS_NUMBER" using build_registers_nth [OF regs, of 0] by (simp add: REGISTERS_NUMBER_def)
  have new: "\<not> writing (state (c_regs s p i)) \<and> c_regs s' p i = \<lparr>self_ident = p, processes_count = cl_procs C, readlist = Map.empty, acks = {},
      reading = False, readval = None, state = state (c_regs s p i), callback = None\<rparr>" if "i < REGISTERS_NUMBER" for i
    using build_registers_nth [OF regs, of i] storedD [OF S p that] that s' len w by simp
  have "reg_ok (cl_procs C) a p i (c_regs s' p i)" for i
  proof (cases "i < REGISTERS_NUMBER")
    case True
    with new reg_ok_rebuilt [OF refines_at(3) [OF R p] _ small] show ?thesis by simp
  next
    case False
    with s' len refines_at(3) [OF R p] show ?thesis by simp
  qed
  moreover have "c_regs s' q = c_regs s q" if "q \<noteq> p" for q using that s' by simp
  moreover have "c_net s' = c_net s" "c_log s' = c_log s" "c_route s' = (c_route s)(p := Map.empty)" using s' by simp_all
  ultimately show "refines C s' a"
    using R unfolding refines_def same by (auto split: if_splits) metis
  have "state (c_regs s' q i) = state (c_regs s q i)" if "i < REGISTERS_NUMBER" for q i
    using new [OF that] s' by (cases "q = p") simp_all
  then show "stored C s'" using S unfolding stored_def same by simp
qed

text \<open>A process can restart whenever it has no write in progress.\<close>

lemma restart_enabled:
  assumes R: "refines C s a" and S: "stored C s" and p: "p \<in> processes (cl_procs C)"
    and idle: "\<And>i. i < REGISTERS_NUMBER \<Longrightarrow> \<not> writing (state (c_regs s p i))"
  shows "\<exists>s'. cluster_step C (Restart p) s = Some s' \<and> c_log s' = c_log s"
proof -
  obtain sm d where w: "c_world s p = (sm, d)" by (cases "c_world s p")
  have sm: "SectorsManagerImplementation_new (cl_root C p) d = Some (Some sm)"
    using refines_at(1) [OF R p] w by (simp add: recovered_manager)
  have load: "\<not> writing (load_state (impl_env (cl_uuid C) (cl_bincode C) (cl_root C p) i) (sm, d))" if "i < REGISTERS_NUMBER" for i
    using storedD [OF S p that] idle [OF that] w by simp
  have none: "unfinished (cl_uuid C) (cl_bincode C) (cl_root C p) [0..<REGISTERS_NUMBER] (sm, d) = []"
    using load by (simp add: unfinished_def map_filter_def filter_empty_conv)
  have "\<forall>i \<in> set [0..<REGISTERS_NUMBER]. True \<and> stored_ok (cl_uuid C) (cl_bincode C) (cl_root C p) (sm, d) i"
    using load by (simp add: stored_ok_def)
  from build_registers_ok [OF this, of p "cl_procs C"] none
  obtain regs :: "unit AtomicRegisterImplementation list" where "build_registers (cl_uuid C) (cl_bincode C) (\<lambda>_. True) (cl_root C p) p (cl_procs C)
      [0..<REGISTERS_NUMBER] (sm, d) = Some (regs, [])" by auto
  with sm w p show ?thesis
    by (simp add: cluster_step_def restarted_def build_sectors_manager_def processes_def)
qed

section \<open>Refinement\<close>

text \<open>A system that has not run yet: the replicas agree and no register has stored anything but the empty state.\<close>

definition fresh :: "'u cluster_config \<Rightarrow> (u8 \<Rightarrow> SectorsManagerImplementation \<times> disk) \<Rightarrow> (SectorIdx \<Rightarrow> stamped) \<Rightarrow> bool" where
  "fresh C W v0 \<longleftrightarrow> (\<forall>p \<in> processes (cl_procs C). sm_inv (cl_root C p) (W p) \<and> sector_of (W p) = v0 \<and>
     (\<forall>i < REGISTERS_NUMBER. load_state (cluster_env C p i) (W p) = empty_state))"

lemma cluster_start_refines:
  assumes "fresh C W v0"
  shows "refines C (cluster_start C W) (a_start v0)" and "stored C (cluster_start C W)"
  using assms
  by (auto simp: fresh_def stored_def refines_def cluster_start_def a_start_def reg_ok_def idle_ok_def ops_at_def idle_register_def
      empty_state_def reg_inv_def)

lemma cluster_step_refines:
  assumes R: "refines C s a" and inv: "a_inv (cl_procs C) v0 a" "senders_ok (cl_procs C) a" "stamps_ok k a" and S: "stored C s"
    and U: "uuid_laws (cl_uuid C)" and small: "\<And>idx. unat (fst (snd (v0 idx))) \<le> k" "k + 2 * length (c_log s) + 2 < 2 ^ 64"
    and step: "cluster_step C ev s = Some s'"
  shows "\<exists>a'. (a' = a \<or> a_step (cl_procs C) a a') \<and> refines C s' a'"
proof (cases ev)
  case (Invoke p i cmd)
  have log: "a_log a = c_log s" using R by (simp add: refines_def)
  from step Invoke have "p \<in> processes (cl_procs C)" "may_invoke p i cmd s"
    by (auto simp: cluster_step_def processes_def split: if_splits)
  from invoke_refines [OF R inv(1) U _ this] small(2) log step Invoke show ?thesis
    by (auto simp: cluster_step_def split: if_splits)
next
  case (Deliver p i order m)
  have acks: "acks_ok a" using inv(1) by (simp add: a_inv_def data_inv_def)
  let ?reg = "c_regs s p i" and ?w = "c_world s p" and ?E = "cluster_env C p i"
  have log: "a_log a = c_log s" using R by (simp add: refines_def)
  from step Deliver obtain out where g: "p \<in> processes (cl_procs C)" "(unat p, m) \<in> set (c_net s)" "set order = UNIV"
    "is_request (s_content m) \<or> c_route s p (msg_ident (s_header m)) = Some i"
    and out: "system_command ?E order m ?reg ?w = Some out" "s' = outcome_of C p i out s"
    by (auto simp: cluster_step_def processes_def split: if_splits)
  have "\<exists>a' out. system_command ?E order m ?reg ?w = Some out \<and>
    (a' = a \<or> a_step (cl_procs C) a a') \<and> refines C (outcome_of C p i out s) a'"
  proof (cases "s_content m")
    case ReadProc
    from deliver_read_proc [OF R g(1,2) this, of i order] show ?thesis by blast
  next
    case (Value ts wr d)
    with g(4) have "c_route s p (msg_ident (s_header m)) = Some i" by simp
    from deliver_value [OF R inv small(1) _ g(1,2) Value this g(3)] small(2) log show ?thesis by simp
  next
    case (WriteProc ts wr d)
    from deliver_write_proc [OF R g(1,2) this, of i order] show ?thesis by blast
  next
    case Ack
    with g(4) have "c_route s p (msg_ident (s_header m)) = Some i" by simp
    from deliver_ack [OF R inv(2) acks _ g(1,2) Ack this] small(2) log show ?thesis by simp
  qed
  with out show ?thesis by auto
next
  case (Restart p)
  with step have "p \<in> processes (cl_procs C)" "restarted C p s = Some s'"
    by (auto simp: cluster_step_def processes_def split: if_splits)
  moreover have "2 * length (a_log a) + 1 < 2 ^ 64" using small(2) R by (simp add: refines_def)
  ultimately have "refines C s' a" by (intro restart_refines(1) [OF R S])
  then show ?thesis by blast
qed

lemma cluster_step_stored:
  assumes S: "stored C s" and R: "refines C s a" and B: "bincode_laws (cl_bincode C)" and small: "2 * length (c_log s) + 1 < 2 ^ 64"
    and step: "cluster_step C ev s = Some s'"
  shows "stored C s'"
proof (cases ev)
  case (Invoke p i cmd)
  from step Invoke have p: "p \<in> processes (cl_procs C)" "i < REGISTERS_NUMBER"
    and s': "s' = outcome_of C p i (client_command (cluster_env C p i) cmd () (c_regs s p i) (c_world s p))
               (s\<lparr>c_route := (c_route s)(p := (c_route s p)(request_uuid (cl_uuid C) (request_identifier (c_header cmd)) \<mapsto> i)),
                  c_log := c_log s @ [Inv (p, request_identifier (c_header cmd)) (c_sector_idx (c_header cmd)) (c_content cmd)]\<rparr>)"
    by (auto simp: cluster_step_def processes_def may_invoke_def split: if_splits)
  show ?thesis unfolding s'
    by (rule stored_outcome [OF S R B p, of all_ranks "ClientMessage cmd ()"]) (simp_all add: handle_message_def)
next
  case (Deliver p i order m)
  from step Deliver obtain out where g: "p \<in> processes (cl_procs C)" "i < REGISTERS_NUMBER" "set order = UNIV"
    and out: "system_command (cluster_env C p i) order m (c_regs s p i) (c_world s p) = Some out" "s' = outcome_of C p i out s"
    by (auto simp: cluster_step_def processes_def split: if_splits)
  from stored_outcome [OF S R B g, where msg = "SystemMessage m" and out = out and rt = "c_route s" and L = "c_log s"] out show ?thesis
    by (simp add: handle_message_def)
next
  case (Restart p)
  with step have "p \<in> processes (cl_procs C)" "restarted C p s = Some s'"
    by (auto simp: cluster_step_def processes_def split: if_splits)
  moreover have "2 * length (a_log a) + 1 < 2 ^ 64" using small R by (simp add: refines_def)
  ultimately show ?thesis by (intro restart_refines(2) [OF R S])
qed

lemma restarted_log: "restarted C p s = Some s' \<Longrightarrow> c_log s' = c_log s"
  by (auto simp: restarted_def Let_def split: option.splits prod.splits list.splits)

lemma cluster_step_log: "cluster_step C ev s = Some s' \<Longrightarrow> length (c_log s) \<le> length (c_log s')"
  by (auto simp: cluster_step_def outcome_of_def restarted_log split: cluster_event.splits if_splits prod.splits)

lemma cluster_run_log: "cluster_run C evs s = Some s' \<Longrightarrow> length (c_log s) \<le> length (c_log s')"
proof (induction evs arbitrary: s)
  case (Cons ev evs)
  then obtain s1 where "cluster_step C ev s = Some s1" "cluster_run C evs s1 = Some s'" by (auto split: option.splits)
  with Cons.IH [of s1] cluster_step_log [of C ev s s1] show ?case by simp
qed simp

lemma cluster_run_refines:
  assumes "refines C s a" and "a_inv (cl_procs C) v0 a" "senders_ok (cl_procs C) a" "stamps_ok k a" and "stored C s"
    and U: "uuid_laws (cl_uuid C)" and B: "bincode_laws (cl_bincode C)"
    and small: "\<And>idx. unat (fst (snd (v0 idx))) \<le> k" "k + 2 * length (c_log s') + 2 < 2 ^ 64"
    and "cluster_run C evs s = Some s'"
  shows "\<exists>a'. refines C s' a' \<and> a_inv (cl_procs C) v0 a' \<and> stored C s'"
  using assms(1-5,10)
proof (induction evs arbitrary: s a)
  case (Cons ev evs)
  then obtain s1 where s1: "cluster_step C ev s = Some s1" "cluster_run C evs s1 = Some s'" by (auto split: option.splits)
  have len: "k + 2 * length (c_log s) + 2 < 2 ^ 64"
    using cluster_step_log [OF s1(1)] cluster_run_log [OF s1(2)] small(2) by linarith
  from cluster_step_refines [OF Cons.prems(1-5) U small(1) this s1(1)]
  obtain a1 where a1: "a1 = a \<or> a_step (cl_procs C) a a1" "refines C s1 a1" by blast
  then have "a_inv (cl_procs C) v0 a1" "senders_ok (cl_procs C) a1" "stamps_ok k a1"
    using Cons.prems(2-4) a_step_inv a_step_senders_ok a_step_stamps_ok [OF _ Cons.prems(2) small(1)] by blast+
  moreover have "stored C s1" using cluster_step_stored [OF Cons.prems(5,1) B _ s1(1)] len by simp
  ultimately show ?case using Cons.IH [OF a1(2) _ _ _ _ s1(2)] by blast
qed auto

end
