(* ===== verification/Cluster_Progress.thy ===== *)
theory Cluster_Progress
  imports Cluster
begin

text \<open>
  Progress of the whole system: an operation that a process accepts can always be completed. From any
  state there is a schedule, in which each process receives the two requests of the operation and the
  asking process the answers, that ends with the response; nothing the other operations did before can
  prevent it.
\<close>

section \<open>Runs\<close>

lemma cluster_run_append:
  "cluster_run C (es @ es') s = (case cluster_run C es s of None \<Rightarrow> None | Some s \<Rightarrow> cluster_run C es' s)"
  by (induction es arbitrary: s) (simp_all split: option.split)

definition worlds_ok :: "'u cluster_config \<Rightarrow> 'u cluster \<Rightarrow> bool" where
  "worlds_ok C s \<longleftrightarrow> (\<forall>p \<in> processes (cl_procs C). sm_inv (cl_root C p) (c_world s p) \<and> (\<forall>i. self_ident (c_regs s p i) = p))"

text \<open>Reachable with only the network and the sectors changed.\<close>

definition serves :: "'u cluster_config \<Rightarrow> 'u cluster \<Rightarrow> 'u cluster \<Rightarrow> bool" where
  "serves C s s' \<longleftrightarrow> (\<exists>es. cluster_run C es s = Some s') \<and> worlds_ok C s' \<and> c_regs s' = c_regs s \<and>
     c_route s' = c_route s \<and> c_log s' = c_log s \<and> set (c_net s) \<subseteq> set (c_net s')"

text \<open>The answer of process \<open>q\<close> to a request.\<close>

definition answers_request :: "u8 \<Rightarrow> 'u SystemRegisterCommand \<Rightarrow> 'u SystemRegisterCommand \<Rightarrow> bool" where
  "answers_request q m r \<longleftrightarrow> s_header r = SystemCommandHeader_new q (msg_ident (s_header m)) (read_ident (s_header m)) (s_sector_idx (s_header m)) \<and>
     (if s_content m = ReadProc then \<exists>ts wr d. s_content r = Value ts wr d else s_content r = Ack)"

section \<open>Requests\<close>

lemma request_answered:
  assumes ok: "worlds_ok C s" and q: "q \<in> processes (cl_procs C)" and m: "(unat q, m) \<in> set (c_net s)" "is_request (s_content m)"
  shows "\<exists>s' r. serves C s s' \<and> answers_request q m r \<and> (unat (process_identifier (s_header m)), r) \<in> set (c_net s')"
proof -
  let ?w = "c_world s q" and ?reg = "c_regs s q 0" and ?h = "s_header m" and ?E = "cluster_env C q 0"
  let ?hd = "SystemCommandHeader_new q (msg_ident ?h) (read_ident ?h) (s_sector_idx ?h)"
  have inv: "sm_inv (cl_root C q) ?w" and id: "self_ident ?reg = q" using ok q by (simp_all add: worlds_ok_def)
  have "\<exists>w' c. system_command ?E all_ranks m ?reg ?w = Some (?reg, w', [Send \<lparr>s_header = ?hd, s_content = c\<rparr> (unat (process_identifier ?h))]) \<and>
      sm_inv (cl_root C q) w' \<and> answers_request q m \<lparr>s_header = ?hd, s_content = c\<rparr>"
  proof (cases "s_content m")
    case ReadProc
    with reg.on_read_proc_spec [OF inv, of "cl_uuid C" "cl_bincode C" 0 ?h ?reg] inv id show ?thesis
      by (auto simp: system_command_def cluster_env_def answers_request_def)
  next
    case (WriteProc ts wr d)
    obtain w' where "on_write_proc ?E ?h ts wr d ?reg ?w = Some (?reg, w', [Send \<lparr>s_header = ?hd, s_content = Ack\<rparr> (unat (process_identifier ?h))])"
      "sm_inv (cl_root C q) w'"
      by (rule write_proc_sector [OF inv, of "cl_uuid C" "cl_bincode C" 0 ?h ts wr d ?reg]) (simp add: id cluster_env_def)
    with WriteProc show ?thesis
      by (intro exI [of _ w'] exI [of _ Ack]) (simp add: system_command_def answers_request_def)
  qed (use m(2) in simp_all)
  then obtain w' c where run: "system_command ?E all_ranks m ?reg ?w =
        Some (?reg, w', [Send \<lparr>s_header = ?hd, s_content = c\<rparr> (unat (process_identifier ?h))])"
    and w': "sm_inv (cl_root C q) w'" and ans: "answers_request q m \<lparr>s_header = ?hd, s_content = c\<rparr>" by blast
  let ?s = "outcome_of C q 0 (?reg, w', [Send \<lparr>s_header = ?hd, s_content = c\<rparr> (unat (process_identifier ?h))]) s"
  have "cluster_run C [Deliver q 0 all_ranks m] s = Some ?s"
    using q m run by (simp add: cluster_step_def processes_def REGISTERS_NUMBER_def)
  then have "\<exists>es. cluster_run C es s = Some ?s" by blast
  moreover have "worlds_ok C ?s" using ok w' by (auto simp: worlds_ok_def outcome_of_def)
  ultimately have "serves C s ?s" unfolding serves_def by (intro conjI) (auto simp: outcome_of_def)
  moreover have "(unat (process_identifier ?h), \<lparr>s_header = ?hd, s_content = c\<rparr>) \<in> set (c_net ?s)" by (simp add: outcome_of_def)
  ultimately show ?thesis using ans by blast
qed

lemma serves_trans: "serves C s s' \<Longrightarrow> serves C s' s'' \<Longrightarrow> serves C s s''"
  unfolding serves_def by (metis (no_types, lifting) cluster_run_append option.simps(5) order_trans)

lemma requests_answered:
  assumes "worlds_ok C s" and "set qs \<subseteq> processes (cl_procs C)" and "\<forall>q \<in> set qs. (unat q, m) \<in> set (c_net s)" "is_request (s_content m)"
  shows "\<exists>s'. serves C s s' \<and> (\<forall>q \<in> set qs. \<exists>r. answers_request q m r \<and> (unat (process_identifier (s_header m)), r) \<in> set (c_net s'))"
  using assms(1-3)
proof (induction qs arbitrary: s)
  case Nil
  then show ?case by (intro exI [of _ s]) (auto simp: serves_def intro: exI [of _ "[]"])
next
  case (Cons q qs)
  then obtain s1 r where s1: "serves C s s1" "answers_request q m r" "(unat (process_identifier (s_header m)), r) \<in> set (c_net s1)"
    using request_answered [of C s q m] assms(4) by auto
  then have "worlds_ok C s1" "\<forall>q \<in> set qs. (unat q, m) \<in> set (c_net s1)" using Cons.prems(3) by (auto simp: serves_def)
  with Cons.IH [of s1] Cons.prems(2) obtain s' where s': "serves C s1 s'"
    "\<forall>q \<in> set qs. \<exists>r. answers_request q m r \<and> (unat (process_identifier (s_header m)), r) \<in> set (c_net s')" by auto
  have "(unat (process_identifier (s_header m)), r) \<in> set (c_net s')" using s1(3) s'(1) by (auto simp: serves_def)
  with s1(2) s'(2) serves_trans [OF s1(1) s'(1)] show ?case by (intro exI [of _ s']) auto
qed

section \<open>Answers\<close>

text \<open>Register \<open>i\<close> of process \<open>p\<close> works on request \<open>rid\<close> and listens for read identifier \<open>k\<close>.\<close>

definition waits :: "'u cluster_config \<Rightarrow> 'u cluster \<Rightarrow> u8 \<Rightarrow> nat \<Rightarrow> u64 \<Rightarrow> ClientRegisterCommandContent \<Rightarrow> u64 \<Rightarrow> bool" where
  "waits C s p i rid c k \<longleftrightarrow> worlds_ok C s \<and> reg_inv (c_regs s p i) \<and> processes_count (c_regs s p i) = cl_procs C \<and>
     command_at rid c (c_regs s p i) \<and> st_read_ident (state (c_regs s p i)) = k \<and>
     c_route s p (request_uuid (cl_uuid C) rid) = Some i \<and> i < REGISTERS_NUMBER"

text \<open>A message for the waiting register.\<close>

definition heard :: "'u cluster_config \<Rightarrow> 'u cluster \<Rightarrow> u8 \<Rightarrow> u64 \<Rightarrow> u64 \<Rightarrow> u8 \<Rightarrow> 'u SystemRegisterCommand \<Rightarrow> bool" where
  "heard C s p rid k q r \<longleftrightarrow> (unat p, r) \<in> set (c_net s) \<and> process_identifier (s_header r) = q \<and>
     msg_ident (s_header r) = request_uuid (cl_uuid C) rid \<and> read_ident (s_header r) = k"

text \<open>The operation has entered its second phase: everybody is asked to adopt its pair.\<close>

definition proposed :: "'u cluster_config \<Rightarrow> 'u cluster \<Rightarrow> u8 \<Rightarrow> u64 \<Rightarrow> u64 \<Rightarrow> bool" where
  "proposed C s p rid k \<longleftrightarrow> (\<exists>m ts wr d. s_content m = WriteProc ts wr d \<and> process_identifier (s_header m) = p \<and>
     msg_ident (s_header m) = request_uuid (cl_uuid C) rid \<and> read_ident (s_header m) = k \<and>
     (\<forall>q \<in> processes (cl_procs C). (unat q, m) \<in> set (c_net s)))"

lemma worlds_ok_outcome:
  assumes "worlds_ok C s" and "sm_inv (cl_root C p) w'" and "self_ident reg' = p"
  shows "worlds_ok C (outcome_of C p i (reg', w', effs) s)"
  using assms by (auto simp: worlds_ok_def outcome_of_def)

lemma value_heard:
  assumes W: "waits C s p i rid c k" and p: "p \<in> processes (cl_procs C)" and r: "heard C s p rid k q r" "s_content r = Value ts wr d"
  shows "\<exists>s'. cluster_run C [Deliver p i all_ranks r] s = Some s' \<and> c_log s' = c_log s \<and> set (c_net s) \<subseteq> set (c_net s') \<and>
    ((waits C s' p i rid c k \<and> dom (readlist (c_regs s' p i)) = insert q (dom (readlist (c_regs s p i))) \<and>
        2 * card (dom (readlist (c_regs s' p i))) \<le> cl_procs C) \<or>
     (waits C s' p i rid c (k + 1) \<and> acks (c_regs s' p i) = {} \<and> proposed C s' p rid (k + 1)))"
proof -
  let ?reg = "c_regs s p i" and ?w = "c_world s p" and ?E = "cluster_env C p i" and ?h = "s_header r"
  from W have ok: "worlds_ok C s" "reg_inv ?reg" "processes_count ?reg = cl_procs C" "command_at rid c ?reg"
    "st_read_ident (state ?reg) = k" "c_route s p (request_uuid (cl_uuid C) rid) = Some i" "i < REGISTERS_NUMBER" by (simp_all add: waits_def)
  have inv: "sm_inv (cl_root C p) ?w" and id: "self_ident ?reg = p" using ok(1) p by (simp_all add: worlds_ok_def)
  have busy: "reading ?reg \<or> writing (state ?reg)" by (rule command_at_busy [OF ok(4)])
  have step: "cluster_run C [Deliver p i all_ranks r] s =
      map_option (\<lambda>out. outcome_of C p i out s) (on_value ?E all_ranks ?h ts wr d ?reg ?w)"
    using p r ok(6,7) by (simp add: cluster_step_def processes_def heard_def system_command_def split: option.split)
  have order: "set all_ranks = UNIV" by simp
  from ok(2) order show ?thesis
  proof (cases rule: on_value_cases [where E = ?E and h = ?h and ts = ts and wr = wr and d = d and w = ?w])
    case stale
    with r(1) ok(5) show ?thesis by (simp add: heard_def)
  next
    case (collect reg')
    let ?s = "outcome_of C p i (reg', ?w, []) s"
    have "waits C ?s p i rid c k"
      unfolding waits_def using worlds_ok_outcome [OF ok(1) inv, of reg' i "[]"] ok id collect(1)
      by (simp add: outcome_of_def command_at_readlist)
    moreover have "2 * card (dom (readlist reg')) \<le> cl_procs C" using collect(3) busy ok(3) by simp
    ultimately show ?thesis
      using step collect r(1) by (intro exI [of _ ?s]) (simp add: outcome_of_def heard_def)
  next
    case (quorum reg' t r' v)
    let ?m = "\<lparr>s_header = SystemCommandHeader_new (self_ident ?reg) (msg_ident ?h) (st_read_ident (state ?reg) + 1) (s_sector_idx ?h),
        s_content = quorum_content reg' t r' v\<rparr>"
    let ?s = "outcome_of C p i (quorum_next reg' v, store_state ?E (quorum_next reg' v) ?w, [Broadcast ?m]) s"
    have w': "sm_inv (cl_root C p) (store_state ?E (quorum_next reg' v) ?w)"
      using inv by (simp add: cluster_env_def stored_sectors)
    have "command_at rid c (quorum_next reg' v)"
      using ok(4) quorum(1) by (simp add: command_at_quorum command_at_readlist)
    then have "waits C ?s p i rid c (k + 1)"
      unfolding waits_def using worlds_ok_outcome [OF ok(1) w', of "quorum_next reg' v" i "[Broadcast ?m]"] ok id quorum(1)
      by (simp add: outcome_of_def quorum_next_def reg_inv_def)
    moreover have "proposed C ?s p rid (k + 1)"
      unfolding proposed_def using ok(5) id r(1)
      by (intro exI [of _ ?m]) (auto simp: outcome_of_def processes_def heard_def SystemCommandHeader_new_def quorum_content_def)
    ultimately show ?thesis
      using step quorum(6) by (intro exI [of _ ?s]) (auto simp: outcome_of_def quorum_next_def)
  qed
qed

lemma ack_heard:
  assumes W: "waits C s p i rid c k" and p: "p \<in> processes (cl_procs C)" and r: "heard C s p rid k q r" "s_content r = Ack"
  shows "\<exists>s'. cluster_run C [Deliver p i all_ranks r] s = Some s' \<and> set (c_net s) \<subseteq> set (c_net s') \<and>
    ((waits C s' p i rid c k \<and> c_log s' = c_log s \<and> acks (c_regs s' p i) = insert q (acks (c_regs s p i)) \<and> 2 * card (acks (c_regs s' p i)) \<le> cl_procs C) \<or>
     (\<exists>x. c_log s' = c_log s @ [Res (p, rid) x]))"
proof -
  let ?reg = "c_regs s p i" and ?w = "c_world s p" and ?E = "cluster_env C p i" and ?h = "s_header r"
  from W have ok: "worlds_ok C s" "reg_inv ?reg" "processes_count ?reg = cl_procs C" "command_at rid c ?reg"
    "st_read_ident (state ?reg) = k" "c_route s p (request_uuid (cl_uuid C) rid) = Some i" "i < REGISTERS_NUMBER" by (simp_all add: waits_def)
  have inv: "sm_inv (cl_root C p) ?w" and id: "self_ident ?reg = p" using ok(1) p by (simp_all add: worlds_ok_def)
  have busy: "reading ?reg \<or> writing (state ?reg)" by (rule command_at_busy [OF ok(4)])
  have step: "cluster_run C [Deliver p i all_ranks r] s =
      map_option (\<lambda>out. outcome_of C p i out s) (on_ack ?E ?h ?reg ?w)"
    using p r ok(6,7) by (simp add: cluster_step_def processes_def heard_def system_command_def split: option.split)
  from ok(2) show ?thesis
  proof (cases rule: on_ack_cases [where E = ?E and h = ?h and w = ?w])
    case stale
    with r(1) ok(5) show ?thesis by (simp add: heard_def)
  next
    case (collect reg')
    let ?s = "outcome_of C p i (reg', ?w, []) s"
    have "waits C ?s p i rid c k"
      unfolding waits_def using worlds_ok_outcome [OF ok(1) inv, of reg' i "[]"] ok id collect(1)
      by (simp add: outcome_of_def command_at_acks)
    moreover have "2 * card (acks reg') \<le> cl_procs C" using collect(3) busy ok(3) by simp
    ultimately show ?thesis
      using step collect r(1) by (intro exI [of _ ?s]) (simp add: outcome_of_def heard_def)
  next
    case (quorum reg')
    have cmd: "command_at rid c reg'" using ok(4) quorum(1) by (simp add: command_at_acks)
    then have "callback ?reg = Some ()" "op_request_identifier (ack_result reg') = rid"
      using quorum(1) by (cases c; auto simp: command_at_def ack_result_def)+
    with step quorum(5) show ?thesis by (auto simp: outcome_of_def)
  qed
qed

text \<open>Answers are collected one after the other until there are enough.\<close>

lemma collect_round:
  assumes step: "\<And>s D q. P s D \<Longrightarrow> M s q \<Longrightarrow>
      \<exists>es s'. cluster_run C es s = Some s' \<and> (\<forall>q. M s q \<longrightarrow> M s' q) \<and> (P s' (insert q D) \<or> F s')"
    and "P s D" and "\<forall>q \<in> set qs. M s q"
  shows "\<exists>es s'. cluster_run C es s = Some s' \<and> (P s' (set qs \<union> D) \<or> F s')"
  using assms(2,3)
proof (induction qs arbitrary: s D)
  case Nil
  then show ?case by (intro exI [of _ "[]"] exI [of _ s]) simp
next
  case (Cons q qs)
  then obtain es s1 where s1: "cluster_run C es s = Some s1" "\<forall>q. M s q \<longrightarrow> M s1 q" "P s1 (insert q D) \<or> F s1"
    using step [of s D q] by auto
  from s1(3) show ?case
  proof
    assume P1: "P s1 (insert q D)"
    from Cons.IH [OF this] Cons.prems(2) s1(2) obtain es' s' where
      "cluster_run C es' s1 = Some s'" "P s' (set qs \<union> insert q D) \<or> F s'" by auto
    then show ?thesis
      using s1(1) by (intro exI [of _ "es @ es'"] exI [of _ s']) (simp add: cluster_run_append)
  next
    assume "F s1"
    with s1(1) show ?thesis by blast
  qed
qed

lemma full_house: "n < 256 \<Longrightarrow> card (processes n) = n"
proof -
  assume n: "n < 256"
  have eq: "unat ` processes n = {1..n}"
  proof (intro set_eqI iffI)
    fix j
    assume j: "j \<in> {1..n}"
    then have "unat (of_nat j :: u8) = j" using n by (simp add: unat_of_nat)
    with j show "j \<in> unat ` processes n" by (intro image_eqI [of _ _ "of_nat j"]) (auto simp: processes_def)
  qed (auto simp: processes_def)
  have "inj_on unat (processes n)" by (rule inj_onI) (rule unsigned_word_eqI)
  then show ?thesis using eq by (metis card_atLeastAtMost card_image diff_Suc_1)
qed

lemma values_heard:
  assumes W: "waits C s p i rid c k" "readlist (c_regs s p i) = Map.empty" and p: "p \<in> processes (cl_procs C)" "cl_procs C < 256"
    and M: "\<forall>q \<in> processes (cl_procs C). \<exists>r ts wr d. heard C s p rid k q r \<and> s_content r = Value ts wr d"
  shows "\<exists>es s'. cluster_run C es s = Some s' \<and> c_log s' = c_log s \<and> waits C s' p i rid c (k + 1) \<and>
    acks (c_regs s' p i) = {} \<and> proposed C s' p rid (k + 1)"
proof -
  let ?P = "\<lambda>s' D. waits C s' p i rid c k \<and> dom (readlist (c_regs s' p i)) = D \<and> 2 * card D \<le> cl_procs C \<and> c_log s' = c_log s"
  let ?M = "\<lambda>s' q. \<exists>r ts wr d. heard C s' p rid k q r \<and> s_content r = Value ts wr d"
  let ?F = "\<lambda>s'. c_log s' = c_log s \<and> waits C s' p i rid c (k + 1) \<and> acks (c_regs s' p i) = {} \<and> proposed C s' p rid (k + 1)"
  obtain qs where qs: "set qs = processes (cl_procs C)" using finite_list [OF finite] by metis
  have "\<exists>es s'. cluster_run C es s = Some s' \<and> (?P s' (set qs \<union> {}) \<or> ?F s')"
  proof (rule collect_round [where P = ?P and M = ?M and F = ?F])
    fix s1 D q
    assume P: "?P s1 D" and "?M s1 q"
    then obtain r ts wr d where r: "heard C s1 p rid k q r" "s_content r = Value ts wr d" by blast
    from value_heard [OF _ p(1) r, of i c] P obtain s' where s': "cluster_run C [Deliver p i all_ranks r] s1 = Some s'"
      "c_log s' = c_log s" "set (c_net s1) \<subseteq> set (c_net s')" "?P s' (insert q D) \<or> ?F s'" by auto
    from s'(3) have "\<forall>q. ?M s1 q \<longrightarrow> ?M s' q" unfolding heard_def by blast
    with s' show "\<exists>es s'. cluster_run C es s1 = Some s' \<and> (\<forall>q. ?M s1 q \<longrightarrow> ?M s' q) \<and> (?P s' (insert q D) \<or> ?F s')" by blast
  qed (use W M qs in simp_all)
  moreover have "\<not> 2 * card (processes (cl_procs C)) \<le> cl_procs C"
    using full_house [OF p(2)] p(1) by (auto simp: processes_def)
  ultimately show ?thesis using qs by auto
qed

lemma acks_heard:
  assumes W: "waits C s p i rid c k" "acks (c_regs s p i) = {}" and p: "p \<in> processes (cl_procs C)" "cl_procs C < 256"
    and M: "\<forall>q \<in> processes (cl_procs C). \<exists>r. heard C s p rid k q r \<and> s_content r = Ack"
  shows "\<exists>es s' x. cluster_run C es s = Some s' \<and> c_log s' = c_log s @ [Res (p, rid) x]"
proof -
  let ?P = "\<lambda>s' D. waits C s' p i rid c k \<and> acks (c_regs s' p i) = D \<and> 2 * card D \<le> cl_procs C \<and> c_log s' = c_log s"
  let ?M = "\<lambda>s' q. \<exists>r. heard C s' p rid k q r \<and> s_content r = Ack"
  let ?F = "\<lambda>s'. \<exists>x. c_log s' = c_log s @ [Res (p, rid) x]"
  obtain qs where qs: "set qs = processes (cl_procs C)" using finite_list [OF finite] by metis
  have "\<exists>es s'. cluster_run C es s = Some s' \<and> (?P s' (set qs \<union> {}) \<or> ?F s')"
  proof (rule collect_round [where P = ?P and M = ?M and F = ?F])
    fix s1 D q
    assume P: "?P s1 D" and "?M s1 q"
    then obtain r where r: "heard C s1 p rid k q r" "s_content r = Ack" by blast
    from ack_heard [OF _ p(1) r, of i c] P obtain s' where s': "cluster_run C [Deliver p i all_ranks r] s1 = Some s'"
      "set (c_net s1) \<subseteq> set (c_net s')" "?P s' (insert q D) \<or> ?F s'" by auto
    from s'(2) have "\<forall>q. ?M s1 q \<longrightarrow> ?M s' q" unfolding heard_def by blast
    with s' show "\<exists>es s'. cluster_run C es s1 = Some s' \<and> (\<forall>q. ?M s1 q \<longrightarrow> ?M s' q) \<and> (?P s' (insert q D) \<or> ?F s')" by blast
  qed (use W M qs in simp_all)
  moreover have "\<not> 2 * card (processes (cl_procs C)) \<le> cl_procs C"
    using full_house [OF p(2)] p(1) by (auto simp: processes_def)
  ultimately show ?thesis using qs by auto
qed

section \<open>Progress\<close>

lemma waits_serves:
  assumes "waits C s p i rid c k" and "serves C s s'"
  shows "waits C s' p i rid c k"
  using assms by (simp add: waits_def serves_def)

text \<open>Everybody is asked and answers.\<close>

lemma round_answered:
  assumes W: "waits C s p i rid c k" and m: "is_request (s_content m)" "process_identifier (s_header m) = p"
      "msg_ident (s_header m) = request_uuid (cl_uuid C) rid" "read_ident (s_header m) = k"
      "\<forall>q \<in> processes (cl_procs C). (unat q, m) \<in> set (c_net s)"
  obtains s' where "serves C s s'" and "waits C s' p i rid c k"
    and "\<forall>q \<in> processes (cl_procs C). \<exists>r. heard C s' p rid k q r \<and>
      (if s_content m = ReadProc then \<exists>ts wr d. s_content r = Value ts wr d else s_content r = Ack)"
proof -
  obtain qs where qs: "set qs = processes (cl_procs C)" using finite_list [OF finite] by metis
  have "worlds_ok C s" using W by (simp add: waits_def)
  from requests_answered [OF this _ _ m(1), of qs] qs m(5) obtain s' where s': "serves C s s'"
    "\<forall>q \<in> processes (cl_procs C). \<exists>r. answers_request q m r \<and> (unat p, r) \<in> set (c_net s')"
    using m(2) by auto
  from s'(2) have "\<forall>q \<in> processes (cl_procs C). \<exists>r. heard C s' p rid k q r \<and>
      (if s_content m = ReadProc then \<exists>ts wr d. s_content r = Value ts wr d else s_content r = Ack)"
    using m(3,4) by (fastforce simp: answers_request_def heard_def SystemCommandHeader_new_def)
  with that s'(1) waits_serves [OF W s'(1)] show thesis by blast
qed

lemma operation_completes_in_cluster:
  assumes R: "refines C s a" and n: "cl_procs C < 256" and p: "p \<in> processes (cl_procs C)" and may: "may_invoke p i cmd s"
  shows "\<exists>es s' x. cluster_run C (Invoke p i cmd # es) s = Some s' \<and>
    c_log s' = c_log s @ [Inv (p, request_identifier (c_header cmd)) (c_sector_idx (c_header cmd)) (c_content cmd),
      Res (p, request_identifier (c_header cmd)) x]"
proof -
  let ?reg = "c_regs s p i" and ?E = "cluster_env C p i" and ?w = "c_world s p"
  let ?rid = "request_identifier (c_header cmd)" and ?idx = "c_sector_idx (c_header cmd)" and ?k = "st_read_ident (state (c_regs s p i)) + 1"
  let ?m = "\<lparr>s_header = SystemCommandHeader_new p (request_uuid (cl_uuid C) ?rid) ?k ?idx, s_content = ReadProc\<rparr>"
  have reg: "self_ident ?reg = p" "processes_count ?reg = cl_procs C" using refines_at(3) [OF R p, of i] by (simp_all add: reg_ok_def)
  have idle: "\<not> reading ?reg" "\<not> writing (state ?reg)" using may by (simp_all add: may_invoke_def)
  obtain reg' where c: "client_command ?E cmd () ?reg ?w = (reg', store_state ?E reg' ?w, [Broadcast ?m])"
    "self_ident reg' = p" "processes_count reg' = cl_procs C" "readlist reg' = Map.empty" "st_read_ident (state reg') = ?k"
    "reg_inv reg'" "command_at ?rid (c_content cmd) reg'"
    by (rule client_command_at [of ?E cmd ?reg ?w]) (use reg idle in \<open>simp add: cluster_env_def\<close>)
  define s1 where "s1 = outcome_of C p i (reg', store_state ?E reg' ?w, [Broadcast ?m])
    (s\<lparr>c_route := (c_route s)(p := (c_route s p)(request_uuid (cl_uuid C) ?rid \<mapsto> i)),
       c_log := c_log s @ [Inv (p, ?rid) ?idx (c_content cmd)]\<rparr>)"
  have s1: "cluster_step C (Invoke p i cmd) s = Some s1" "c_regs s1 p i = reg'" "c_log s1 = c_log s @ [Inv (p, ?rid) ?idx (c_content cmd)]"
    "c_route s1 p (request_uuid (cl_uuid C) ?rid) = Some i" "\<forall>q \<in> processes (cl_procs C). (unat q, ?m) \<in> set (c_net s1)"
    using may p c(1) by (auto simp: s1_def cluster_step_def processes_def outcome_of_def)
  have "sm_inv (cl_root C p) (store_state ?E reg' ?w)"
    using refines_at(1) [OF R p] by (simp add: cluster_env_def stored_sectors)
  then have worlds: "worlds_ok C s1"
    using refines_at(1,3) [OF R] c(2) by (auto simp: s1_def worlds_ok_def outcome_of_def reg_ok_def)
  have W1: "waits C s1 p i ?rid (c_content cmd) ?k"
    using worlds s1 c may by (simp add: waits_def may_invoke_def)
  obtain s2 where s2: "serves C s1 s2" "waits C s2 p i ?rid (c_content cmd) ?k"
    "\<forall>q \<in> processes (cl_procs C). \<exists>r ts wr d. heard C s2 p ?rid ?k q r \<and> s_content r = Value ts wr d"
    by (rule round_answered [OF W1, of ?m]) (use s1(5) in \<open>auto simp: SystemCommandHeader_new_def\<close>)
  have "readlist (c_regs s2 p i) = Map.empty" using s2(1) s1(2) c(4) by (simp add: serves_def)
  from values_heard [OF s2(2) this p n s2(3)] obtain es3 s3 where s3: "cluster_run C es3 s2 = Some s3" "c_log s3 = c_log s2"
    "waits C s3 p i ?rid (c_content cmd) (?k + 1)" "acks (c_regs s3 p i) = {}" "proposed C s3 p ?rid (?k + 1)" by blast
  from s3(5) obtain mw ts wr d where mw: "s_content mw = WriteProc ts wr d" "process_identifier (s_header mw) = p"
    "msg_ident (s_header mw) = request_uuid (cl_uuid C) ?rid" "read_ident (s_header mw) = ?k + 1"
    "\<forall>q \<in> processes (cl_procs C). (unat q, mw) \<in> set (c_net s3)" unfolding proposed_def by blast
  obtain s4 where s4: "serves C s3 s4" "waits C s4 p i ?rid (c_content cmd) (?k + 1)"
    "\<forall>q \<in> processes (cl_procs C). \<exists>r. heard C s4 p ?rid (?k + 1) q r \<and> s_content r = Ack"
    by (rule round_answered [OF s3(3) _ mw(2-5)]) (use mw(1) in auto)
  have "acks (c_regs s4 p i) = {}" using s4(1) s3(4) by (simp add: serves_def)
  from acks_heard [OF s4(2) this p n s4(3)] obtain es5 s5 x where s5: "cluster_run C es5 s4 = Some s5"
    "c_log s5 = c_log s4 @ [Res (p, ?rid) x]" by blast
  obtain es2 es4 where es: "cluster_run C es2 s1 = Some s2" "cluster_run C es4 s3 = Some s4" "c_log s4 = c_log s3" "c_log s2 = c_log s1"
    using s2(1) s4(1) unfolding serves_def by auto
  have "cluster_run C (Invoke p i cmd # es2 @ es3 @ es4 @ es5) s = Some s5"
    using s1(1) es s3(1) s5(1) by (simp add: cluster_run_append)
  with s1(3) es s3(2) s5(2) show ?thesis by (intro exI) auto
qed

end
