(* ===== verification/Spec2Isabelle.thy ===== *)
theory Spec2Isabelle
  imports Process Cluster_Progress
begin

text \<open>
  Verification of the atomic disc drive: a distributed block device whose sectors are (N,N) atomic
  registers, replicated over N processes that talk TCP (\<^verbatim>\<open>solution/src\<close>).

  \<^bold>\<open>The program.\<close> A client connects to any process and reads or writes a sector. The connection handler
  (\<^verbatim>\<open>run_register_process.rs\<close>) finds, authenticates and decodes the request and calls the executor
  (\<^verbatim>\<open>commands_executor.rs\<close>), which serializes the commands of one sector and gives each to one of 256
  register threads. A register (\<^verbatim>\<open>atomic_register.rs\<close>) runs the two phases of an operation: it asks all
  processes for their pair of tag and data and then makes them adopt the newest pair, or its own write under a
  newer tag; a majority of answers ends each phase. Messages to other processes go through the register client
  (\<^verbatim>\<open>register_client.rs\<close>), the replicas of the sectors are kept by the sectors manager (\<^verbatim>\<open>sectors_manager.rs\<close>) on
  top of atomic file writes (\<^verbatim>\<open>stable_storage.rs\<close>), and \<^verbatim>\<open>lib.rs\<close> ties the parts together.

  \<^bold>\<open>Theories\<close>, with the code they model.

  \<^item> \<open>Prelude\<close>: types of machine words and bytes, big-endian numbers, decimal names, iteration over hash maps in
    an arbitrary order, maxima by key.
  \<^item> \<open>Domain\<close> (\<^verbatim>\<open>domain.rs\<close>): the data types; \<^verbatim>\<open>uuid\<close> is the parameter \<open>uuid_crate\<close> with \<open>uuid_laws\<close>.
  \<^item> \<open>Wire_Format\<close> (\<^verbatim>\<open>serialize_deserialize.rs\<close>, \<^verbatim>\<open>transfer_public\<close> of \<^verbatim>\<open>lib.rs\<close>): serialization over any
    writer, deserialization over any reader. Round trip, unique readability, totality of decoding, responses.
  \<^item> \<open>Stable_Storage\<close> (\<^verbatim>\<open>stable_storage.rs\<close>): a file system with a volatile and a durable view, failing system
    calls and power loss. A write is atomic at any crash point. Locale \<open>stable_storage_contract\<close>.
  \<^item> \<open>Sectors_Manager\<close> (\<^verbatim>\<open>sectors_manager.rs\<close>): data files, metadata files of many entries, the index in memory and
    the scan that rebuilds it. Refinement to a map from sectors to pairs; interrupted writes.
  \<^item> \<open>Atomic_Register\<close> (\<^verbatim>\<open>atomic_register.rs\<close>): one definition per handler over a table of the operations of the
    sectors manager and the storage, with the effects (broadcasts, sends, callbacks) as values, and the loop of
    a register thread. \<open>Register_Properties\<close>: invariant, recovery, quorums, callbacks. \<open>Register_Liveness\<close>: an
    operation completes. \<open>Replicas\<close>: what a run of messages does to the sectors on disk.
  \<^item> \<open>Commands_Executor\<close> (\<^verbatim>\<open>commands_executor.rs\<close>): every critical section of the tasks and the threads is a step of
    \<open>exec_step\<close>; an interleaving is a list of actions. \<open>Executor_Properties\<close>: the lock of a sector, routing of answers,
    absence of panics, and the two schedules that go wrong.
  \<^item> \<open>Register_Client\<close> (\<^verbatim>\<open>register_client.rs\<close>): connections as the bytes written to them over a network whose connects
    and writes may fail; pending commands and the monitor. \<^verbatim>\<open>hmac\<close> is the parameter \<open>hmac_crate\<close>.
  \<^item> \<open>Connection\<close> (first part of \<^verbatim>\<open>run_register_process.rs\<close>): streams as chunks of bytes and errors; requests from the
    magic number to the response.
  \<^item> \<open>Process\<close> (rest of \<^verbatim>\<open>run_register_process.rs\<close>, \<^verbatim>\<open>run_register_process\<close> of \<^verbatim>\<open>lib.rs\<close>): construction of a process
    from configuration and disk, callbacks, the internal channel.
  \<^item> \<open>Quorum_Protocol\<close>: the protocol that the registers of all processes run together, as five guarded events on
    operations, answers and acknowledgements, and the proof that its log of invocations and responses is
    linearizable. Invariants: where pairs come from, what an operation owes to those completed before it, the log.
  \<^item> \<open>Cluster\<close>: N processes with the registers and disks of the model, connected by a network that delays, reorders,
    repeats and loses messages; one handler of one register is a step, and so is the restart of a process from its
    disk. Each step is a step of the protocol or changes nothing in it (\<open>refines\<close>); the disks hold the states of
    the registers (\<open>stored\<close>). \<open>Cluster_Progress\<close>: an accepted operation has a schedule that completes it.
  \<^item> This theory: what spans sender and receiver, connections and executor, and the properties of the whole system.

  \<^bold>\<open>State.\<close> Each struct is a record with the fields of the source; what the source keeps behind mutexes is passed
  explicitly. The tables \<open>sectors_manager_ops\<close> and \<open>stable_storage_ops\<close> are the traits; \<open>impl_ops\<close>, \<open>impl_storage\<close> and
  \<open>impl_env\<close> the instances the program builds, on one \<open>disk\<close>. A panic is \<open>None\<close>; input and output errors are the left
  summand of \<open>io\<close>.

  \<^bold>\<open>Bounds.\<close> \<^verbatim>\<open>u64\<close>, \<^verbatim>\<open>u8\<close> and \<^verbatim>\<open>u128\<close> are words and wrap as in a release build; where wrapping matters it is an
  hypothesis or its own theorem. There is no fuel: the loops over streams have termination proofs (the stream
  gets shorter), and the scan of the metadata files is a partial function that is proved to return.

  \<^bold>\<open>Composition.\<close> The network of \<open>Cluster\<close> stands for the register client, the TCP connections and the connection
  handlers: \<open>Register_Client\<close> shows that a broadcast is sent or kept for every process and replayed after a reconnect, and
  this theory that what is sent is what is executed. When a process may invoke an operation (\<open>may_invoke\<close>) is what the executor is
  there to guarantee: \<open>Executor_Properties\<close> proves the lock of a sector and the routing of answers, and shows the
  schedules in which a busy register is used again; those, reused request numbers, two handlers of one process in
  the middle of a \<open>WriteProc\<close> at the same time, and a restart that finds an unfinished write are outside the theorem on
  the whole system. The last must be: \<open>recovered_write_repeats\<close> shows that such a write may take effect again later.
  A crash inside a handler is a restart before it or after it with its messages lost, by the atomicity of stored files
  (\<open>write_crash_atomic\<close>); what it does inside a write of a sector is in \<open>Sectors_Manager\<close>.

  \<^bold>\<open>Not modelled.\<close> The kernel driver (C), the tests, logging, sleeping and the length of timeouts (an attempt to connect
  succeeds or not), directories as entries of the file system (creating one succeeds or not), the allocation of tasks
  by the runtime (any interleaving of critical sections is allowed).
\<close>

section \<open>Sender and receiver\<close>



section \<open>Connections and the executor\<close>

text \<open>
  C36. A lost response locks its sector: when the response of a completed client command cannot be
  written, the callback does not call \<^verbatim>\<open>finish_client_command\<close>. Then in every disciplined continuation in
  which nobody else finishes this request the command keeps its sector, and no other command ever owns it.
\<close>

theorem lost_response_locks_sector:
  assumes "uuid_laws U" and "reachable E U regs n w s"
    and "client_tasks s t = Some task" and "t_pc task = Sent m i" and "t_callback task = Reply c msg_type"
    and "faults nt (ticks nt) = Some (e, k)"
    and "disciplined_run E U as s" and "Finish (t_request task) \<notin> set as" and "exec_run E U as s = Some s'"
  shows "(\<exists>pm' w'. run_callback U H key (t_callback task) op pm (out, nt) = (pm', w', [])) \<and>
    client_tasks s' t = Some task \<and>
    (\<forall>t' task'. client_tasks s' t' = Some task' \<and> t' \<noteq> t \<and> t_sector task' = t_sector task \<longrightarrow> \<not> owns (t_pc task'))"
proof (intro conjI allI impI)
  show "\<exists>pm' w'. run_callback U H key (t_callback task) op pm (out, nt) = (pm', w', [])"
    using assms(5,6) by (simp add: run_callback_def complete_request_def respond_def tcp_write_all_def Let_def)
  show stays: "client_tasks s' t = Some task"
    by (rule sent_stays_run [OF assms(9,3,4,8)])
  fix t' task'
  assume "client_tasks s' t' = Some task' \<and> t' \<noteq> t \<and> t_sector task' = t_sector task"
  with owner_excludes [OF assms(1) reachable_run [OF assms(2,7,9)] stays] assms(4) show "\<not> owns (t_pc task')" by auto
qed

abbreviation demo_served :: "(u128, process_callback) action list" where
  "demo_served \<equiv> [Announce 0, ClientCall 0 (demo_cmd 5 0) (Reply 0 WRITE), ClientStep 0, ClientStep 0, ClientStep 0,
     ClientStep 0, ClientStep 0, ClientCall 1 (demo_cmd 6 0) (Reply 1 WRITE), ClientStep 1, ClientStep 1, ClientStep 1]"

abbreviation demo_process :: "(SectorsManagerImplementation \<times> disk, u128, process_callback) exec_state" where
  "demo_process \<equiv> exec_init [idle_register 1 3] 2 (demo_sm, demo_disk)"

text \<open>Two clients write sector \<open>0\<close>: the first command is with the register, the second one is parked.\<close>

lemma demo_served_run:
  obtains s where "reachable (\<lambda>i. demo_env) u128_uuid [idle_register 1 3] 2 (demo_sm, demo_disk) s"
    and "exec_run (\<lambda>i. demo_env) u128_uuid demo_served demo_process = Some s"
    and "client_tasks s = [0 \<mapsto> \<lparr>t_cmd = demo_cmd 5 0, t_callback = Reply 0 WRITE, t_pc = Sent 0 0\<rparr>,
           1 \<mapsto> \<lparr>t_cmd = demo_cmd 6 0, t_callback = Reply 1 WRITE, t_pc = Parked 1\<rparr>]"
    and "cmd_senders (executor s) = [[ClientMessage (demo_cmd 5 0) (Reply 0 WRITE)]]" and "threads s = [Receiving]"
proof -
  let ?E = "\<lambda>i :: nat. demo_env"
  obtain s where d: "disciplined_run ?E u128_uuid demo_served demo_process"
    and r: "exec_run ?E u128_uuid demo_served demo_process = Some s"
    and rest: "client_tasks s = [0 \<mapsto> \<lparr>t_cmd = demo_cmd 5 0, t_callback = Reply 0 WRITE, t_pc = Sent 0 0\<rparr>,
           1 \<mapsto> \<lparr>t_cmd = demo_cmd 6 0, t_callback = Reply 1 WRITE, t_pc = Parked 1\<rparr>]"
      "cmd_senders (executor s) = [[ClientMessage (demo_cmd 5 0) (Reply 0 WRITE)]]" "threads s = [Receiving]"
    by (simp add: exec_eval fun_upd_twist)
  from that [OF reachable_run [OF reachable.init d r] r rest] show thesis .
qed

theorem lost_response_locks_sector_witness:
  "\<exists>s s' pm' w'. exec_run (\<lambda>i. demo_env) u128_uuid demo_served demo_process = Some s \<and>
     exec_run (\<lambda>i. demo_env) u128_uuid [Handle 0 all_ranks] s = Some s' \<and>
     run_callback u128_uuid zero_hmac [2] (Reply 0 WRITE) \<lparr>status_code = Ok, op_request_identifier = 5, op_return = WriteReturn\<rparr>
       PendingCommandsManager_new ([], \<lparr>faults = (\<lambda>_. Some (OtherError, 0)), ticks = 0\<rparr>) = (pm', w', []) \<and>
     (\<forall>task'. client_tasks s' 1 = Some task' \<and> t_sector task' = 0 \<longrightarrow> \<not> owns (t_pc task'))"
proof -
  let ?E = "\<lambda>i :: nat. demo_env"
  obtain s where reach: "reachable ?E u128_uuid [idle_register 1 3] 2 (demo_sm, demo_disk) s"
    and r: "exec_run ?E u128_uuid demo_served demo_process = Some s"
    and T: "client_tasks s = [0 \<mapsto> \<lparr>t_cmd = demo_cmd 5 0, t_callback = Reply 0 WRITE, t_pc = Sent 0 0\<rparr>,
           1 \<mapsto> \<lparr>t_cmd = demo_cmd 6 0, t_callback = Reply 1 WRITE, t_pc = Parked 1\<rparr>]"
    and c: "cmd_senders (executor s) = [[ClientMessage (demo_cmd 5 0) (Reply 0 WRITE)]]" "threads s = [Receiving]"
    by (rule demo_served_run)
  have T0: "client_tasks s 0 = Some \<lparr>t_cmd = demo_cmd 5 0, t_callback = Reply 0 WRITE, t_pc = Sent 0 0\<rparr>" by (simp add: T)
  obtain s' where r': "exec_run ?E u128_uuid [Handle 0 all_ranks] s = Some s'" "disciplined_run ?E u128_uuid [Handle 0 all_ranks] s"
    by (auto simp: exec_step_def handle_def handle_message_def c split_beta)
  from lost_response_locks_sector [OF u128_uuid_laws reach T0 _ _ _ r'(2) _ r'(1), of 0 0 0 WRITE
      "\<lparr>faults = (\<lambda>_. Some (OtherError, 0)), ticks = 0\<rparr>" OtherError 0 zero_hmac "[2]"
      "\<lparr>status_code = Ok, op_request_identifier = 5, op_return = WriteReturn\<rparr>" PendingCommandsManager_new "[]"]
  obtain pm' w' where "run_callback u128_uuid zero_hmac [2] (Reply 0 WRITE) \<lparr>status_code = Ok, op_request_identifier = 5, op_return = WriteReturn\<rparr>
       PendingCommandsManager_new ([], \<lparr>faults = (\<lambda>_. Some (OtherError, 0)), ticks = 0\<rparr>) = (pm', w', [])"
    "\<forall>t' task'. client_tasks s' t' = Some task' \<and> t' \<noteq> 0 \<and> t_sector task' = 0 \<longrightarrow> \<not> owns (t_pc task')"
    by auto
  then have "\<forall>task'. client_tasks s' 1 = Some task' \<and> t_sector task' = 0 \<longrightarrow> \<not> owns (t_pc task')"
    "\<exists>pm' w'. run_callback u128_uuid zero_hmac [2] (Reply 0 WRITE) \<lparr>status_code = Ok, op_request_identifier = 5, op_return = WriteReturn\<rparr>
       PendingCommandsManager_new ([], \<lparr>faults = (\<lambda>_. Some (OtherError, 0)), ticks = 0\<rparr>) = (pm', w', [])"
    using zero_neq_one by blast+
  with r r'(1) show ?thesis by blast
qed

lemma finish_keeps:
  obtains s' where "exec_step E U (Finish req_id) s = Some s'" and "registers s' = registers s"
    and "cmd_senders (executor s') = cmd_senders (executor s)" and "effects s' = effects s"
proof -
  obtain entry ex where f: "finish_client_command U req_id (executor s) = (entry, ex)" by fastforce
  then have "cmd_senders ex = cmd_senders (executor s)"
    by (auto simp: finish_client_command_def Let_def split: option.splits prod.splits if_splits)
  with f that show thesis by (simp add: exec_step_def)
qed



section \<open>The whole system\<close>

lemma cluster_reachable:
  assumes "uuid_laws (cl_uuid C)" and "bincode_laws (cl_bincode C)" and "fresh C W v0"
    and "cluster_run C evs (cluster_start C W) = Some s"
    and "\<forall>idx. unat (fst (snd (v0 idx))) + 2 * length (c_log s) + 2 < 2 ^ 64"
  obtains a where "refines C s a" and "a_inv (cl_procs C) v0 a" and "stored C s"
proof -
  let ?k = "2 ^ 64 - (2 * length (c_log s) + 3) :: nat"
  have small: "unat (fst (snd (v0 idx))) \<le> ?k" "?k + 2 * length (c_log s) + 2 < 2 ^ 64" for idx
    using assms(5) [rule_format, of idx] by linarith+
  have "stamps_ok ?k (a_start v0)" by (simp add: stamps_ok_def a_start_def)
  from cluster_run_refines [OF cluster_start_refines(1) [OF assms(3)] a_start_inv a_start_senders_ok this
      cluster_start_refines(2) [OF assms(3)] assms(1,2) small assms(4)] that
  show thesis by blast
qed

text \<open>
  C1. The sectors are atomic registers: whatever the processes do, also when they stop and are started again from
  their disks, and whatever the network delivers, delays, reorders, repeats or loses, the operations on a sector are linearizable. There is one sequence of all answered
  operations that respects their order in real time and in which every read returns the data of the
  last write before it. The assumptions are that the replicas agree at the start, that each process
  hands a command to an idle register, with a request number of its own and a write after the earlier
  writes of the process to the sector have been answered, that a process that is started again finds no
  unfinished write, and that timestamps and read identifiers do not wrap.
\<close>

theorem cluster_linearizable:
  assumes "uuid_laws (cl_uuid C)" and "bincode_laws (cl_bincode C)" and "fresh C W v0"
    and "cluster_run C evs (cluster_start C W) = Some s"
    and "\<forall>idx. unat (fst (snd (v0 idx))) + 2 * length (c_log s) + 2 < 2 ^ 64"
  shows "linearizable (c_log s) idx (fst (v0 idx))"
proof -
  obtain a where a: "refines C s a" "a_inv (cl_procs C) v0 a" by (rule cluster_reachable [OF assms])
  then have "a_log a = c_log s" by (simp add: refines_def)
  with a_inv_linearizable [OF a(2), of idx] show ?thesis by simp
qed

text \<open>Three processes whose disks hold the same sectors.\<close>

abbreviation demo_cluster :: "u128 cluster_config" where
  "demo_cluster \<equiv> \<lparr>cl_uuid = u128_uuid, cl_bincode = demo_bincode, cl_root = (\<lambda>_. [''data'']), cl_procs = 3\<rparr>"

abbreviation demo_worlds :: "u8 \<Rightarrow> SectorsManagerImplementation \<times> disk" where
  "demo_worlds \<equiv> (\<lambda>_. (demo_sm, demo_disk))"

abbreviation demo_sectors :: "SectorIdx \<Rightarrow> stamped" where
  "demo_sectors \<equiv> sector_of (demo_sm, demo_disk)"

abbreviation demo_write :: ClientRegisterCommand where
  "demo_write \<equiv> \<lparr>c_header = \<lparr>request_identifier = 5, c_sector_idx = 0\<rparr>, c_content = Write [3]\<rparr>"

abbreviation demo_read_back :: ClientRegisterCommand where
  "demo_read_back \<equiv> \<lparr>c_header = \<lparr>request_identifier = 6, c_sector_idx = 0\<rparr>, c_content = Read\<rparr>"

lemma demo_stamps: "unat (fst (snd (demo_sectors idx))) \<le> 1"
proof (cases "idx = 7")
  case True
  then show ?thesis using demo_sector_of by simp
next
  case False
  then have "read_metadata demo_sm demo_disk idx = Some (0, 0)" by (intro read_metadata_absent(1) [OF demo_rep]) simp
  then show ?thesis by (simp add: sector_of_def)
qed

lemma demo_fresh: "fresh demo_cluster demo_worlds demo_sectors"
  by (simp add: fresh_def demo_inv cluster_env_def demo_load_state_all)

lemma demo_small: "length (c_log s) < 100 \<Longrightarrow> \<forall>idx. unat (fst (snd (demo_sectors idx))) + 2 * length (c_log s) + 2 < 2 ^ 64"
  by (intro allI, rule le_less_trans [OF add_le_mono [OF add_le_mono [OF demo_stamps order.refl] order.refl]]) simp

lemma demo_cluster_reachable:
  assumes "cluster_run demo_cluster evs (cluster_start demo_cluster demo_worlds) = Some s" and "length (c_log s) < 100"
  obtains a where "refines demo_cluster s a" and "a_inv (cl_procs demo_cluster) demo_sectors a" and "stored demo_cluster s"
  by (rule cluster_reachable [of demo_cluster demo_worlds demo_sectors evs s])
    (use assms(1) demo_fresh demo_bincode_laws demo_small [OF assms(2)] in auto)

text \<open>A process without operations has idle registers.\<close>

lemma idle_process:
  assumes R: "refines C s a" and inv: "a_inv (cl_procs C) v0 a" and p: "p \<in> processes (cl_procs C)"
    and none: "\<forall>x idx c. Inv x idx c \<in> set (c_log s) \<longrightarrow> fst x \<noteq> p"
  shows "\<not> reading (c_regs s p i)" and "\<not> writing (state (c_regs s p i))"
proof -
  have "a_ops a (p, rid) \<noteq> Some b" for rid b
    using inv none R unfolding a_inv_def order_inv_def times_ok_def refines_def by (metis fst_conv nth_mem)
  then have "\<not> busy_ok a p i (c_regs s p i)" by (auto simp: busy_ok_def ops_at_def)
  with refines_at(3) [OF R p, of i] show "\<not> reading (c_regs s p i)" "\<not> writing (state (c_regs s p i))"
    by (auto simp: reg_ok_def idle_ok_def)
qed

text \<open>Process 1 writes a sector, then process 2 is restarted and reads it.\<close>

lemma demo_cluster_run:
  obtains es1 es2 s x y where
      "cluster_run demo_cluster (es1 @ Restart 2 # es2) (cluster_start demo_cluster demo_worlds) = Some s"
    and "c_log s = [Inv (1, 5) 0 (Write [3]), Res (1, 5) x, Inv (2, 6) 0 Read, Res (2, 6) y]"
proof -
  let ?s0 = "cluster_start demo_cluster demo_worlds"
  have p: "1 \<in> processes (cl_procs demo_cluster)" "2 \<in> processes (cl_procs demo_cluster)" by (simp_all add: processes_def)
  have s0: "cluster_run demo_cluster [] ?s0 = Some ?s0" "c_log ?s0 = []" by (simp_all add: cluster_start_def)
  have may: "may_invoke 1 0 demo_write ?s0"
    by (simp add: may_invoke_def cluster_start_def idle_register_def empty_state_def REGISTERS_NUMBER_def)
  obtain a0 where "refines demo_cluster ?s0 a0" by (rule demo_cluster_reachable [OF s0(1)]) (simp add: s0(2))
  from operation_completes_in_cluster [OF this _ p(1) may]
  obtain es1 s1 x where s1: "cluster_run demo_cluster es1 ?s0 = Some s1" "c_log s1 = [Inv (1, 5) 0 (Write [3]), Res (1, 5) x]"
    using s0(2) by (auto simp del: cluster_run.simps)
  obtain a1 where a1: "refines demo_cluster s1 a1" "a_inv (cl_procs demo_cluster) demo_sectors a1" "stored demo_cluster s1"
    by (rule demo_cluster_reachable [OF s1(1)]) (simp add: s1(2))
  have "\<not> writing (state (c_regs s1 2 i))" for i using idle_process(2) [OF a1(1,2) p(2)] s1(2) by auto
  with restart_enabled [OF a1(1,3) p(2)] obtain s2 where s2: "cluster_step demo_cluster (Restart 2) s1 = Some s2" "c_log s2 = c_log s1"
    by blast
  have run2: "cluster_run demo_cluster (es1 @ [Restart 2]) ?s0 = Some s2" using s1(1) s2(1) by (simp add: cluster_run_append)
  obtain a2 where a2: "refines demo_cluster s2 a2" "a_inv (cl_procs demo_cluster) demo_sectors a2"
    by (rule demo_cluster_reachable [OF run2]) (simp add: s2(2) s1(2))
  have "may_invoke 2 0 demo_read_back s2"
    using idle_process [OF a2 p(2), of 0] s1(2) s2(2) by (auto simp: may_invoke_def REGISTERS_NUMBER_def)
  from operation_completes_in_cluster [OF a2(1) _ p(2) this] s1(2) s2(2)
  obtain es2 s3 y where s3: "cluster_run demo_cluster es2 s2 = Some s3"
    "c_log s3 = [Inv (1, 5) 0 (Write [3]), Res (1, 5) x, Inv (2, 6) 0 Read, Res (2, 6) y]"
    by (auto simp del: cluster_run.simps)
  have "cluster_run demo_cluster (es1 @ Restart 2 # es2) ?s0 = Some s3"
    using s1(1) s2(1) s3(1) by (simp add: cluster_run_append)
  with s3(2) that show thesis by blast
qed

theorem cluster_linearizable_witness:
  "\<exists>es1 es2 s x y. cluster_run demo_cluster (es1 @ Restart 2 # es2) (cluster_start demo_cluster demo_worlds) = Some s \<and>
     c_log s = [Inv (1, 5) 0 (Write [3]), Res (1, 5) x, Inv (2, 6) 0 Read, Res (2, 6) y] \<and> y = ReadReturn (Some [3])"
proof -
  obtain es1 es2 s x y where run: "cluster_run demo_cluster (es1 @ Restart 2 # es2) (cluster_start demo_cluster demo_worlds) = Some s"
    and log: "c_log s = [Inv (1, 5) 0 (Write [3]), Res (1, 5) x, Inv (2, 6) 0 Read, Res (2, 6) y]"
    by (rule demo_cluster_run)
  from cluster_linearizable [OF _ _ demo_fresh run demo_small, of 0] log
  have "linearizable (c_log s) 0 (fst (demo_sectors 0))" by (simp add: demo_bincode_laws)
  then have "y = ReadReturn (Some [3])" unfolding log by (rule linearizable_write_read) simp
  with run log show ?thesis by blast
qed

text \<open>
  C2. Operations can always be completed: in every reachable state of a system of at most 255 processes, a
  command that a process may accept has a schedule in which it is answered. No message or operation of the past
  blocks it, and the register that handles it does not miss the answers.
\<close>

theorem cluster_progress:
  assumes "uuid_laws (cl_uuid C)" and "bincode_laws (cl_bincode C)" and "fresh C W v0"
    and "cluster_run C evs (cluster_start C W) = Some s"
    and "\<forall>idx. unat (fst (snd (v0 idx))) + 2 * length (c_log s) + 2 < 2 ^ 64"
    and "cl_procs C < 256" and "p \<in> processes (cl_procs C)" and "may_invoke p i cmd s"
  shows "\<exists>es s' x. cluster_run C (Invoke p i cmd # es) s = Some s' \<and>
    c_log s' = c_log s @ [Inv (p, request_identifier (c_header cmd)) (c_sector_idx (c_header cmd)) (c_content cmd),
      Res (p, request_identifier (c_header cmd)) x]"
proof -
  obtain a where "refines C s a" "a_inv (cl_procs C) v0 a" by (rule cluster_reachable [OF assms(1-5)])
  from operation_completes_in_cluster [OF this(1) assms(6-8)] show ?thesis .
qed

theorem cluster_progress_witness:
  "\<exists>es s' x. cluster_run demo_cluster (Invoke 1 0 demo_write # es) (cluster_start demo_cluster demo_worlds) = Some s' \<and>
     c_log s' = [Inv (1, 5) 0 (Write [3]), Res (1, 5) x]"
proof -
  let ?s0 = "cluster_start demo_cluster demo_worlds"
  have "may_invoke 1 0 demo_write ?s0"
    by (simp add: may_invoke_def cluster_start_def idle_register_def empty_state_def REGISTERS_NUMBER_def)
  moreover have "c_log ?s0 = []" by (simp add: cluster_start_def)
  ultimately show ?thesis
    using cluster_progress [of demo_cluster demo_worlds demo_sectors "[]" ?s0 1 0 demo_write] demo_fresh demo_bincode_laws demo_small [of ?s0]
    by (auto simp: processes_def simp del: cluster_run.simps(2))
qed

end
